(* ===== verification/Prelude.thy ===== *)
theory Prelude
  imports Main "HOL-Library.Word" "HOL-Library.Multiset"
begin

text \<open>
  What every component of the model shares: the outcome of a Rust computation, the fixed-width
  arithmetic of the two build profiles of \<^verbatim>\<open>Cargo.toml\<close>, the state-passing
  computations of the Vulkan code with their pre/post-condition rules, and the lemma collections
  the component proofs draw from.
\<close>

unbundle bit_operations_syntax

named_theorems rust_arith \<open>definitions of the overflow-aware machine arithmetic\<close>
named_theorems advance \<open>a reader operation only moves forward in its buffer\<close>
named_theorems hoare_rule \<open>pre/post-condition rules of the state-passing primitives\<close>
named_theorems ledger \<open>how a Vulkan call changes the multiset of live handles\<close>

section \<open>Outcomes\<close>

text \<open>
  \<^verbatim>\<open>Dev\<close> is \<^verbatim>\<open>[profile.dev]\<close>, where Rust checks integer overflow and
  panics; \<^verbatim>\<open>Release\<close> is \<^verbatim>\<open>[profile.release]\<close>, where arithmetic wraps and
  shift amounts are masked. Slice indexing panics in both.
\<close>

datatype profile = Dev | Release

type_synonym u8 = "8 word"
type_synonym u32 = "32 word"
type_synonym u64 = "64 word"

text \<open>
  A computation ends with a value, with an \<^verbatim>\<open>Err\<close> of its own error type, with a panic,
  or (only in the models of loops and recursions whose end is not structural) by using up its fuel.
\<close>

datatype panic_reason =
    ArithOverflow \<comment> \<open>checked arithmetic, or a shift by the width or more\<close>
  | IndexOutOfBounds
  | CapacityOverflow
  | Unwrapped \<comment> \<open>\<^verbatim>\<open>unwrap\<close>, \<^verbatim>\<open>expect\<close> or \<^verbatim>\<open>assert!\<close>\<close>

datatype 'e fault = Error 'e | Panic panic_reason | OutOfFuel

type_synonym ('e, 'a) outcome = "'e fault + 'a"

fun is_panic :: "'e fault \<Rightarrow> bool" where
  "is_panic (Panic _) = True"
| "is_panic _ = False"

definition bnd :: "('e, 'a) outcome \<Rightarrow> ('a \<Rightarrow> ('e, 'b) outcome) \<Rightarrow> ('e, 'b) outcome" where
  "bnd m f = (case m of Inl e \<Rightarrow> Inl e | Inr x \<Rightarrow> f x)"

lemma bnd_simps [simp]:
  "bnd (Inl e) f = Inl e"
  "bnd (Inr x) f = f x"
  by (simp_all add: bnd_def)

lemma bnd_cong [fundef_cong]:
  assumes "m = m'" and "\<And>x. m' = Inr x \<Longrightarrow> f x = f' x"
  shows "bnd m f = bnd m' f'"
  using assms by (cases m') (auto simp: bnd_def)

lemma bnd_Inr_iff: "bnd m f = Inr y \<longleftrightarrow> (\<exists>x. m = Inr x \<and> f x = Inr y)"
  by (cases m) auto

lemma bnd_Inl_iff: "bnd m f = Inl e \<longleftrightarrow> m = Inl e \<or> (\<exists>x. m = Inr x \<and> f x = Inl e)"
  by (cases m) auto

lemma bnd_assoc: "bnd (bnd m f) g = bnd m (\<lambda>x. bnd (f x) g)"
  by (cases m) simp_all

lemma bnd_InrE:
  assumes "bnd m f = Inr y"
  obtains x where "m = Inr x" and "f x = Inr y"
  using assms by (auto simp: bnd_Inr_iff)

lemma bnd_InlE:
  assumes "bnd m f = Inl e"
  obtains "m = Inl e" | x where "m = Inr x" and "f x = Inl e"
  using assms by (auto simp: bnd_Inl_iff)

text \<open>
  Weakest preconditions: \<^verbatim>\<open>wp m Q E\<close> says that a value of \<open>m\<close> satisfies \<open>Q\<close> and that a
  fault of \<open>m\<close> satisfies \<open>E\<close>.
\<close>

definition wp :: "('e, 'a) outcome \<Rightarrow> ('a \<Rightarrow> bool) \<Rightarrow> ('e fault \<Rightarrow> bool) \<Rightarrow> bool" where
  "wp m Q E \<longleftrightarrow> (case m of Inl e \<Rightarrow> E e | Inr x \<Rightarrow> Q x)"

lemma wp_simps [simp]:
  "wp (Inr x) Q E \<longleftrightarrow> Q x"
  "wp (Inl e) Q E \<longleftrightarrow> E e"
  "wp (bnd m f) Q E \<longleftrightarrow> wp m (\<lambda>x. wp (f x) Q E) E"
  by (cases m; simp add: wp_def)+

lemma wp_mono:
  assumes "wp m Q E" and "\<And>x. m = Inr x \<Longrightarrow> Q x \<Longrightarrow> Q' x" and "\<And>e. m = Inl e \<Longrightarrow> E e \<Longrightarrow> E' e"
  shows "wp m Q' E'"
  using assms by (cases m) (auto simp: wp_def)

lemma wp_value: "wp m Q E \<Longrightarrow> m = Inr x \<Longrightarrow> Q x"
  by (simp add: wp_def)

lemma wp_fault: "wp m Q E \<Longrightarrow> m = Inl e \<Longrightarrow> E e"
  by (simp add: wp_def)

text \<open>A \<^verbatim>\<open>for\<close> loop over a slice whose body may fail.\<close>

primrec foldM :: "('a \<Rightarrow> 's \<Rightarrow> ('e, 's) outcome) \<Rightarrow> 'a list \<Rightarrow> 's \<Rightarrow> ('e, 's) outcome" where
  "foldM f [] s = Inr s"
| "foldM f (x # xs) s = bnd (f x s) (foldM f xs)"

lemma foldM_append: "foldM f (xs @ ys) s = bnd (foldM f xs s) (foldM f ys)"
  by (induction xs arbitrary: s) (auto simp: bnd_assoc intro: bnd_cong)

section \<open>Machine arithmetic\<close>

definition rust_add :: "profile \<Rightarrow> 'w::len word \<Rightarrow> 'w word \<Rightarrow> ('e, 'w word) outcome" where
  "rust_add p a b =
     (if unat a + unat b < 2 ^ LENGTH('w) \<or> p = Release then Inr (a + b) else Inl (Panic ArithOverflow))"

definition rust_sub :: "profile \<Rightarrow> 'w::len word \<Rightarrow> 'w word \<Rightarrow> ('e, 'w word) outcome" where
  "rust_sub p a b = (if b \<le> a \<or> p = Release then Inr (a - b) else Inl (Panic ArithOverflow))"

definition rust_shl :: "profile \<Rightarrow> 'w::len word \<Rightarrow> nat \<Rightarrow> ('e, 'w word) outcome" where
  "rust_shl p x s =
     (if s < LENGTH('w) then Inr (push_bit s x)
      else if p = Dev then Inl (Panic ArithOverflow)
      else Inr (push_bit (s mod LENGTH('w)) x))"

text \<open>
  Subtraction of two \<^verbatim>\<open>usize\<close> values (64-bit target): the operands are naturals, the result
  is the machine value, which wraps in a release build.
\<close>

definition usize_sub :: "profile \<Rightarrow> nat \<Rightarrow> nat \<Rightarrow> ('e, int) outcome" where
  "usize_sub p a b =
     (if b \<le> a then Inr (int a - int b)
      else if p = Dev then Inl (Panic ArithOverflow)
      else Inr (2 ^ 64 + int a - int b))"

text \<open>
  \<^verbatim>\<open>Vec::with_capacity\<close> and \<^verbatim>\<open>Vec::reserve\<close> panic when the byte size asked
  for exceeds \<^verbatim>\<open>isize::MAX\<close>.
\<close>

definition capacity_ok :: "int \<Rightarrow> int \<Rightarrow> bool" where
  "capacity_ok elem_size n \<longleftrightarrow> elem_size * n < 2 ^ 63"

lemma usize_sub_ok [simp]: "b \<le> a \<Longrightarrow> usize_sub p a b = Inr (int a - int b)"
  by (simp add: usize_sub_def)

lemma rust_add_ok: "unat a + unat b < 2 ^ LENGTH('w) \<Longrightarrow> rust_add p (a :: 'w::len word) b = Inr (a + b)"
  by (simp add: rust_add_def)

lemma rust_shl_ok: "s < LENGTH('w) \<Longrightarrow> rust_shl p (x :: 'w::len word) s = Inr (push_bit s x)"
  by (simp add: rust_shl_def)

lemma rust_arith_no_fuel [simp]:
  "rust_add p a b \<noteq> Inl OutOfFuel"
  "rust_sub p a b \<noteq> Inl OutOfFuel"
  "rust_shl p a s \<noteq> Inl OutOfFuel"
  "usize_sub p m n \<noteq> Inl OutOfFuel"
  by (simp_all add: rust_add_def rust_sub_def rust_shl_def usize_sub_def)

text \<open>In a release build arithmetic never panics.\<close>

lemma rust_arith_release [simp]:
  "rust_add Release a b = Inr (a + b)"
  "rust_sub Release a b = Inr (a - b)"
  "rust_shl Release a s \<noteq> Inl e"
  "usize_sub Release m n \<noteq> Inl e"
  by (simp_all add: rust_add_def rust_sub_def rust_shl_def usize_sub_def)

lemma rust_arith_Inl:
  "rust_add p a b = Inl e \<Longrightarrow> p = Dev \<and> e = Panic ArithOverflow"
  "rust_sub p a b = Inl e \<Longrightarrow> p = Dev \<and> e = Panic ArithOverflow"
  "rust_shl p a s = Inl e \<Longrightarrow> p = Dev \<and> e = Panic ArithOverflow"
  "usize_sub p m n = Inl e \<Longrightarrow> p = Dev \<and> e = Panic ArithOverflow"
  by (cases p; auto simp: rust_add_def rust_sub_def rust_shl_def usize_sub_def split: if_splits)+

lemma rust_arith_no_error [simp]:
  "rust_add p a b \<noteq> Inl (Error e)"
  "rust_sub p a b \<noteq> Inl (Error e)"
  "rust_shl p a s \<noteq> Inl (Error e)"
  "usize_sub p m n \<noteq> Inl (Error e)"
  by (simp_all add: rust_add_def rust_sub_def rust_shl_def usize_sub_def)

section \<open>Vectors\<close>

text \<open>Indexing a slice or a vector panics out of range.\<close>

definition index :: "'a list \<Rightarrow> nat \<Rightarrow> ('e, 'a) outcome" where
  "index xs i = (if i < length xs then Inr (xs ! i) else Inl (Panic IndexOutOfBounds))"

lemma index_Inr [simp]: "i < length xs \<Longrightarrow> index xs i = Inr (xs ! i)"
  by (simp add: index_def)

lemma index_Panic [simp]: "length xs \<le> i \<Longrightarrow> index xs i = Inl (Panic IndexOutOfBounds)"
  by (simp add: index_def)

lemma index_not [simp]: "index xs i \<noteq> Inl OutOfFuel" "index xs i \<noteq> Inl (Error e)"
  by (simp_all add: index_def)

text \<open>\<^verbatim>\<open>slice::get\<close>.\<close>

definition get :: "'a list \<Rightarrow> nat \<Rightarrow> 'a option" where
  "get xs i = (if i < length xs then Some (xs ! i) else None)"

text \<open>\<^verbatim>\<open>slice::first().copied()\<close>.\<close>

definition first :: "'a list \<Rightarrow> 'a option" where
  "first xs = (case xs of [] \<Rightarrow> None | x # _ \<Rightarrow> Some x)"

text \<open>\<^verbatim>\<open>u32::from_le_bytes\<close>.\<close>

definition u32_from_le_bytes :: "u8 \<Rightarrow> u8 \<Rightarrow> u8 \<Rightarrow> u8 \<Rightarrow> u32" where
  "u32_from_le_bytes b0 b1 b2 b3 =
     ucast b0 OR push_bit 8 (ucast b1) OR push_bit 16 (ucast b2) OR push_bit 24 (ucast b3)"

definition u32_to_le_bytes :: "u32 \<Rightarrow> u8 list" where
  "u32_to_le_bytes w =
     [ucast w, ucast (drop_bit 8 w), ucast (drop_bit 16 w), ucast (drop_bit 24 w)]"

lemma bit_u32_from_le_bytes:
  "bit (u32_from_le_bytes b0 b1 b2 b3) n \<longleftrightarrow>
     (if n < 8 then bit b0 n else if n < 16 then bit b1 (n - 8)
      else if n < 24 then bit b2 (n - 16) else bit b3 (n - 24))"
  by (auto simp: u32_from_le_bytes_def bit_or_iff bit_push_bit_iff bit_ucast_iff
      dest: bit_imp_le_length)

lemma u32_le_bytes_inverse: "u32_to_le_bytes (u32_from_le_bytes b0 b1 b2 b3) = [b0, b1, b2, b3]"
  unfolding u32_to_le_bytes_def
  by (auto intro!: bit_eqI simp: bit_ucast_iff bit_drop_bit_eq bit_u32_from_le_bytes)

lemma u32_from_le_bytes_eq:
  "u32_from_le_bytes b0 b1 b2 b3 = w \<longleftrightarrow> [b0, b1, b2, b3] = u32_to_le_bytes w" for w
proof
  assume "[b0, b1, b2, b3] = u32_to_le_bytes w"
  then show "u32_from_le_bytes b0 b1 b2 b3 = w"
    unfolding u32_to_le_bytes_def
    by (auto intro!: bit_eqI simp: bit_u32_from_le_bytes bit_ucast_iff bit_drop_bit_eq split: if_splits)
qed (auto simp: u32_le_bytes_inverse)

lemma u32_from_to_le_bytes:
  "u32_from_le_bytes (ucast w) (ucast (drop_bit 8 w)) (ucast (drop_bit 16 w)) (ucast (drop_bit 24 w)) = w"
  by (simp add: u32_from_le_bytes_eq u32_to_le_bytes_def)

end
