(* ===== verification/BitReader.thy ===== *)
theory BitReader
  imports Prelude
begin

text \<open>
  \<^verbatim>\<open>BitReader\<close> of \<^verbatim>\<open>src/shader_jit/air_parser.rs\<close>: a cursor over a byte
  slice that reads little-endian bit fields and LLVM variable-width integers. The bit position is a
  natural number; the model assumes, as the code does, that eight times the length of a slice fits
  in a \<^verbatim>\<open>usize\<close>. Reading past the end, position underflow after \<^verbatim>\<open>align32\<close>
  and oversized shifts are outcomes of the model.
\<close>

section \<open>The reader\<close>

datatype air_error =
    TooShort
  | NoBitcodeMagic
  | WrapperOutOfBounds
  | Malformed string
  | UnexpectedEof

record reader =
  rdata :: "u8 list"
  bit_pos :: nat

definition new_reader :: "u8 list \<Rightarrow> reader" where
  "new_reader bs = \<lparr>rdata = bs, bit_pos = 0\<rparr>"

definition bits_remaining :: "profile \<Rightarrow> reader \<Rightarrow> (air_error, int) outcome" where
  "bits_remaining p r = usize_sub p (length (rdata r) * 8) (bit_pos r)"

text \<open>The loop of \<^verbatim>\<open>read\<close>: \<open>n\<close> bits still to come, the next one is bit \<open>i\<close> of the result.\<close>

fun read_loop :: "profile \<Rightarrow> nat \<Rightarrow> nat \<Rightarrow> u64 \<Rightarrow> reader \<Rightarrow> (air_error, u64 \<times> reader) outcome" where
  "read_loop p 0 i result r = Inr (result, r)"
| "read_loop p (Suc n) i result r =
     bnd (index (rdata r) (bit_pos r div 8)) (\<lambda>byte.
     let bit = (drop_bit (bit_pos r mod 8) byte) AND 1 in
     bnd (rust_shl p (ucast bit) i) (\<lambda>shifted.
     read_loop p n (Suc i) (result OR shifted) (r\<lparr>bit_pos := bit_pos r + 1\<rparr>)))"

definition read :: "profile \<Rightarrow> u32 \<Rightarrow> reader \<Rightarrow> (air_error, u64 \<times> reader) outcome" where
  "read p num_bits r =
     (if num_bits = 0 then Inr (0, r)
      else bnd (bits_remaining p r) (\<lambda>remaining.
        if remaining < uint num_bits then Inl (Error UnexpectedEof)
        else read_loop p (unat num_bits) 0 0 r))"

definition align32 :: "reader \<Rightarrow> reader" where
  "align32 r =
     (let rem = bit_pos r mod 32
      in if rem \<noteq> 0 then r\<lparr>bit_pos := bit_pos r + (32 - rem)\<rparr> else r)"

lemma wp_bits_remaining:
  assumes "\<And>n. bits_remaining p r = Inr n \<Longrightarrow> Q n" and "\<And>e. e \<noteq> OutOfFuel \<Longrightarrow> E e"
  shows "wp (bits_remaining p r) Q E"
  using assms by (cases "bits_remaining p r") (auto simp: wp_def bits_remaining_def dest: rust_arith_Inl)

section \<open>What an operation of the reader promises\<close>

text \<open>
  Every operation of the parser that takes \<^verbatim>\<open>&mut BitReader\<close> keeps the slice and only moves
  the cursor forward. The two locales are that interface; the loop \<^verbatim>\<open>for _ in 0..n\<close> over
  such an operation is their client.
\<close>

fun rep_read :: "nat \<Rightarrow> (reader \<Rightarrow> (air_error, 'a \<times> reader) outcome)
    \<Rightarrow> reader \<Rightarrow> (air_error, 'a list \<times> reader) outcome" where
  "rep_read 0 f r = Inr ([], r)"
| "rep_read (Suc n) f r =
     bnd (f r) (\<lambda>(x, r). bnd (rep_read n f r) (\<lambda>(xs, r). Inr (x # xs, r)))"

definition forward :: "reader \<Rightarrow> reader \<Rightarrow> bool" where
  "forward r r' \<longleftrightarrow> rdata r' = rdata r \<and> bit_pos r \<le> bit_pos r'"

lemma forward_refl [simp, advance]: "forward r r"
  by (simp add: forward_def)

lemma forward_trans: "forward r s \<Longrightarrow> forward s t \<Longrightarrow> forward r t"
  by (auto simp: forward_def)

locale reader_op =
  fixes rop :: "reader \<Rightarrow> (air_error, 'a \<times> reader) outcome"
  assumes moves_forward: "rop r = Inr (x, r') \<Longrightarrow> forward r r'"
    and has_end: "rop r \<noteq> Inl OutOfFuel"
begin

lemma step:
  assumes "\<And>x r'. rop r = Inr (x, r') \<Longrightarrow> forward r r' \<Longrightarrow> Q (x, r')" and "\<And>e. e \<noteq> OutOfFuel \<Longrightarrow> E e"
  shows "wp (rop r) Q E"
  using assms moves_forward [of r] has_end [of r] by (cases "rop r") (auto simp: wp_def)

lemma rep_forward: "rep_read n rop r = Inr (xs, r') \<Longrightarrow> forward r r'"
proof (induction n arbitrary: r xs r')
  case 0
  then show ?case by simp
next
  case (Suc n)
  then show ?case
    by (fastforce elim!: bnd_InrE dest: moves_forward intro: forward_trans)
qed

lemma rep_has_end: "rep_read n rop r \<noteq> Inl OutOfFuel"
  by (induction n arbitrary: r) (auto simp: bnd_Inl_iff has_end)

lemma rep_length: "rep_read n rop r = Inr (xs, r') \<Longrightarrow> length xs = n"
  by (induction n arbitrary: r xs r') (fastforce elim!: bnd_InrE)+

lemma rep_step:
  assumes "\<And>xs r'. rep_read n rop r = Inr (xs, r') \<Longrightarrow> length xs = n \<Longrightarrow> forward r r' \<Longrightarrow> Q (xs, r')"
    and "\<And>e. e \<noteq> OutOfFuel \<Longrightarrow> E e"
  shows "wp (rep_read n rop r) Q E"
  using assms rep_forward [of n r] rep_has_end [of n r] rep_length [of n r]
  by (cases "rep_read n rop r") (auto simp: wp_def)

end

locale strict_reader_op = reader_op +
  assumes consumes: "rop r = Inr (x, r') \<Longrightarrow> bit_pos r < bit_pos r' \<and> bit_pos r' \<le> 8 * length (rdata r)"
begin

lemma rep_consumes:
  assumes "rep_read n rop r = Inr (xs, r')"
  shows "bit_pos r + n \<le> bit_pos r'"
  using assms
proof (induction n arbitrary: r xs r')
  case 0
  then show ?case by simp
next
  case (Suc n)
  then show ?case
    by (fastforce elim!: bnd_InrE dest: consumes)
qed

end

section \<open>Reading a field\<close>

text \<open>The bits of a byte slice, least significant bit of each byte first.\<close>

definition bits_of :: "u8 list \<Rightarrow> bool list" where
  "bits_of bs = concat (map (\<lambda>b. map (bit b) [0..<8]) bs)"

definition stream :: "reader \<Rightarrow> bool list" where
  "stream r = drop (bit_pos r) (bits_of (rdata r))"

lemma align32_forward [simp]: "forward r (align32 r)"
  by (simp add: align32_def forward_def Let_def) presburger

lemma forward_align [dest]: "forward (align32 r) s \<Longrightarrow> forward r s"
  by (rule forward_trans [OF align32_forward])

text \<open>A new operation meets the contract when its weakest precondition says so.\<close>

lemma reader_opI:
  assumes "\<And>r. wp (rop r) (\<lambda>(x, r'). forward r r') (\<lambda>e. e \<noteq> OutOfFuel)"
  shows "reader_op rop"
proof
  fix r x r'
  assume "rop r = Inr (x, r')"
  from wp_value [OF assms this] show "forward r r'" by simp
next
  fix r
  show "rop r \<noteq> Inl OutOfFuel" using wp_fault [OF assms, of r OutOfFuel] by auto
qed

lemma length_bits_of [simp]: "length (bits_of bs) = 8 * length bs"
  by (induction bs) (simp_all add: bits_of_def)

lemma nth_bits_of: "n < 8 * length bs \<Longrightarrow> bits_of bs ! n = bit (bs ! (n div 8)) (n mod 8)"
proof (induction bs arbitrary: n)
  case Nil
  then show ?case by simp
next
  case (Cons b bs)
  have split: "bits_of (b # bs) = map (bit b) [0..<8] @ bits_of bs"
    by (simp add: bits_of_def)
  show ?case
  proof (cases "n < 8")
    case True
    then show ?thesis by (simp only: split nth_append) (simp add: nth_append)
  next
    case False
    then have "n div 8 = Suc ((n - 8) div 8)" "n mod 8 = (n - 8) mod 8"
      by (simp_all add: le_div_geq le_mod_geq)
    with False Cons show ?thesis
      by (simp add: split nth_append del: upt.simps)
  qed
qed

lemma length_stream: "length (stream r) = 8 * length (rdata r) - bit_pos r"
  by (simp add: stream_def)

lemma stream_advance: "stream (r\<lparr>bit_pos := bit_pos r + n\<rparr>) = drop n (stream r)"
  by (simp add: stream_def add.commute)

lemma stream_nth:
  "n < length (stream r) \<Longrightarrow>
     stream r ! n = bit (rdata r ! ((bit_pos r + n) div 8)) ((bit_pos r + n) mod 8)"
  by (simp add: stream_def nth_bits_of)

text \<open>The bit the loop extracts is the next bit of the stream.\<close>

lemma extracted_bit:
  assumes "stream r = b # bs"
  shows "bit_pos r div 8 < length (rdata r)"
    and "(drop_bit (bit_pos r mod 8) (rdata r ! (bit_pos r div 8)) AND 1 :: u8) = of_bool b"
proof -
  have len: "length (stream r) \<noteq> 0" using assms by simp
  then show "bit_pos r div 8 < length (rdata r)"
    by (simp add: length_stream)
  have "b = stream r ! 0" using assms by simp
  also have "\<dots> = bit (rdata r ! (bit_pos r div 8)) (bit_pos r mod 8)"
    using len by (simp add: stream_nth)
  finally show "(drop_bit (bit_pos r mod 8) (rdata r ! (bit_pos r div 8)) AND 1 :: u8) = of_bool b"
    by (auto simp: and_one_eq mod_2_eq_odd bit_iff_odd_drop_bit)
qed

lemma stream_Cons: "stream r = b # bs \<Longrightarrow> stream (r\<lparr>bit_pos := Suc (bit_pos r)\<rparr>) = bs"
  using stream_advance [of r 1] by simp

lemma push_bit_horner_sum_Cons:
  "push_bit i (horner_sum of_bool 2 (b # bs) :: u64)
     = push_bit i (of_bool b) OR push_bit (Suc i) (horner_sum of_bool 2 bs)" (is "?l = ?r")
proof (rule bit_eqI)
  fix n
  assume "possible_bit TYPE(64 word) n"
  then have "n < 64" by simp
  then show "bit ?l n \<longleftrightarrow> bit ?r n"
    unfolding bit_push_bit_iff bit_or_iff bit_horner_sum_bit_iff
    by (cases n i rule: linorder_cases) (auto simp: nth_Cons' bit_of_bool_iff split: if_splits)
qed

lemma read_loop_stream:
  assumes "stream r = bs @ rest" and "i + length bs \<le> 64"
  shows "read_loop p (length bs) i result r =
           Inr (result OR push_bit i (horner_sum of_bool 2 bs),
                r\<lparr>bit_pos := bit_pos r + length bs\<rparr>)"
  using assms
proof (induction bs arbitrary: i result r)
  case Nil
  then show ?case by simp
next
  case (Cons b bs)
  let ?r = "r\<lparr>bit_pos := Suc (bit_pos r)\<rparr>"
  have str: "stream r = b # (bs @ rest)" using Cons.prems by simp
  note IH = Cons.IH [OF stream_Cons [OF str], of "Suc i"]
  have i: "i < 64" "Suc i + length bs \<le> 64" using Cons.prems by auto
  show ?case
    using i IH extracted_bit [OF str]
    by (simp add: rust_shl_ok or.assoc push_bit_horner_sum_Cons del: horner_sum_simps)
qed

text \<open>
  \<^verbatim>\<open>read(n)\<close> with \<open>n \<le> 64\<close> bits left is the next \<open>n\<close> bits of the stream, little
  endian, in both profiles; with fewer bits left it is \<^verbatim>\<open>UnexpectedEof\<close>.
\<close>

lemma read_inside:
  assumes "bit_pos r \<le> 8 * length (rdata r)"
  shows "read p n r =
    (if n = 0 then Inr (0, r)
     else if 8 * length (rdata r) - bit_pos r < unat n then Inl (Error UnexpectedEof)
     else read_loop p (unat n) 0 0 r)"
proof -
  have "int (length (rdata r) * 8) - int (bit_pos r) < uint n
      \<longleftrightarrow> 8 * length (rdata r) - bit_pos r < unat n"
    using assms by (simp only: uint_nat) arith
  then show ?thesis
    using assms by (simp add: read_def bits_remaining_def mult.commute)
qed

lemma read_stream:
  assumes "stream r = bs @ rest" and "length bs = unat n" and "unat n \<le> 64"
  shows "read p n r = Inr (horner_sum of_bool 2 bs, r\<lparr>bit_pos := bit_pos r + unat n\<rparr>)"
proof (cases "n = 0")
  case True
  then show ?thesis using assms by (simp add: read_def)
next
  case False
  then have "0 < unat n" by (simp add: unat_gt_0)
  moreover have "unat n \<le> 8 * length (rdata r) - bit_pos r"
    using assms(1,2) by (metis length_append length_stream le_add1)
  ultimately show ?thesis
    using False assms read_loop_stream [OF assms(1), of 0 p 0]
    by (simp add: read_inside)
qed

lemma read_eof:
  assumes "bit_pos r \<le> 8 * length (rdata r)" and "length (stream r) < unat n"
  shows "read p n r = Inl (Error UnexpectedEof)"
  using assms by (auto simp: read_inside length_stream)

section \<open>Reading moves forward\<close>

lemma read_loop_advances:
  "read_loop p n i result r = Inr (v, r') \<Longrightarrow>
     r' = r\<lparr>bit_pos := bit_pos r + n\<rparr> \<and> (n \<noteq> 0 \<longrightarrow> bit_pos r + n \<le> 8 * length (rdata r))"
proof (induction n arbitrary: i result r)
  case 0
  then show ?case by simp
next
  case (Suc n)
  then show ?case
    by (cases "bit_pos r div 8 < length (rdata r)") (fastforce simp: Let_def elim!: bnd_InrE)+
qed

lemma read_advances [advance]:
  "read p w r = Inr (v, r') \<Longrightarrow> r' = r\<lparr>bit_pos := bit_pos r + unat w\<rparr>"
  by (auto simp: read_def elim!: bnd_InrE split: if_splits dest: read_loop_advances)

lemma read_in_bounds [advance]:
  "read p w r = Inr (v, r') \<Longrightarrow> w \<noteq> 0 \<Longrightarrow> bit_pos r + unat w \<le> 8 * length (rdata r)"
  by (auto simp: read_def unat_gt_0 elim!: bnd_InrE split: if_splits dest!: read_loop_advances)

lemma read_consumes:
  assumes "read p w r = Inr (v, r')" and "w \<noteq> 0"
  shows "bit_pos r < bit_pos r' \<and> bit_pos r' \<le> 8 * length (rdata r)"
  using assms read_advances [OF assms(1)] read_in_bounds [OF assms] by (simp add: unat_gt_0)

lemma read_loop_has_end: "read_loop p n i result r \<noteq> Inl OutOfFuel"
  by (induction n arbitrary: i result r) (auto simp: bnd_Inl_iff Let_def)

lemma read_has_end [simp]: "read p w r \<noteq> Inl OutOfFuel"
  by (auto simp: read_def bnd_Inl_iff read_loop_has_end bits_remaining_def)

interpretation rd: reader_op "read p w" for p w
  by unfold_locales (auto simp: forward_def dest: read_advances)

interpretation srd: strict_reader_op "read p 1" for p
  by unfold_locales (erule read_consumes, simp)

section \<open>Variable-width integers\<close>

function read_vbr_loop :: "profile \<Rightarrow> u32 \<Rightarrow> u64 \<Rightarrow> u32 \<Rightarrow> u64 \<Rightarrow> reader
    \<Rightarrow> (air_error, u64 \<times> reader) outcome" where
  "read_vbr_loop p width hi_mask shift result r =
     bnd (read p width r) (\<lambda>(piece, r').
     bnd (rust_shl p (piece AND (hi_mask - 1)) (unat shift)) (\<lambda>group.
     if piece AND hi_mask = 0 then Inr (result OR group, r')
     else bnd (rust_sub p width 1) (\<lambda>width1.
       bnd (rust_add p shift width1) (\<lambda>shift'.
       read_vbr_loop p width hi_mask shift' (result OR group) r'))))"
  by pat_completeness auto
termination
proof (relation "measure (\<lambda>(p, w, m, s, acc, r). 8 * length (rdata r) - bit_pos r)", goal_cases)
  case 1
  show ?case by simp
next
  case (2 p width hi_mask shift result r pr piece r' group width1 shift')
  then have rd: "read p width r = Inr (piece, r')" and hi: "piece AND hi_mask \<noteq> 0"
    by simp_all
  have "width \<noteq> 0"
    using rd hi by (auto simp: read_def)
  then have "0 < unat width" and "bit_pos r + unat width \<le> 8 * length (rdata r)"
    using rd by (auto simp: unat_gt_0 dest: read_in_bounds)
  then show ?case
    using read_advances [OF rd] by simp
qed

declare read_vbr_loop.simps [simp del]

definition read_vbr :: "profile \<Rightarrow> u32 \<Rightarrow> reader \<Rightarrow> (air_error, u64 \<times> reader) outcome" where
  "read_vbr p width r =
     bnd (rust_sub p width 1) (\<lambda>width1.
     bnd (rust_shl p 1 (unat width1)) (\<lambda>hi_mask.
     bnd (read p width r) (\<lambda>(piece, r).
     if piece AND hi_mask = 0 then Inr (piece, r)
     else read_vbr_loop p width hi_mask width1 (piece AND (hi_mask - 1)) r)))"

text \<open>One round of the loop: it fails, or this is the last group, or it goes on.\<close>

lemma read_vbr_loop_cases:
  obtains (fail) e where "read_vbr_loop p w m s acc r = Inl e"
      and "read p w r = Inl e \<or> p = Dev \<and> e = Panic ArithOverflow"
  | (last) piece g r' where "read p w r = Inr (piece, r')" and "piece AND m = 0"
      and "rust_shl p (piece AND (m - 1)) (unat s) = (Inr g :: (air_error, u64) outcome)"
      and "read_vbr_loop p w m s acc r = Inr (acc OR g, r')"
  | (more) piece g r' w1 s' where "read p w r = Inr (piece, r')" and "piece AND m \<noteq> 0"
      and "rust_shl p (piece AND (m - 1)) (unat s) = (Inr g :: (air_error, u64) outcome)"
      and "rust_sub p w 1 = (Inr w1 :: (air_error, u32) outcome)"
      and "rust_add p s w1 = (Inr s' :: (air_error, u32) outcome)"
      and "read_vbr_loop p w m s acc r = read_vbr_loop p w m s' (acc OR g) r'"
proof (cases "read p w r")
  case (Inl e)
  then show ?thesis
    by (intro fail [of e]) (auto simp: read_vbr_loop.simps [of p w m s acc r])
next
  case (Inr x)
  obtain piece r' where x: "x = (piece, r')" by (cases x)
  note rd = Inr [unfolded x]
  show ?thesis
  proof (cases "rust_shl p (piece AND (m - 1)) (unat s) :: (air_error, u64) outcome")
    case (Inl e)
    show ?thesis
    proof (rule fail [of e])
      show "read_vbr_loop p w m s acc r = Inl e"
        by (simp add: read_vbr_loop.simps [of p w m s acc r] rd Inl)
      show "read p w r = Inl e \<or> p = Dev \<and> e = Panic ArithOverflow"
        using rust_arith_Inl(3) [OF Inl] by simp
    qed
  next
    case (Inr g)
    note shl = Inr and unfolded = read_vbr_loop.simps [of p w m s acc r] rd Inr
    show ?thesis
    proof (cases "piece AND m = 0")
      case True
      then show ?thesis
        using rd shl by (intro last) (auto simp: unfolded)
    next
      case False
      show ?thesis
      proof (cases "bnd (rust_sub p w 1) (\<lambda>w1. rust_add p s w1) :: (air_error, u32) outcome")
        case (Inl e)
        show ?thesis
        proof (rule fail [of e])
          show "read_vbr_loop p w m s acc r = Inl e"
            using Inl False by (auto simp: unfolded elim!: bnd_InlE)
          show "read p w r = Inl e \<or> p = Dev \<and> e = Panic ArithOverflow"
            using Inl by (auto elim!: bnd_InlE dest: rust_arith_Inl)
        qed
      next
        case (Inr s')
        then show ?thesis
          using False more [OF rd False shl] by (auto simp: unfolded elim!: bnd_InrE)
      qed
    qed
  qed
qed

lemma read_vbr_loop_forward:
  "read_vbr_loop p w m s acc r = Inr (v, r') \<Longrightarrow> forward r r'"
proof (induction p w m s acc r rule: read_vbr_loop.induct)
  case (1 p w m s acc r)
  then show ?case
    by (cases rule: read_vbr_loop_cases [where p = p and w = w and m = m and s = s and acc = acc and r = r])
      (auto dest: rd.moves_forward intro: forward_trans)
qed

lemma read_vbr_loop_has_end: "read_vbr_loop p w m s acc r \<noteq> Inl OutOfFuel"
proof (induction p w m s acc r rule: read_vbr_loop.induct)
  case (1 p w m s acc r)
  then show ?case
    by (cases rule: read_vbr_loop_cases [where p = p and w = w and m = m and s = s and acc = acc and r = r]) auto
qed

lemma read_vbr_has_end [simp]: "read_vbr p w r \<noteq> Inl OutOfFuel"
  by (auto simp: read_vbr_def read_vbr_loop_has_end elim!: bnd_InlE split: if_splits)

lemma read_vbr_forward: "read_vbr p w r = Inr (v, r') \<Longrightarrow> forward r r'"
  by (fastforce simp: read_vbr_def elim!: bnd_InrE split: if_splits
      intro: forward_trans dest: rd.moves_forward read_vbr_loop_forward)

interpretation vbr: reader_op "read_vbr p w" for p w
  by unfold_locales (simp_all add: read_vbr_forward)

lemma read_vbr_loop_bounded:
  "read_vbr_loop p w m s acc r = Inr (v, r') \<Longrightarrow> w \<noteq> 0 \<Longrightarrow> bit_pos r' \<le> 8 * length (rdata r)"
proof (induction p w m s acc r rule: read_vbr_loop.induct)
  case (1 p w m s acc r)
  then show ?case
    by (cases rule: read_vbr_loop_cases [where p = p and w = w and m = m and s = s and acc = acc and r = r]) (auto dest: read_consumes read_advances)
qed

lemma read_vbr_consumes:
  assumes "read_vbr p w r = Inr (v, r')" and "w \<noteq> 0"
  shows "bit_pos r < bit_pos r' \<and> bit_pos r' \<le> 8 * length (rdata r)"
proof -
  from assms(1) obtain m piece r1 w1 where rd: "read p w r = Inr (piece, r1)"
    and res: "(piece, r1) = (v, r') \<or> read_vbr_loop p w m w1 (piece AND (m - 1)) r1 = Inr (v, r')"
    by (fastforce simp: read_vbr_def elim!: bnd_InrE split: if_splits)
  note c = read_consumes [OF rd assms(2)]
  have "rdata r1 = rdata r" using read_advances [OF rd] by simp
  note data = this
  from res show ?thesis
  proof
    assume "(piece, r1) = (v, r')"
    with c show ?thesis by simp
  next
    assume l: "read_vbr_loop p w m w1 (piece AND (m - 1)) r1 = Inr (v, r')"
    from read_vbr_loop_forward [OF l] read_vbr_loop_bounded [OF l assms(2)] c data
    show ?thesis by (auto simp: forward_def)
  qed
qed

section \<open>The bitstream format as a specification\<close>

text \<open>
  \<^verbatim>\<open>put n v\<close> is the field of the low \<open>n\<close> bits of \<open>v\<close>; \<^verbatim>\<open>put_vbr w v\<close> is the
  LLVM variable-width encoding: groups of \<open>w - 1\<close> bits, least significant first, each followed
  by a bit that says whether another group comes.
\<close>

definition put :: "nat \<Rightarrow> u64 \<Rightarrow> bool list" where
  "put n v = map (bit v) [0..<n]"

lemma unat_drop_bit_less:
  fixes v :: "'w::len word"
  assumes "drop_bit n v \<noteq> 0" and "0 < n"
  shows "unat (drop_bit n v) < unat v"
proof -
  have "unat (drop_bit n v) = unat v div 2 ^ n" 
    by (subst unat_drop_bit_eq) (rule drop_bit_eq_div)
  moreover have "0 < unat v" using assms by (metis drop_bit_of_0 unat_gt_0)
  moreover have "1 < (2::nat) ^ n" using assms(2) by (rule one_less_power [rotated]) simp
  ultimately show ?thesis by (simp add: div_less_dividend)
qed

function put_vbr :: "nat \<Rightarrow> u64 \<Rightarrow> bool list" where
  "put_vbr w v =
     (if w < 2 \<or> drop_bit (w - 1) v = 0 then put (w - 1) v @ [False]
      else put (w - 1) v @ True # put_vbr w (drop_bit (w - 1) v))"
  by pat_completeness auto
termination
  by (relation "measure (\<lambda>(w, v). unat v)") (auto simp: unat_drop_bit_less)

declare put_vbr.simps [simp del]

lemma length_put [simp]: "length (put n v) = n"
  by (simp add: put_def)

lemma put_value: "horner_sum of_bool 2 (put n v) = take_bit n v"
  by (simp add: put_def horner_sum_bit_eq_take_bit)

lemma read_put:
  assumes "stream r = put (unat n) v @ rest" and "unat n \<le> 64"
  shows "read p n r = Inr (take_bit (unat n) v, r\<lparr>bit_pos := bit_pos r + unat n\<rparr>)"
  using read_stream [OF assms(1) _ assms(2)] by (simp add: put_value)

text \<open>A group with its continuation bit, as \<^verbatim>\<open>read\<close> returns it.\<close>

lemma group_value:
  fixes v :: u64
  assumes "n < 64"
  shows "horner_sum of_bool 2 (put n v @ [c]) = take_bit n v OR push_bit n (of_bool c)"
proof (rule bit_eqI)
  fix k
  assume "possible_bit TYPE(64 word) k"
  then have "k < 64" by simp
  then show "bit (horner_sum of_bool 2 (put n v @ [c]) :: u64) k
      \<longleftrightarrow> bit (take_bit n v OR push_bit n (of_bool c)) k"
    by (auto simp: bit_horner_sum_bit_iff bit_or_iff bit_take_bit_iff bit_push_bit_iff
        bit_of_bool_iff nth_append put_def less_Suc_eq simp del: horner_sum_simps)
qed

lemma group_mask:
  fixes v :: u64
  assumes "n < 64"
  shows "(take_bit n v OR push_bit n (of_bool c)) AND push_bit n 1 = push_bit n (of_bool c)"
    and "(take_bit n v OR push_bit n (of_bool c)) AND (push_bit n 1 - 1) = take_bit n v"
proof -
  have m: "push_bit n 1 - 1 = (mask n :: u64)"
    by (simp add: mask_eq_exp_minus_1 push_bit_of_1)
  show "(take_bit n v OR push_bit n (of_bool c)) AND push_bit n 1 = push_bit n (of_bool c)"
    by (rule bit_eqI) (auto simp: bit_simps)
  show "(take_bit n v OR push_bit n (of_bool c)) AND (push_bit n 1 - 1) = take_bit n v"
    unfolding m by (rule bit_eqI) (auto simp: bit_simps)
qed

lemma unat_sub_1: "w \<noteq> 0 \<Longrightarrow> unat (w - 1 :: u32) = unat w - 1"
  by (simp add: unat_minus_one)

lemma unat_drop_bit: "unat (drop_bit n v) = unat v div 2 ^ n"
  by (subst unat_drop_bit_eq) (rule drop_bit_eq_div)

lemma push_bit_split:
  "(acc OR push_bit s (take_bit n v)) OR push_bit (s + n) (drop_bit n v) = acc OR push_bit s (v :: u64)"
proof (rule bit_eqI)
  fix k
  show "bit ((acc OR push_bit s (take_bit n v)) OR push_bit (s + n) (drop_bit n v)) k
    \<longleftrightarrow> bit (acc OR push_bit s v) k"
    by (cases "k < s + n") (auto simp: bit_simps not_less le_add_diff_inverse2 dest: le_Suc_ex)
qed

text \<open>The first group of an encoded integer, as \<^verbatim>\<open>read\<close> returns it.\<close>

lemma read_group:
  assumes "stream r = put_vbr (unat w) v @ rest" and "2 \<le> unat w" "unat w \<le> 64"
  defines "n \<equiv> unat w - 1"
  defines "c \<equiv> drop_bit n v \<noteq> 0"
  shows "read p w r = Inr (take_bit n v OR push_bit n (of_bool c), r\<lparr>bit_pos := bit_pos r + unat w\<rparr>)"
    and "stream (r\<lparr>bit_pos := bit_pos r + unat w\<rparr>) = (if c then put_vbr (unat w) (drop_bit n v) @ rest else rest)"
    and "length (put_vbr (unat w) v) = unat w + (if c then length (put_vbr (unat w) (drop_bit n v)) else 0)"
proof -
  let ?rest = "if c then put_vbr (unat w) (drop_bit n v) @ rest else rest"
  have n: "n < 64" "length (put n v @ [c]) = unat w"
    using assms(2,3) by (auto simp: n_def)
  have put: "put_vbr (unat w) v
      = put n v @ [c] @ (if c then put_vbr (unat w) (drop_bit n v) else [])"
    using assms(2) by (subst put_vbr.simps) (auto simp: c_def n_def)
  then have str: "stream r = (put n v @ [c]) @ ?rest"
    using assms(1) by simp
  show "read p w r = Inr (take_bit n v OR push_bit n (of_bool c), r\<lparr>bit_pos := bit_pos r + unat w\<rparr>)"
    using read_stream [OF str n(2) assms(3)] by (simp only: group_value [OF n(1)])
  show "stream (r\<lparr>bit_pos := bit_pos r + unat w\<rparr>) = ?rest"
    by (metis str n(2) stream_advance append_eq_conv_conj)
  show "length (put_vbr (unat w) v) = unat w + (if c then length (put_vbr (unat w) (drop_bit n v)) else 0)"
    using put n(2) by simp
qed

text \<open>
  The loop on an encoded integer: \<open>s\<close> bits of the result are known, and what remains fits in the
  other \<open>64 - s\<close>, so that no shift is out of range.
\<close>

lemma read_vbr_loop_put:
  assumes "stream r = put_vbr (unat w) v @ rest"
    and "2 \<le> unat w" "unat w \<le> 64" "unat s < 64" "unat v < 2 ^ (64 - unat s)"
  shows "read_vbr_loop p w (push_bit (unat w - 1) 1) s acc r =
    Inr (acc OR push_bit (unat s) v, r\<lparr>bit_pos := bit_pos r + length (put_vbr (unat w) v)\<rparr>)"
  using assms
proof (induction "unat w" v arbitrary: s acc r rule: put_vbr.induct)
  case (1 v)
  define n where "n = unat w - 1"
  define m where "m = push_bit n (1 :: u64)"
  define c where "c \<longleftrightarrow> drop_bit n v \<noteq> 0"
  let ?r = "r\<lparr>bit_pos := bit_pos r + unat w\<rparr>"
  have n: "n < 64" "w \<noteq> 0" "Suc n = unat w"
    using "1.prems"(2,3) by (auto simp: n_def)
  note group = read_group [OF "1.prems"(1-3), folded n_def, folded c_def]
  have m: "push_bit (unat w - 1) 1 = m" by (simp only: m_def n_def)
  have shl: "rust_shl p (take_bit n v) (unat s)
      = (Inr (push_bit (unat s) (take_bit n v)) :: (air_error, u64) outcome)"
    using "1.prems"(4) by (simp add: rust_shl_ok)
  have last: "push_bit n (of_bool c) = (0 :: u64) \<longleftrightarrow> \<not> c"
    using n(1) by (auto simp: push_bit_eq_0_iff)
  have step: "read_vbr_loop p w m s acc r =
      (if c then bnd (rust_sub p w 1) (\<lambda>w1. bnd (rust_add p s w1) (\<lambda>s'.
         read_vbr_loop p w m s' (acc OR push_bit (unat s) (take_bit n v)) ?r))
       else Inr (acc OR push_bit (unat s) (take_bit n v), ?r))"
    unfolding read_vbr_loop.simps [of p w m s acc r]
    by (simp only: group(1) bnd_simps prod.case group_mask [OF n(1), folded m_def] shl last if_not_P if_P
        split: if_split) simp
  show ?case
  proof (cases c)
    case False
    then have "take_bit n v = v"
      by (simp add: c_def take_bit_eq_self_iff_drop_bit_eq_0)
    with False show ?thesis unfolding m by (simp add: step group(3))
  next
    case True
    have w1: "rust_sub p w 1 = (Inr (w - 1) :: (air_error, u32) outcome)"
      using n(2) by (simp add: rust_sub_def word_le_nat_alt unat_gt_0 Suc_le_eq)
    have "0 < unat (drop_bit n v)" using True by (simp add: c_def unat_gt_0)
    then have ge: "2 ^ n \<le> unat v"
      unfolding unat_drop_bit by (simp add: div_greater_zero_iff)
    have "(2::nat) ^ n < 2 ^ (64 - unat s)" using ge "1.prems"(5) by linarith
    then have lt: "n < 64 - unat s" by simp
    have s': "unat (s + (w - 1)) = unat s + n"
      using lt n(2) by (simp add: unat_sub_1 unat_word_ariths(1) n_def)
    have add: "rust_add p s (w - 1) = (Inr (s + (w - 1)) :: (air_error, u32) outcome)"
      using lt n(2) by (intro rust_add_ok) (simp add: unat_sub_1 n_def)
    have "unat v < 2 ^ n * 2 ^ (64 - unat s - n)"
      using "1.prems"(5) lt by (simp flip: power_add)
    then have v': "unat (drop_bit n v) < 2 ^ (64 - (unat s + n))"
      unfolding unat_drop_bit by (simp add: div_less_iff_less_mult mult.commute)
    have guard: "\<not> (unat w < 2 \<or> drop_bit n v = 0)" using True "1.prems"(2) by (simp add: c_def n_def)
    have "read_vbr_loop p w m (s + (w - 1)) (acc OR push_bit (unat s) (take_bit n v)) ?r =
      Inr ((acc OR push_bit (unat s) (take_bit n v)) OR push_bit (unat s + n) (drop_bit n v),
        ?r\<lparr>bit_pos := bit_pos ?r + length (put_vbr (unat w) (drop_bit n v))\<rparr>)"
      using "1.hyps" [folded n_def, folded m_def, OF guard, of ?r "s + (w - 1)"]
        group(2) True "1.prems"(2,3) lt v' s'
      by simp
    then show ?thesis
      using True unfolding m by (simp add: step w1 add group(3) push_bit_split)
  qed
qed

text \<open>
  The whole of \<^verbatim>\<open>read_vbr\<close>: any 64-bit value, encoded with any group width from 2 to 64,
  is read back, in both profiles, and exactly its encoding is consumed.
\<close>

lemma read_vbr_put:
  assumes "stream r = put_vbr (unat w) v @ rest" and "2 \<le> unat w" "unat w \<le> 64"
  shows "read_vbr p w r = Inr (v, r\<lparr>bit_pos := bit_pos r + length (put_vbr (unat w) v)\<rparr>)"
proof -
  define n where "n = unat w - 1"
  define m where "m = push_bit n (1 :: u64)"
  define c where "c \<longleftrightarrow> drop_bit n v \<noteq> 0"
  note group = read_group [OF assms, folded n_def, folded c_def]
  have nz: "w \<noteq> 0" using assms(2) by auto
  have n: "n < 64" "w \<noteq> 0" "Suc n = unat w" "unat (w - 1) = n"
    using assms(2,3) nz unat_sub_1 [of w] by (auto simp: n_def)
  have w1: "rust_sub p w 1 = (Inr (w - 1) :: (air_error, u32) outcome)"
    using n(2) by (simp add: rust_sub_def word_le_nat_alt unat_gt_0 Suc_le_eq)
  have hi: "rust_shl p 1 n = (Inr m :: (air_error, u64) outcome)"
    using n(1) by (simp add: rust_shl_ok m_def)
  note mask = group_mask [OF n(1), folded m_def]
  have last: "push_bit n (of_bool c) = (0 :: u64) \<longleftrightarrow> \<not> c"
    using n(1) by (auto simp: push_bit_eq_0_iff)
  let ?r = "r\<lparr>bit_pos := bit_pos r + unat w\<rparr>"
  have step: "read_vbr p w r =
      (if c then read_vbr_loop p w m (w - 1) (take_bit n v) ?r
       else Inr (take_bit n v OR push_bit n (of_bool c), ?r))"
    by (simp only: read_vbr_def w1 bnd_simps n(4) hi group(1) prod.case mask last split: if_split) simp
  show ?thesis
  proof (cases c)
    case False
    then have "take_bit n v = v" by (simp add: c_def take_bit_eq_self_iff_drop_bit_eq_0)
    with False show ?thesis by (simp add: step group(3))
  next
    case True
    have "unat v < 2 ^ n * 2 ^ (64 - n)"
      using n(1) unsigned_less [of v, where ?'a = nat] by (simp flip: power_add)
    then have "unat (drop_bit n v) < 2 ^ (64 - n)"
      unfolding unat_drop_bit by (simp add: div_less_iff_less_mult mult.commute)
    then have "read_vbr_loop p w m (w - 1) (take_bit n v) ?r = Inr (take_bit n v OR push_bit n (drop_bit n v),
        ?r\<lparr>bit_pos := bit_pos ?r + length (put_vbr (unat w) (drop_bit n v))\<rparr>)"
      using read_vbr_loop_put [of ?r w "drop_bit n v" rest "w - 1", folded n_def, folded m_def]
        group(2) True assms(2,3) n by simp
    moreover have "take_bit n v OR push_bit n (drop_bit n v) = v"
      using push_bit_split [of 0 0 n v] by simp
    ultimately show ?thesis
      using True by (simp add: step group(3))
  qed
qed

section \<open>When reading cannot panic\<close>

text \<open>
  With the cursor inside the slice a release build never panics in the reader, and a development
  build does not either for fields of at most 64 bits.
\<close>

definition in_bounds :: "reader \<Rightarrow> bool" where
  "in_bounds r \<longleftrightarrow> bit_pos r \<le> 8 * length (rdata r)"

lemma read_loop_safe:
  "bit_pos r + n \<le> 8 * length (rdata r) \<Longrightarrow> p = Release \<or> i + n \<le> 64 \<Longrightarrow>
     read_loop p n i acc r \<noteq> Inl (Panic c)"
proof (induction n arbitrary: i acc r)
  case 0
  then show ?case by simp
next
  case (Suc n)
  have "bit_pos r div 8 < length (rdata r)" using Suc.prems(1) by simp
  moreover have "rust_shl p (ucast (drop_bit (bit_pos r mod 8) (rdata r ! (bit_pos r div 8)) AND 1 :: u8)) i
      \<noteq> (Inl e :: (air_error, u64) outcome)" for e
    using Suc.prems(2) by (auto simp: rust_shl_def)
  ultimately show ?case
    using Suc.prems by (auto simp: Let_def bnd_Inl_iff Suc.IH)
qed

lemma read_safe:
  assumes "in_bounds r" and "p = Release \<or> unat n \<le> 64"
  shows "read p n r \<noteq> Inl (Panic c)"
  using assms by (auto simp: read_inside in_bounds_def read_loop_safe)

lemma read_in_bounds_after: "read p n r = Inr (v, r') \<Longrightarrow> in_bounds r \<Longrightarrow> in_bounds r'"
  using read_advances [of p n r v r'] read_in_bounds [of p n r v r']
  by (cases "n = 0") (auto simp: in_bounds_def)

lemma read_vbr_loop_release:
  "p = Release \<Longrightarrow> in_bounds r \<Longrightarrow> read_vbr_loop p w m s acc r \<noteq> Inl (Panic c)"
proof (induction p w m s acc r rule: read_vbr_loop.induct)
  case (1 p w m s acc r)
  then show ?case
    by (cases rule: read_vbr_loop_cases [where p = p and w = w and m = m and s = s and acc = acc and r = r])
      (auto simp: read_safe read_in_bounds_after)
qed

lemma read_vbr_release: "in_bounds r \<Longrightarrow> read_vbr Release w r \<noteq> Inl (Panic c)"
  by (auto simp: read_vbr_def bnd_Inl_iff read_safe read_vbr_loop_release
      dest: read_in_bounds_after split: if_splits)

lemma read_vbr_in_bounds_after:
  assumes "read_vbr p w r = Inr (v, r')" and "in_bounds r"
  shows "in_bounds r'"
proof (cases "w = 0")
  case True
  with assms show ?thesis
    by (auto simp: read_vbr_def read_def elim!: bnd_InrE)
next
  case False
  then show ?thesis
    using read_vbr_consumes [OF assms(1)] vbr.moves_forward [OF assms(1)]
    by (simp add: in_bounds_def forward_def)
qed

section \<open>Properties\<close>

text \<open>
  C9: \<^verbatim>\<open>read\<close> of up to 64 bits is a read of the bit stream, in both profiles: it returns the
  next \<open>n\<close> bits, least significant first, and moves past them, or answers
  \<^verbatim>\<open>UnexpectedEof\<close> when fewer are left, and never panics.
\<close>

theorem read_refines_stream:
  assumes "in_bounds r" and "unat n \<le> 64"
  shows "read p n r =
    (if unat n \<le> length (stream r)
     then Inr (horner_sum of_bool 2 (take (unat n) (stream r)), r\<lparr>bit_pos := bit_pos r + unat n\<rparr>)
     else Inl (Error UnexpectedEof))"
proof (cases "unat n \<le> length (stream r)")
  case True
  then have "stream r = take (unat n) (stream r) @ drop (unat n) (stream r)"
    and "length (take (unat n) (stream r)) = unat n" by simp_all
  from read_stream [OF this assms(2)] True show ?thesis by simp
next
  case False
  then show ?thesis using assms(1) by (simp add: read_eof in_bounds_def)
qed

theorem read_refines_stream_witness:
  "read Dev 12 (new_reader [0xCA, 0xFE]) = Inr (0xECA, \<lparr>rdata = [0xCA, 0xFE], bit_pos = 12\<rparr>)"
proof -
  have "in_bounds (new_reader [0xCA, 0xFE])" and "unat (12 :: u32) \<le> 64"
    and "unat (12 :: u32) \<le> length (stream (new_reader [0xCA, 0xFE]))"
    and "horner_sum of_bool 2 (take (unat (12 :: u32)) (stream (new_reader [0xCA, 0xFE]))) = (0xECA :: u64)"
    by code_simp+
  from read_refines_stream [OF this(1,2), of Dev] this(3,4) show ?thesis by (simp add: new_reader_def)
qed

text \<open>
  C20: Variable-width integers round-trip: whatever 64-bit value is written in groups of \<open>w\<close> bits
  (for \<open>w\<close> from 2 to 64), \<^verbatim>\<open>read_vbr\<close> reads it back and stops at the bit behind it, in both
  profiles.
\<close>

theorem vbr_roundtrip:
  assumes "stream r = put_vbr (unat w) v @ rest" and "2 \<le> unat w" "unat w \<le> 64"
  shows "read_vbr p w r = Inr (v, r\<lparr>bit_pos := bit_pos r + length (put_vbr (unat w) v)\<rparr>)"
  using assms by (rule read_vbr_put)

theorem vbr_roundtrip_witness:
  "read_vbr Dev 6 (new_reader [228, 0]) = Inr (100, \<lparr>rdata = [228, 0], bit_pos = 12\<rparr>)"
proof -
  have "stream (new_reader [228, 0]) = put_vbr (unat (6 :: u32)) 100 @ [False, False, False, False]"
    and "2 \<le> unat (6 :: u32)" "unat (6 :: u32) \<le> 64" and "length (put_vbr (unat (6 :: u32)) 100) = 12"
    by code_simp+
  from vbr_roundtrip [OF this(1-3), of Dev] this(4) show ?thesis by (simp add: new_reader_def)
qed

end
