(* ===== verification/AirParser.thy ===== *)
theory AirParser
  imports BitReader
begin

text \<open>
  The LLVM bitstream parser of \<^verbatim>\<open>src/shader_jit/air_parser.rs\<close>: abbreviation definitions,
  abbreviated records, blocks and the bitcode wrapper. \<^verbatim>\<open>parse_block\<close> is a loop that calls
  itself on nested blocks; the model counts the rounds with fuel, and \<open>parse_blocks_has_end\<close> below shows
  that the fuel \<^verbatim>\<open>parse\<close> starts with is never used up. The tag scan over the body is in theory
  \<^verbatim>\<open>AirTags\<close>.
\<close>

section \<open>Data\<close>

definition BITCODE_WRAPPER_MAGIC :: u32 where
  "BITCODE_WRAPPER_MAGIC = 0x0B17C0DE"

definition RAW_BITCODE_MAGIC :: "u8 list" where
  "RAW_BITCODE_MAGIC = [0x42, 0x43, 0xC0, 0xDE]"

definition END_BLOCK :: u64 where "END_BLOCK = 0"
definition ENTER_SUBBLOCK :: u64 where "ENTER_SUBBLOCK = 1"
definition DEFINE_ABBREV :: u64 where "DEFINE_ABBREV = 2"
definition UNABBREV_RECORD :: u64 where "UNABBREV_RECORD = 3"
definition FIRST_APPLICATION_ABBREV :: u64 where "FIRST_APPLICATION_ABBREV = 4"
definition BLOCKINFO_BLOCK_ID :: u64 where "BLOCKINFO_BLOCK_ID = 0"
definition BLOCKINFO_CODE_SETBID :: u64 where "BLOCKINFO_CODE_SETBID = 1"

lemmas bitstream_ids = END_BLOCK_def ENTER_SUBBLOCK_def DEFINE_ABBREV_def UNABBREV_RECORD_def
  FIRST_APPLICATION_ABBREV_def BLOCKINFO_BLOCK_ID_def BLOCKINFO_CODE_SETBID_def

record wrapper_header =
  version :: u32
  offset :: u32
  wsize :: u32
  cpu_type :: u32

record bitstream_record =
  rec_abbrev_id :: u64
  rec_code :: u64
  rec_operands :: "u64 list"
  rec_blob :: "u8 list"

datatype bitstream_block =
  BitstreamBlock (block_id: u64) (abbrev_width: u32)
    (records: "bitstream_record list") (subblocks: "bitstream_block list")

datatype abbrev_op = Literal u64 | Fixed u32 | Vbr u32 | Array | Char6 | Blob

datatype abbrev_def = AbbrevDef (ops: "abbrev_op list")

type_synonym abbrev_table = "u64 \<rightharpoonup> abbrev_def list"

section \<open>Abbreviations\<close>

text \<open>One operand of an abbreviation definition: the body of the loop of \<^verbatim>\<open>read_abbrev_def\<close>.\<close>

definition read_abbrev_op :: "profile \<Rightarrow> reader \<Rightarrow> (air_error, abbrev_op \<times> reader) outcome" where
  "read_abbrev_op p r =
     bnd (read p 1 r) (\<lambda>(is_literal, r).
     if is_literal \<noteq> 0 then bnd (read_vbr p 8 r) (\<lambda>(v, r). Inr (Literal v, r))
     else bnd (read p 3 r) (\<lambda>(encoding, r).
       if encoding = 1 then bnd (read_vbr p 5 r) (\<lambda>(w, r). Inr (Fixed (ucast w), r))
       else if encoding = 2 then bnd (read_vbr p 5 r) (\<lambda>(w, r). Inr (Vbr (ucast w), r))
       else if encoding = 3 then Inr (Array, r)
       else if encoding = 4 then Inr (Char6, r)
       else if encoding = 5 then Inr (Blob, r)
       else Inl (Error (Malformed ''unknown abbrev operand encoding''))))"

text \<open>An \<^verbatim>\<open>AbbrevOp\<close> takes 16 bytes, so the vector is allocated for up to \<open>2 ^ 59 - 1\<close> of them.\<close>

definition read_abbrev_def :: "profile \<Rightarrow> reader \<Rightarrow> (air_error, abbrev_def \<times> reader) outcome" where
  "read_abbrev_def p r =
     bnd (read_vbr p 5 r) (\<lambda>(num_ops, r).
     if \<not> capacity_ok 16 (uint num_ops) then Inl (Panic CapacityOverflow)
     else bnd (rep_read (unat num_ops) (read_abbrev_op p) r) (\<lambda>(xs, r). Inr (AbbrevDef xs, r)))"

text \<open>An element of an array operand.\<close>

definition read_element :: "profile \<Rightarrow> abbrev_op \<Rightarrow> reader \<Rightarrow> (air_error, u64 \<times> reader) outcome" where
  "read_element p elem_op r =
     (case elem_op of
        Literal v \<Rightarrow> Inr (v, r)
      | Fixed w \<Rightarrow> read p w r
      | Vbr w \<Rightarrow> read_vbr p w r
      | Char6 \<Rightarrow> read p 6 r
      | _ \<Rightarrow> Inl (Error (Malformed ''invalid array element type'')))"

definition read_byte :: "profile \<Rightarrow> reader \<Rightarrow> (air_error, u8 \<times> reader) outcome" where
  "read_byte p r = bnd (read p 8 r) (\<lambda>(v, r). Inr (ucast v, r))"

text \<open>The \<^verbatim>\<open>while i < def.ops.len()\<close> loop of \<^verbatim>\<open>read_abbreviated_record\<close>.\<close>

fun read_ops :: "profile \<Rightarrow> abbrev_op list \<Rightarrow> u64 list \<Rightarrow> u8 list \<Rightarrow> reader
    \<Rightarrow> (air_error, (u64 list \<times> u8 list) \<times> reader) outcome" where
  "read_ops p [] vals blob r = Inr ((vals, blob), r)"
| "read_ops p (Literal v # os) vals blob r = read_ops p os (vals @ [v]) blob r"
| "read_ops p (Fixed w # os) vals blob r =
     bnd (read p w r) (\<lambda>(v, r). read_ops p os (vals @ [v]) blob r)"
| "read_ops p (Vbr w # os) vals blob r =
     bnd (read_vbr p w r) (\<lambda>(v, r). read_ops p os (vals @ [v]) blob r)"
| "read_ops p (Char6 # os) vals blob r =
     bnd (read p 6 r) (\<lambda>(v, r). read_ops p os (vals @ [v]) blob r)"
| "read_ops p [Array] vals blob r =
     bnd (read_vbr p 6 r) (\<lambda>_. Inl (Error (Malformed ''array missing element type'')))"
| "read_ops p (Array # elem_op # os) vals blob r =
     bnd (read_vbr p 6 r) (\<lambda>(count, r).
     bnd (rep_read (unat count) (read_element p elem_op) r) (\<lambda>(vs, r).
     read_ops p os (vals @ vs) blob r))"
| "read_ops p (Blob # os) vals blob r =
     bnd (read_vbr p 6 r) (\<lambda>(len, r).
     if \<not> capacity_ok 1 (int (length blob) + uint len) then Inl (Panic CapacityOverflow)
     else bnd (rep_read (unat len) (read_byte p) (align32 r)) (\<lambda>(bytes, r).
       read_ops p os vals (blob @ bytes) (align32 r)))"

definition read_abbreviated_record :: "profile \<Rightarrow> abbrev_def \<Rightarrow> reader
    \<Rightarrow> (air_error, (u64 \<times> u64 list \<times> u8 list) \<times> reader) outcome" where
  "read_abbreviated_record p d r =
     bnd (read_ops p (ops d) [] [] r) (\<lambda>((vals, blob), r).
     let code = (case first vals of Some c \<Rightarrow> c | None \<Rightarrow> 0);
         operands = (if 1 < length vals then tl vals else [])
     in Inr ((code, operands, blob), r))"

definition read_unabbrev_record :: "profile \<Rightarrow> reader
    \<Rightarrow> (air_error, (u64 \<times> u64 list) \<times> reader) outcome" where
  "read_unabbrev_record p r =
     bnd (read_vbr p 6 r) (\<lambda>(code, r).
     bnd (read_vbr p 6 r) (\<lambda>(num_ops, r).
     if \<not> capacity_ok 8 (uint num_ops) then Inl (Panic CapacityOverflow)
     else bnd (rep_read (unat num_ops) (read_vbr p 6) r) (\<lambda>(operands, r).
       Inr ((code, operands), r))))"

section \<open>Blocks\<close>

text \<open>
  The header of a nested block after its \<^verbatim>\<open>ENTER_SUBBLOCK\<close> id: block id, new abbreviation
  width, alignment and the length word, which the parser reads and ignores.
\<close>

definition read_block_header :: "profile \<Rightarrow> reader \<Rightarrow> (air_error, (u64 \<times> u32) \<times> reader) outcome" where
  "read_block_header p r =
     bnd (read_vbr p 8 r) (\<lambda>(sub_block_id, r).
     bnd (read_vbr p 4 r) (\<lambda>(new_abbrev_width, r).
     bnd (read p 32 (align32 r)) (\<lambda>(block_len_words, r).
     Inr ((sub_block_id, ucast new_abbrev_width), r))))"

record block_state =
  recs :: "bitstream_record list"
  subs :: "bitstream_block list"
  local_abbrevs :: "abbrev_def list"
  current_setbid :: "u64 option"

text \<open>One entry of a block that is not a nested block and not its end.\<close>

definition parse_entry :: "profile \<Rightarrow> u64 \<Rightarrow> u64 \<Rightarrow> block_state \<Rightarrow> abbrev_table \<Rightarrow> reader
    \<Rightarrow> (air_error, (block_state \<times> abbrev_table) \<times> reader) outcome" where
  "parse_entry p bid abbrev_id st table r =
     (if abbrev_id = DEFINE_ABBREV then
        bnd (read_abbrev_def p r) (\<lambda>(d, r).
        if bid = BLOCKINFO_BLOCK_ID then
          (case current_setbid st of
             Some target \<Rightarrow>
               Inr ((st, table(target \<mapsto>
                 (case table target of Some ds \<Rightarrow> ds | None \<Rightarrow> []) @ [d])), r)
           | None \<Rightarrow> Inr ((st, table), r))
        else Inr ((st\<lparr>local_abbrevs := local_abbrevs st @ [d]\<rparr>, table), r))
      else if abbrev_id = UNABBREV_RECORD then
        bnd (read_unabbrev_record p r) (\<lambda>((code, operands), r).
        let st = (if bid = BLOCKINFO_BLOCK_ID \<and> code = BLOCKINFO_CODE_SETBID
                  then st\<lparr>current_setbid := first operands\<rparr> else st)
        in Inr ((st\<lparr>recs := recs st @ [\<lparr>rec_abbrev_id = abbrev_id, rec_code = code,
                  rec_operands = operands, rec_blob = []\<rparr>]\<rparr>, table), r))
      else
        (case get (local_abbrevs st) (unat (abbrev_id - FIRST_APPLICATION_ABBREV)) of
           None \<Rightarrow> Inl (Error (Malformed ''abbreviated record references unknown abbreviation''))
         | Some d \<Rightarrow>
             bnd (read_abbreviated_record p d r) (\<lambda>((code, operands, blob), r).
             Inr ((st\<lparr>recs := recs st @ [\<lparr>rec_abbrev_id = abbrev_id, rec_code = code,
                   rec_operands = operands, rec_blob = blob\<rparr>]\<rparr>, table), r))))"

definition fresh_block :: "u64 \<Rightarrow> abbrev_table \<Rightarrow> block_state" where
  "fresh_block bid table =
     \<lparr>recs = [], subs = [],
      local_abbrevs = (case table bid of Some ds \<Rightarrow> ds | None \<Rightarrow> []),
      current_setbid = None\<rparr>"

text \<open>The loop of \<^verbatim>\<open>parse_block\<close>; entering a nested block is the recursive call.\<close>

fun parse_loop :: "nat \<Rightarrow> profile \<Rightarrow> u64 \<Rightarrow> u32 \<Rightarrow> block_state \<Rightarrow> abbrev_table \<Rightarrow> reader
    \<Rightarrow> (air_error, (bitstream_block \<times> abbrev_table) \<times> reader) outcome" where
  "parse_loop 0 p bid width st table r = Inl OutOfFuel"
| "parse_loop (Suc fuel) p bid width st table r =
     bnd (bits_remaining p r) (\<lambda>remaining.
     if remaining < uint width then Inl (Error UnexpectedEof)
     else bnd (read p width r) (\<lambda>(abbrev_id, r).
       if abbrev_id = END_BLOCK then
         Inr ((BitstreamBlock bid width (recs st) (subs st), table), align32 r)
       else if abbrev_id = ENTER_SUBBLOCK then
         bnd (read_block_header p r) (\<lambda>((sub_id, sub_width), r).
         bnd (parse_loop fuel p sub_id sub_width (fresh_block sub_id table) table r)
           (\<lambda>((sub, table), r).
           parse_loop fuel p bid width (st\<lparr>subs := subs st @ [sub]\<rparr>) table r))
       else
         bnd (parse_entry p bid abbrev_id st table r) (\<lambda>((st, table), r).
         parse_loop fuel p bid width st table r)))"

definition parse_block :: "nat \<Rightarrow> profile \<Rightarrow> u64 \<Rightarrow> u32 \<Rightarrow> abbrev_table \<Rightarrow> reader
    \<Rightarrow> (air_error, (bitstream_block \<times> abbrev_table) \<times> reader) outcome" where
  "parse_block fuel p bid width table r = parse_loop fuel p bid width (fresh_block bid table) table r"

section \<open>The module\<close>

definition locate_bitstream :: "u8 list \<Rightarrow> (air_error, u8 list \<times> wrapper_header option) outcome" where
  "locate_bitstream data =
     (if 4 \<le> length data \<and> take 4 data = RAW_BITCODE_MAGIC then Inr (data, None)
      else if 20 \<le> length data \<and>
          u32_from_le_bytes (data ! 0) (data ! 1) (data ! 2) (data ! 3) = BITCODE_WRAPPER_MAGIC then
        let h = \<lparr>version = u32_from_le_bytes (data ! 4) (data ! 5) (data ! 6) (data ! 7),
                 offset = u32_from_le_bytes (data ! 8) (data ! 9) (data ! 10) (data ! 11),
                 wsize = u32_from_le_bytes (data ! 12) (data ! 13) (data ! 14) (data ! 15),
                 cpu_type = u32_from_le_bytes (data ! 16) (data ! 17) (data ! 18) (data ! 19)\<rparr>;
            start = unat (offset h);
            stop = start + unat (wsize h)
        in if (2 :: int) ^ 64 \<le> int stop then Inl (Error WrapperOutOfBounds)
           else if length data < stop then Inl (Error WrapperOutOfBounds)
           else let inner = take (stop - start) (drop start data)
             in if length inner < 4 \<or> take 4 inner \<noteq> RAW_BITCODE_MAGIC
                then Inl (Error NoBitcodeMagic)
                else Inr (inner, Some h)
      else Inl (Error NoBitcodeMagic))"

text \<open>The \<^verbatim>\<open>while\<close> loop of \<^verbatim>\<open>parse\<close> over the top-level blocks.\<close>

fun parse_top :: "nat \<Rightarrow> profile \<Rightarrow> bitstream_block list \<Rightarrow> abbrev_table \<Rightarrow> reader
    \<Rightarrow> (air_error, bitstream_block list) outcome" where
  "parse_top 0 p top_level table r = Inl OutOfFuel"
| "parse_top (Suc fuel) p top_level table r =
     bnd (bits_remaining p r) (\<lambda>remaining.
     if remaining < 32 then Inr top_level
     else bnd (read p 2 r) (\<lambda>(abbrev_id, r).
       if abbrev_id \<noteq> ENTER_SUBBLOCK then Inr top_level
       else bnd (read_block_header p r) (\<lambda>((bid, width), r).
         bnd (parse_block fuel p bid width table r) (\<lambda>((block, table), r).
         parse_top fuel p (top_level @ [block]) table r))))"

definition parse_fuel :: "u8 list \<Rightarrow> nat" where
  "parse_fuel body = 8 * length body + 2"

text \<open>The blocks of a module: \<^verbatim>\<open>parse\<close> without the tag scan.\<close>

definition parse_blocks :: "profile \<Rightarrow> u8 list
    \<Rightarrow> (air_error, (u8 list \<times> wrapper_header option) \<times> bitstream_block list) outcome" where
  "parse_blocks p data =
     (if length data < 4 then Inl (Error TooShort)
      else bnd (locate_bitstream data) (\<lambda>(bitstream, wrapper).
        let body = drop 4 bitstream in
        bnd (parse_top (parse_fuel body) p [] Map.empty (new_reader body)) (\<lambda>top_level.
        Inr ((body, wrapper), top_level))))"

section \<open>Every operation moves forward and ends\<close>

interpretation abbrev_op: reader_op "read_abbrev_op p" for p
  by (rule reader_opI)
    (auto simp: read_abbrev_op_def forward_def intro!: rd.step vbr.step)

interpretation abbrev_def: reader_op "read_abbrev_def p" for p
  by (rule reader_opI)
    (auto simp: read_abbrev_def_def forward_def intro!: vbr.step abbrev_op.rep_step)

interpretation element: reader_op "read_element p e" for p e
  by (rule reader_opI)
    (auto simp: read_element_def forward_def split: abbrev_op.split intro!: rd.step vbr.step)

interpretation byte: reader_op "read_byte p" for p
  by (rule reader_opI) (auto simp: read_byte_def forward_def intro!: rd.step)

lemma read_ops_forward:
  "wp (read_ops p os vals blob r) (\<lambda>(x, r'). forward r r') (\<lambda>e. e \<noteq> OutOfFuel)"
proof (induction p os vals blob r rule: read_ops.induct)
  case (7 p elem_op os vals blob r)
  show ?case
    by (fastforce intro!: vbr.step element.rep_step wp_mono [OF 7 [OF _ refl _ refl]]
        intro: forward_trans)
next
  case (8 p os vals blob r)
  show ?case
    by (fastforce intro!: vbr.step byte.rep_step wp_mono [OF 8 [OF _ refl _ _ refl]]
        intro: forward_trans align32_forward)
qed (fastforce intro!: rd.step vbr.step elim!: wp_mono intro: forward_trans)+

interpretation ops: reader_op "read_ops p os vals blob" for p os vals blob
  by (rule reader_opI) (rule read_ops_forward)

interpretation abbrev_rec: reader_op "read_abbreviated_record p d" for p d
  by (rule reader_opI) (auto simp: read_abbreviated_record_def Let_def intro!: ops.step)

interpretation unabbrev_rec: reader_op "read_unabbrev_record p" for p
  by (rule reader_opI)
    (auto simp: read_unabbrev_record_def forward_def intro!: vbr.step vbr.rep_step)

interpretation header: reader_op "read_block_header p" for p
  by (rule reader_opI)
    (fastforce simp: read_block_header_def intro!: vbr.step rd.step intro: forward_trans)

interpretation entry: reader_op "parse_entry p bid abbrev_id st table" for p bid abbrev_id st table
  by (rule reader_opI)
    (auto simp: parse_entry_def Let_def split: option.split
      intro!: abbrev_def.step unabbrev_rec.step abbrev_rec.step)

text \<open>
  A round of \<^verbatim>\<open>parse_block\<close> that does not leave the loop has read at least one bit: with
  abbreviation width 0 the id read is \<^verbatim>\<open>END_BLOCK\<close>. So the bits left bound the rounds, the
  nested calls included.
\<close>

lemma read_id_progress:
  assumes "read p width r = Inr (abbrev_id, r')" and "abbrev_id \<noteq> END_BLOCK"
  shows "8 * length (rdata r') - bit_pos r' < 8 * length (rdata r) - bit_pos r"
proof -
  have "width \<noteq> 0" using assms by (auto simp: read_def bitstream_ids)
  then show ?thesis
    using read_consumes [OF assms(1)] rd.moves_forward [OF assms(1)] by (auto simp: forward_def)
qed

lemma forward_remaining:
  "forward r r' \<Longrightarrow> 8 * length (rdata r') - bit_pos r' \<le> 8 * length (rdata r) - bit_pos r"
  by (auto simp: forward_def)

lemma parse_loop_spec:
  "8 * length (rdata r) - bit_pos r < fuel \<Longrightarrow>
     wp (parse_loop fuel p bid width st table r) (\<lambda>(x, r'). forward r r') (\<lambda>e. e \<noteq> OutOfFuel)"
proof (induction fuel arbitrary: bid width st table r)
  case 0
  then show ?case by simp
next
  case (Suc fuel)
  have round: "wp (if i = END_BLOCK then Inr ((BitstreamBlock bid width (recs st) (subs st), table), align32 r1)
       else if i = ENTER_SUBBLOCK then
         bnd (read_block_header p r1) (\<lambda>((sub_id, sub_width), r).
         bnd (parse_loop fuel p sub_id sub_width (fresh_block sub_id table) table r)
           (\<lambda>((sub, table), r). parse_loop fuel p bid width (st\<lparr>subs := subs st @ [sub]\<rparr>) table r))
       else bnd (parse_entry p bid i st table r1) (\<lambda>((st, table), r).
         parse_loop fuel p bid width st table r))
       (\<lambda>(x, r'). forward r1 r') (\<lambda>e. e \<noteq> OutOfFuel)"
    if rd: "read p width r = Inr (i, r1)" for i r1
  proof (cases "i = END_BLOCK")
    case True
    then show ?thesis by simp
  next
    case False
    have tail: "wp (parse_loop fuel p bid' width' st' table' r') Q (\<lambda>e. e \<noteq> OutOfFuel)"
      if "forward r1 r'" and "\<And>x s. forward r1 s \<Longrightarrow> Q (x, s)" for bid' width' st' table' r' Q
    proof (rule wp_mono [OF Suc.IH])
      show "8 * length (rdata r') - bit_pos r' < fuel"
        using read_id_progress [OF rd False] forward_remaining [OF that(1)] Suc.prems by linarith
    qed (auto intro: that(2) forward_trans [OF that(1)])
    from False show ?thesis
      by (auto intro!: header.step entry.step tail)
  qed
  show ?case
    by (auto intro!: wp_bits_remaining rd.step wp_mono [OF round] intro: forward_trans)
qed

lemma parse_block_step:
  assumes "8 * length (rdata r) - bit_pos r < fuel"
    and "\<And>x r'. forward r r' \<Longrightarrow> Q (x, r')" and "\<And>e. e \<noteq> OutOfFuel \<Longrightarrow> E e"
  shows "wp (parse_block fuel p bid width table r) Q E"
  using assms(2,3) unfolding parse_block_def
  by (auto intro!: wp_mono [OF parse_loop_spec [OF assms(1)]])

lemma parse_top_spec:
  "8 * length (rdata r) - bit_pos r < fuel \<Longrightarrow>
     wp (parse_top fuel p top_level table r) (\<lambda>_. True) (\<lambda>e. e \<noteq> OutOfFuel)"
proof (induction fuel arbitrary: top_level table r)
  case 0
  then show ?case by simp
next
  case (Suc fuel)
  have left: "8 * length (rdata r') - bit_pos r' < fuel"
    if "read p 2 r = Inr (ENTER_SUBBLOCK, r1)" "forward r1 r'" for r1 r'
    using read_id_progress [OF that(1)] forward_remaining [OF that(2)] Suc.prems
    by (simp add: bitstream_ids)
  show ?case
    by (auto intro!: wp_bits_remaining rd.step header.step parse_block_step Suc.IH)
      (rule left, assumption, blast intro: forward_trans)+
qed

text \<open>The fuel of \<^verbatim>\<open>parse\<close> is enough for every input: the parser always ends.\<close>

lemma parse_blocks_has_end: "parse_blocks p data \<noteq> Inl OutOfFuel"
proof -
  have top: "parse_top (parse_fuel body) p [] Map.empty (new_reader body) \<noteq> Inl OutOfFuel" for body
    using wp_fault [OF parse_top_spec [of "new_reader body" "parse_fuel body" p "[]" Map.empty]]
    by (auto simp: parse_fuel_def new_reader_def)
  have "locate_bitstream data \<noteq> Inl OutOfFuel"
    by (simp add: locate_bitstream_def Let_def)
  with top show ?thesis
    by (auto simp: parse_blocks_def Let_def elim!: bnd_InlE)
qed

end
