(* ===== verification/AirTags.thy ===== *)
theory AirTags
  imports AirParser "HOL-Library.Sublist"
begin

text \<open>
  The tag scan of \<^verbatim>\<open>src/shader_jit/air_parser.rs\<close> and, with it, the whole of
  \<^verbatim>\<open>parse\<close>. The scan decodes the body with \<^verbatim>\<open>String::from_utf8_lossy\<close> and looks for
  six ASCII tags in the text; \<open>lossy_contains\<close> shows that the decoding does not matter for them.
\<close>

section \<open>UTF-8 in the standard library\<close>

definition cont :: "u8 \<Rightarrow> bool" where
  "cont b \<longleftrightarrow> 0x80 \<le> b \<and> b \<le> 0xBF"

definition second_of_3 :: "u8 \<Rightarrow> u8 \<Rightarrow> bool" where
  "second_of_3 b c \<longleftrightarrow>
     (b = 0xE0 \<and> 0xA0 \<le> c \<and> c \<le> 0xBF) \<or> (0xE1 \<le> b \<and> b \<le> 0xEC \<and> cont c) \<or>
     (b = 0xED \<and> 0x80 \<le> c \<and> c \<le> 0x9F) \<or> (0xEE \<le> b \<and> b \<le> 0xEF \<and> cont c)"

definition second_of_4 :: "u8 \<Rightarrow> u8 \<Rightarrow> bool" where
  "second_of_4 b c \<longleftrightarrow>
     (b = 0xF0 \<and> 0x90 \<le> c \<and> c \<le> 0xBF) \<or> (0xF1 \<le> b \<and> b \<le> 0xF3 \<and> cont c) \<or>
     (b = 0xF4 \<and> 0x80 \<le> c \<and> c \<le> 0x8F)"

text \<open>
  How many of the bytes that follow a lead byte continue it, as far as the standard library's
  decoder reads them, up to \<open>n\<close>.
\<close>

fun conts :: "nat \<Rightarrow> u8 list \<Rightarrow> nat" where
  "conts 0 bs = 0"
| "conts (Suc n) [] = 0"
| "conts (Suc n) (b # bs) = (if cont b then Suc (conts n bs) else 0)"

text \<open>
  The first item of a non-empty input: whether it is a character, and its length in bytes; an item
  that is not a character is a maximal prefix of one.
\<close>

definition utf8_item :: "u8 \<Rightarrow> u8 list \<Rightarrow> bool \<times> nat" where
  "utf8_item b bs =
     (if b < 0x80 then (True, 1)
      else if 0xC2 \<le> b \<and> b \<le> 0xDF then let n = conts 1 bs in (n = 1, 1 + n)
      else if 0xE0 \<le> b \<and> b \<le> 0xEF then
        (case bs of
           [] \<Rightarrow> (False, 1)
         | c # cs \<Rightarrow> if second_of_3 b c then let n = conts 1 cs in (n = 1, 2 + n) else (False, 1))
      else if 0xF0 \<le> b \<and> b \<le> 0xF4 then
        (case bs of
           [] \<Rightarrow> (False, 1)
         | c # cs \<Rightarrow> if second_of_4 b c then let n = conts 2 cs in (n = 2, 2 + n) else (False, 1))
      else (False, 1))"

text \<open>\<^verbatim>\<open>String::from_utf8_lossy\<close>, as the bytes of the resulting string.\<close>

definition replacement :: "u8 list" where
  "replacement = [0xEF, 0xBF, 0xBD]"

fun from_utf8_lossy :: "u8 list \<Rightarrow> u8 list" where
  "from_utf8_lossy [] = []"
| "from_utf8_lossy (b # bs) =
     (case utf8_item b bs of (valid, n) \<Rightarrow>
        (if valid then take n (b # bs) else replacement) @ from_utf8_lossy (drop (n - 1) bs))"

text \<open>\<^verbatim>\<open>String::from_utf8\<close>: the bytes themselves, or \<open>None\<close> for its \<^verbatim>\<open>Err\<close>.\<close>

fun valid_utf8 :: "u8 list \<Rightarrow> bool" where
  "valid_utf8 [] = True"
| "valid_utf8 (b # bs) = (case utf8_item b bs of (valid, n) \<Rightarrow> valid \<and> valid_utf8 (drop (n - 1) bs))"

definition from_utf8 :: "u8 list \<Rightarrow> u8 list option" where
  "from_utf8 bs = (if valid_utf8 bs then Some bs else None)"

section \<open>The scan\<close>

datatype air_feature =
    KernelEntryPoint | VertexEntryPoint | FragmentEntryPoint | CompileOptions | LanguageVersion
  | ArgumentBufferUsage

definition ascii :: "string \<Rightarrow> u8 list" where
  "ascii s = map (\<lambda>c. of_nat (of_char c)) s"

definition TAGS :: "(u8 list \<times> air_feature) list" where
  "TAGS =
     [(ascii ''air.kernel'', KernelEntryPoint),
      (ascii ''air.vertex'', VertexEntryPoint),
      (ascii ''air.fragment'', FragmentEntryPoint),
      (ascii ''air.compile_options'', CompileOptions),
      (ascii ''air.version'', LanguageVersion),
      (ascii ''air.argument_buffer'', ArgumentBufferUsage)]"

definition scan_known_air_tags :: "u8 list \<Rightarrow> air_feature list" where
  "scan_known_air_tags body =
     (let haystack = from_utf8_lossy body
      in map snd (filter (\<lambda>(tag, _). sublist tag haystack) TAGS))"

record air_module =
  wrapper :: "wrapper_header option"
  detected_features :: "air_feature list"
  blocks :: "bitstream_block list"

definition parse :: "profile \<Rightarrow> u8 list \<Rightarrow> (air_error, air_module) outcome" where
  "parse p data =
     bnd (parse_blocks p data) (\<lambda>((body, wrapper), top_level).
     Inr \<lparr>wrapper = wrapper, detected_features = scan_known_air_tags body, blocks = top_level\<rparr>)"

section \<open>ASCII text survives lossy decoding\<close>

definition ascii_byte :: "u8 \<Rightarrow> bool" where
  "ascii_byte b \<longleftrightarrow> b < 0x80"

definition high :: "u8 list \<Rightarrow> bool" where
  "high bs \<longleftrightarrow> bs \<noteq> [] \<and> (\<forall>b \<in> set bs. \<not> ascii_byte b)"

definition is_ascii :: "u8 list \<Rightarrow> bool" where
  "is_ascii bs \<longleftrightarrow> list_all ascii_byte bs"

text \<open>Two byte strings that agree up to what stands for their runs of non-ASCII bytes.\<close>

inductive same_ascii :: "u8 list \<Rightarrow> u8 list \<Rightarrow> bool" where
  same_nil: "same_ascii [] []"
| same_char: "same_ascii xs ys \<Longrightarrow> same_ascii (b # xs) (b # ys)"
| same_run: "same_ascii xs ys \<Longrightarrow> high hs \<Longrightarrow> high ks \<Longrightarrow> same_ascii (hs @ xs) (ks @ ys)"

lemma cont_not_ascii: "cont b \<Longrightarrow> \<not> ascii_byte b"
  by (simp add: cont_def ascii_byte_def not_less)

definition high_upto :: "nat \<Rightarrow> u8 list \<Rightarrow> bool" where
  "high_upto n bs \<longleftrightarrow> (\<forall>b \<in> set (take n bs). \<not> ascii_byte b)"

lemma high_upto_0 [simp]: "high_upto 0 bs"
  by (simp add: high_upto_def)

lemma conts_high: "high_upto (conts n bs) bs"
  unfolding high_upto_def
  by (induction n bs rule: conts.induct) (simp_all add: cont_not_ascii)

lemma seconds_high:
  "second_of_3 b c \<Longrightarrow> \<not> ascii_byte c" "second_of_4 b c \<Longrightarrow> \<not> ascii_byte c"
proof -
  have "(0x80 :: u8) \<le> 0xA0" "(0x80 :: u8) \<le> 0x90" by simp_all
  then show "second_of_3 b c \<Longrightarrow> \<not> ascii_byte c" "second_of_4 b c \<Longrightarrow> \<not> ascii_byte c"
    unfolding second_of_3_def second_of_4_def cont_def ascii_byte_def not_less
    by (metis order_trans)+
qed

lemma take_conts_high: "\<not> ascii_byte c \<Longrightarrow> high_upto (Suc (conts n cs)) (c # cs)"
  using conts_high [of n cs] by (simp add: high_upto_def)

lemma item_cases:
  assumes "x = (if A then (True, 1)
      else if B then let n = conts 1 bs in (n = 1, 1 + n)
      else if C then
        (case bs of [] \<Rightarrow> (False, 1)
         | c # cs \<Rightarrow> if S c then let n = conts 1 cs in (n = 1, 2 + n) else (False, 1))
      else if D then
        (case bs of [] \<Rightarrow> (False, 1)
         | c # cs \<Rightarrow> if T c then let n = conts 2 cs in (n = 2, 2 + n) else (False, 1))
      else (False, 1))"
    and "\<And>c. S c \<Longrightarrow> \<not> ascii_byte c" and "\<And>c. T c \<Longrightarrow> \<not> ascii_byte c"
  shows "0 < snd x \<and> high_upto (snd x - 1) bs"
  unfolding assms(1) using conts_high [of 1 bs]
  by (cases bs) (auto simp: Let_def take_conts_high simp del: conts.simps dest: assms(2,3))

lemma utf8_item_spec:
  assumes "utf8_item b bs = (v, n)"
  shows "0 < n \<and> high_upto (n - 1) bs"
proof -
  have "0 < snd (utf8_item b bs) \<and> high_upto (snd (utf8_item b bs) - 1) bs"
    by (rule item_cases [OF utf8_item_def]) (rule seconds_high, assumption)+
  with assms show ?thesis by simp
qed

lemma utf8_item_pos: "utf8_item b bs = (v, n) \<Longrightarrow> 0 < n"
  using utf8_item_spec by blast

lemma utf8_item_high:
  assumes "utf8_item b bs = (v, n)" and "\<not> ascii_byte b"
  shows "high (take n (b # bs))"
  using utf8_item_spec [OF assms(1)] assms(2) by (cases n) (auto simp: high_def high_upto_def)

lemma lossy_same_ascii: "same_ascii bs (from_utf8_lossy bs)"
proof (induction bs rule: from_utf8_lossy.induct)
  case 1
  show ?case by (simp add: same_nil)
next
  case (2 b bs)
  obtain v n where item: "utf8_item b bs = (v, n)" by (cases "utf8_item b bs")
  note IH = "2.IH" [OF item [symmetric]]
  show ?case
  proof (cases "ascii_byte b")
    case True
    then have "v" "n = 1" using item by (auto simp: utf8_item_def ascii_byte_def)
    then show ?thesis using IH item by (auto intro: same_char)
  next
    case False
    note h = utf8_item_high [OF item False]
    have split: "b # bs = take n (b # bs) @ drop (n - 1) bs"
      using utf8_item_pos [OF item] by (cases n) simp_all
    have "high replacement" by (simp add: high_def replacement_def ascii_byte_def)
    with h have k: "high (if v then take n (b # bs) else replacement)" by simp
    show ?thesis
      unfolding from_utf8_lossy.simps item prod.case
      by (subst split) (rule same_run [OF IH h k])
  qed
qed

lemma ascii_not_prefix_run:
  assumes "high hs" and "is_ascii tag" and "tag \<noteq> []"
  shows "\<not> prefix tag (hs @ xs)"
  using assms by (cases tag; cases hs) (auto simp: high_def is_ascii_def)

lemma ascii_not_in_run:
  assumes "high hs" and "is_ascii tag" and "tag \<noteq> []"
  shows "sublist tag (hs @ xs) \<longleftrightarrow> sublist tag xs"
  using assms(1)
proof (induction hs)
  case (Cons h hs)
  have "\<not> prefix tag (h # hs @ xs)"
    using ascii_not_prefix_run [OF Cons.prems assms(2,3)] by simp
  moreover have "hs \<noteq> [] \<Longrightarrow> high hs" using Cons.prems by (simp add: high_def)
  ultimately show ?case using Cons.IH by (cases "hs = []") (simp_all add: sublist_Cons_right)
qed (simp add: high_def)

lemma same_ascii_prefix:
  "same_ascii xs ys \<Longrightarrow> is_ascii tag \<Longrightarrow> prefix tag xs \<longleftrightarrow> prefix tag ys"
proof (induction arbitrary: tag rule: same_ascii.induct)
  case (same_char xs ys b)
  then show ?case by (cases tag) (auto simp: is_ascii_def)
next
  case (same_run xs ys hs ks)
  then show ?case by (cases "tag = []") (simp_all add: ascii_not_prefix_run)
qed simp

lemma same_ascii_contains:
  "same_ascii xs ys \<Longrightarrow> is_ascii tag \<Longrightarrow> sublist tag xs \<longleftrightarrow> sublist tag ys"
proof (induction rule: same_ascii.induct)
  case (same_char xs ys b)
  then show ?case
    using same_ascii_prefix [OF same_ascii.same_char [OF same_char.hyps], of tag b]
    by (simp add: sublist_Cons_right)
next
  case (same_run xs ys hs ks)
  then show ?case by (cases "tag = []") (simp_all add: ascii_not_in_run)
qed simp

lemma lossy_contains: "is_ascii tag \<Longrightarrow> sublist tag (from_utf8_lossy bs) \<longleftrightarrow> sublist tag bs"
  using same_ascii_contains [OF lossy_same_ascii] by blast

lemma tags_ascii: "(tag, f) \<in> set TAGS \<Longrightarrow> is_ascii tag"
  by (auto simp: TAGS_def ascii_def is_ascii_def ascii_byte_def)

lemma scan_raw: "scan_known_air_tags body = map snd (filter (\<lambda>(tag, _). sublist tag body) TAGS)"
  unfolding scan_known_air_tags_def Let_def
  by (rule arg_cong [of _ _ "map snd"], rule filter_cong)
    (auto simp: lossy_contains dest: tags_ascii)

lemma valid_lossy: "valid_utf8 bs \<Longrightarrow> from_utf8_lossy bs = bs"
proof (induction bs rule: valid_utf8.induct)
  case (2 b bs)
  obtain v n where item: "utf8_item b bs = (v, n)" by (cases "utf8_item b bs")
  then show ?case using "2.IH" [OF item [symmetric]] "2.prems" utf8_item_pos [OF item]
    by (cases n) auto
qed simp

section \<open>Properties\<close>

text \<open>
  C21: The parser ends on every input, in both profiles: the fuel that counts the rounds of
  \<^verbatim>\<open>parse_block\<close>, nested calls included, is never used up.
\<close>

theorem parse_terminates: "parse p data \<noteq> Inl OutOfFuel"
  using parse_blocks_has_end [of p data] by (auto simp: parse_def elim!: bnd_InlE)

text \<open>
  C39: A feature is detected exactly when its tag occurs as bytes in the body: the lossy UTF-8 decoding
  before the search neither hides a tag nor makes one up.
\<close>

theorem detected_iff_tag:
  "f \<in> set (scan_known_air_tags body) \<longleftrightarrow> (\<exists>tag. (tag, f) \<in> set TAGS \<and> sublist tag body)"
  unfolding scan_raw by force

end
