(* ===== verification/Bitfields.thy ===== *)
theory Bitfields
  imports AirTags
begin

text \<open>
  Reading a bitstream field after field: where a reader stands behind what a writer has put, for the fields of
  the LLVM bitstream format, unabbreviated records, block headers, alignment and the ends of blocks.
\<close>

section \<open>What the writers put\<close>

definition pad :: "nat \<Rightarrow> bool list" where
  "pad pos = replicate ((32 - pos mod 32) mod 32) False"

definition emit_record :: "nat \<Rightarrow> bitstream_record \<Rightarrow> bool list" where
  "emit_record w rc =
     put w UNABBREV_RECORD @ put_vbr 6 (rec_code rc) @
     put_vbr 6 (of_nat (length (rec_operands rc))) @ concat (map (put_vbr 6) (rec_operands rc))"

text \<open>Records that can be written unabbreviated.\<close>

definition wf_record :: "bitstream_record \<Rightarrow> bool" where
  "wf_record rc \<longleftrightarrow> rec_abbrev_id rc = UNABBREV_RECORD \<and> rec_blob rc = [] \<and>
     length (rec_operands rc) < 2 ^ 60"

definition block_header :: "nat \<Rightarrow> u64 \<Rightarrow> u32 \<Rightarrow> bool list" where
  "block_header pos bid w =
     (let h = put_vbr 8 bid @ put_vbr 4 (ucast w) in h @ pad (pos + length h))"

fun bytes_of :: "bool list \<Rightarrow> u8 list" where
  "bytes_of [] = []"
| "bytes_of (b # bs) = horner_sum of_bool 2 (take 8 (b # bs)) # bytes_of (drop 8 (b # bs))"

section \<open>Reading one field after the other\<close>

definition skip :: "nat \<Rightarrow> reader \<Rightarrow> reader" where
  "skip n r = r\<lparr>bit_pos := bit_pos r + n\<rparr>"

lemma skip_simps [simp]:
  "bit_pos (skip n r) = bit_pos r + n" "rdata (skip n r) = rdata r" "skip 0 r = r"
  "skip n (skip m r) = skip (m + n) r"
  by (simp_all add: skip_def)

lemma stream_skip: "stream r = xs @ ys \<Longrightarrow> stream (skip (length xs) r) = ys"
  by (simp add: skip_def stream_advance)

lemma stream_nonempty: "stream r = xs @ ys \<Longrightarrow> xs \<noteq> [] \<Longrightarrow> bit_pos r < 8 * length (rdata r)"
  using length_stream [of r] by (cases xs) auto

lemma in_bounds_skip:
  assumes "stream r = xs @ ys" and "in_bounds r"
  shows "in_bounds (skip (length xs) r)"
proof -
  have "length xs \<le> length (stream r)" by (simp add: assms(1))
  with assms(2) show ?thesis by (simp add: in_bounds_def length_stream)
qed

lemma remaining_stream:
  "stream r = xs @ ys \<Longrightarrow> xs \<noteq> [] \<Longrightarrow> bits_remaining p r = Inr (int (length xs + length ys))"
  using stream_nonempty [of r xs ys] length_stream [of r]
  by (simp add: bits_remaining_def mult.commute of_nat_diff)

lemma vbr_skip:
  assumes "stream r = put_vbr (unat w) v @ rest" and "2 \<le> unat w" and "unat w \<le> 64"
  shows "read_vbr p w r = Inr (v, skip (length (put_vbr (unat w) v)) r)"
  using read_vbr_put [OF assms] by (simp add: skip_def)

lemma vbr_skips:
  "stream r = put_vbr 4 v @ rest \<Longrightarrow> read_vbr p 4 r = Inr (v, skip (length (put_vbr 4 v)) r)"
  "stream r = put_vbr 6 v @ rest \<Longrightarrow> read_vbr p 6 r = Inr (v, skip (length (put_vbr 6 v)) r)"
  "stream r = put_vbr 8 v @ rest \<Longrightarrow> read_vbr p 8 r = Inr (v, skip (length (put_vbr 8 v)) r)"
  using vbr_skip [of r 4 v rest p] vbr_skip [of r 6 v rest p] vbr_skip [of r 8 v rest p] by simp_all

lemma field_skip:
  assumes "stream r = put (unat w) v @ rest" and "unat w \<le> 64" and "take_bit (unat w) v = v"
  shows "read p w r = Inr (v, skip (unat w) r)"
  using read_put [OF assms(1,2)] assms(3) by (simp add: skip_def)

text \<open>\<^verbatim>\<open>align32\<close> skips the padding, whether the stream has it or not.\<close>

lemma align32_skip: "align32 r = skip (length (pad (bit_pos r))) r"
  by (auto simp: align32_def skip_def pad_def Let_def)

lemma pad_skip:
  assumes "stream r = pad (bit_pos r) @ rest"
  shows "align32 r = skip (length (pad (bit_pos r))) r"
  by (rule align32_skip)

lemma bits_of_append: "bits_of (xs @ ys) = bits_of xs @ bits_of ys"
  by (simp add: bits_of_def)

lemma bits_of_take: "bits_of (take n xs) = take (8 * n) (bits_of xs)"
proof (cases "n \<le> length xs")
  case True
  have "take (8 * n) (bits_of (take n xs @ drop n xs)) = bits_of (take n xs)"
    using True by (simp only: bits_of_append) simp
  then show ?thesis by simp
qed simp

text \<open>A list is read as each of its elements is.\<close>

lemma rep_skip_map:
  assumes "\<And>v s more. v \<in> set vs \<Longrightarrow> stream s = f v @ more \<Longrightarrow> g s = Inr (h v, skip (length (f v)) s)"
    and "stream r = concat (map f vs) @ rest"
  shows "rep_read (length vs) g r = Inr (map h vs, skip (length (concat (map f vs))) r)"
  using assms
proof (induction vs arbitrary: r)
  case (Cons v vs)
  then have v: "stream r = f v @ concat (map f vs) @ rest" by simp
  have "g r = Inr (h v, skip (length (f v)) r)" using Cons.prems(1) [OF _ v] by simp
  moreover have "rep_read (length vs) g (skip (length (f v)) r)
      = Inr (map h vs, skip (length (concat (map f vs))) (skip (length (f v)) r))"
    by (rule Cons.IH [OF Cons.prems(1) stream_skip [OF v]]) simp_all
  ultimately show ?case by simp
qed simp

lemma rep_skip:
  assumes "\<And>v s more. v \<in> set vs \<Longrightarrow> stream s = f v @ more \<Longrightarrow> g s = Inr (v, skip (length (f v)) s)"
    and "stream r = concat (map f vs) @ rest"
  shows "rep_read (length vs) g r = Inr (vs, skip (length (concat (map f vs))) r)"
  using rep_skip_map [where h = "\<lambda>v. v", OF assms] by simp

lemma put_vbr_nonempty [simp]: "put_vbr w v \<noteq> []"
  by (subst put_vbr.simps) simp

lemma read_unabbrev_skip:
  assumes "stream r = put_vbr 6 code @ put_vbr 6 (of_nat (length vs)) @ concat (map (put_vbr 6) vs) @ rest"
    and "length vs < 2 ^ 60"
  shows "read_unabbrev_record p r = Inr ((code, vs),
    skip (length (put_vbr 6 code @ put_vbr 6 (of_nat (length vs)) @ concat (map (put_vbr 6) vs))) r)"
proof -
  have n: "unat (of_nat (length vs) :: u64) = length vs"
    using assms(2) by (simp add: unat_of_nat)
  then have "capacity_ok 8 (uint (of_nat (length vs) :: u64))"
    using assms(2) by (simp add: capacity_ok_def uint_nat)
  moreover note code = stream_skip [OF assms(1)]
  ultimately show ?thesis
    using vbr_skips(2) [OF assms(1), of p] vbr_skips(2) [OF code, of p]
      rep_skip [of _ "put_vbr 6" "read_vbr p 6", OF vbr_skips(2) stream_skip [OF code]] n
    by (simp add: read_unabbrev_record_def)
qed

section \<open>The rounds of a block\<close>

text \<open>The abbreviation ids the writer uses fit every width from 2 on.\<close>

lemma id_fits:
  assumes "2 \<le> n"
  shows "take_bit n END_BLOCK = END_BLOCK" "take_bit n ENTER_SUBBLOCK = ENTER_SUBBLOCK"
    "take_bit n UNABBREV_RECORD = UNABBREV_RECORD"
proof -
  have small: "take_bit n v = v" if "v = 0 \<or> v = 1 \<or> v = (3 :: u64)" for v
  proof (rule bit_eqI)
    fix k
    have "bit (3 :: u64) k \<Longrightarrow> k < 2"
    proof (rule ccontr)
      assume "bit (3 :: u64) k" "\<not> k < 2"
      then obtain j where "k = Suc (Suc j)" by (metis Suc_1 add_2_eq_Suc le_Suc_ex not_less)
      with \<open>bit (3 :: u64) k\<close> show False by (simp add: bit_Suc)
    qed
    with assms that show "bit (take_bit n v) k \<longleftrightarrow> bit v k"
      by (auto simp: bit_take_bit_iff bit_1_iff)
  qed
  show "take_bit n END_BLOCK = END_BLOCK" "take_bit n ENTER_SUBBLOCK = ENTER_SUBBLOCK"
    "take_bit n UNABBREV_RECORD = UNABBREV_RECORD"
    using assms by (simp_all add: small bitstream_ids)
qed

lemma word_range: "2 \<le> w \<and> w \<le> 64 \<longleftrightarrow> 2 \<le> unat w \<and> unat w \<le> 64" for w :: u32
  by (simp add: word_le_nat_alt)

text \<open>One round of the block loop on a written id.\<close>

lemma id_round:
  assumes "stream r = put (unat w) i @ rest" and "2 \<le> unat w" "unat w \<le> 64" and "take_bit (unat w) i = i"
  shows "bits_remaining p r = Inr (int (unat w + length rest))" and "\<not> int (unat w + length rest) < uint w"
    and "read p w r = Inr (i, skip (unat w) r)" and "stream (skip (unat w) r) = rest"
proof -
  have "put (unat w) i \<noteq> []" using assms(2) by (auto simp: put_def)
  from remaining_stream [OF assms(1) this]
  show "bits_remaining p r = Inr (int (unat w + length rest))" by simp
  show "\<not> int (unat w + length rest) < uint w" by simp
  show "read p w r = Inr (i, skip (unat w) r)" using field_skip [OF assms(1,3,4)] .
  show "stream (skip (unat w) r) = rest" using stream_skip [OF assms(1)] by simp
qed

lemma emit_record_nonempty [simp]: "emit_record w rc \<noteq> []"
  by (simp add: emit_record_def)

lemma read_header_skip:
  assumes "stream r = block_header (bit_pos r) bid w @ put 32 len @ rest"
  shows "read_block_header p r
    = Inr ((bid, w), skip (length (block_header (bit_pos r) bid w) + 32) r)"
proof -
  let ?id = "put_vbr 8 bid" and ?w = "put_vbr 4 (ucast w)"
  have id: "stream r = ?id @ ?w @ pad (bit_pos r + length (?id @ ?w)) @ put 32 len @ rest"
    using assms by (simp add: block_header_def Let_def)
  note w = stream_skip [OF id]
  note al = stream_skip [OF w, simplified]
  let ?r = "skip (length ?id + length ?w) r"
  have al': "stream ?r = pad (bit_pos ?r) @ put 32 len @ rest"
    using al by (simp add: add.assoc)
  note len = stream_skip [OF al']
  have "read p 32 s = Inr (take_bit 32 len, skip 32 s)" if "stream s = put 32 len @ rest" for s
    using read_put [of s 32 len rest p] that by (simp add: skip_def)
  then have "read p 32 (align32 ?r) = Inr (take_bit 32 len, skip 32 (align32 ?r))"
    using len by (simp only: pad_skip [OF al'])
  then show ?thesis
    using vbr_skips(3) [OF id, of p] vbr_skips(1) [OF w, of p]
    by (simp add: read_block_header_def pad_skip [OF al'] block_header_def Let_def add.assoc
        unsigned_ucast_eq take_bit_word_eq_self)
qed

lemma loop_end:
  assumes "stream r = put (unat w) END_BLOCK @ rest" and "2 \<le> unat w" "unat w \<le> 64" and "0 < fuel"
  shows "parse_loop fuel p bid w st table r
    = Inr ((BitstreamBlock bid w (recs st) (subs st), table), align32 (skip (unat w) r))"
  using id_round(1,3) [OF assms(1-3) id_fits(1) [OF assms(2)], of p]
    id_round(2) [OF assms(1-3) id_fits(1) [OF assms(2)]] assms(4)
  by (cases fuel) simp_all

lemma loop_enter:
  assumes "stream r = put (unat w) ENTER_SUBBLOCK @ rest" and "2 \<le> unat w" "unat w \<le> 64"
    and "read_block_header p (skip (unat w) r) = Inr ((sid, sw), r1)"
    and "parse_block fuel p sid sw table r1 = Inr ((sub, table'), r2)"
  shows "parse_loop (Suc fuel) p bid w st table r =
    parse_loop fuel p bid w (st\<lparr>subs := subs st @ [sub]\<rparr>) table' r2"
  using id_round(1,3) [OF assms(1-3) id_fits(2) [OF assms(2)], of p]
    id_round(2) [OF assms(1-3) id_fits(2) [OF assms(2)]] assms(4,5)
  by (simp add: parse_block_def) (simp add: bitstream_ids)

section \<open>Alignment and bytes\<close>

lemma pad_aligned: "(pos + length (pad pos)) mod 32 = 0"
proof (cases "pos mod 32 = 0")
  case False
  have "pos + (32 - pos mod 32) = 32 * (pos div 32 + 1)"
    by presburger
  moreover have "length (pad pos) = 32 - pos mod 32" using False by (simp add: pad_def)
  ultimately show ?thesis by (metis mod_mult_self1_is_0)
qed (simp add: pad_def)

lemma bits_of_bytes_of: "length bs mod 8 = 0 \<Longrightarrow> bits_of (bytes_of bs) = bs"
proof (induction bs rule: bytes_of.induct)
  case 1
  then show ?case by (simp add: bits_of_def)
next
  case (2 b bs)
  let ?x = "b # bs"
  have len: "8 \<le> length ?x" using "2.prems" by (intro dvd_imp_le) (simp_all add: mod_eq_0_iff_dvd)
  have "length (drop 8 ?x) mod 8 = 0" using "2.prems" len by (simp only: length_drop) presburger
  from "2.IH" [OF this] have "bits_of (bytes_of (drop 8 ?x)) = drop 8 ?x" .
  moreover have "map (bit (horner_sum of_bool 2 (take 8 ?x) :: u8)) [0..<8] = take 8 ?x"
    using len by (intro nth_equalityI) (auto simp: bit_horner_sum_bit_iff simp del: horner_sum_simps)
  moreover have "bits_of (bytes_of ?x)
      = map (bit (horner_sum of_bool 2 (take 8 ?x) :: u8)) [0..<8] @ bits_of (bytes_of (drop 8 ?x))"
    by (simp only: bytes_of.simps bits_of_def list.map concat.simps)
  ultimately show ?case by (simp only: append_take_drop_id)
qed

end
