(* ===== verification/AirFormat.thy ===== *)
theory AirFormat
  imports Bitfields
begin

text \<open>
  The whole bitstream format: blocks whose entries come in any order, with abbreviations, defined in the block or
  through a \<^verbatim>\<open>BLOCKINFO\<close> block, and records written with them. A writer, what it takes for a document to be well
  formed, which says what the abbreviations in force at each record are, and the parser as its inverse, but for
  characters of six bits, which LLVM numbers and the parser does not decode.
\<close>

section \<open>Fields\<close>

text \<open>LLVM's characters of six bits; the stream holds the number of a character.\<close>

definition CHAR6 :: "u64 list" where
  "CHAR6 = map ucast (ascii ''abcdefghijklmnopqrstuvwxyzABCDEFGHIJKLMNOPQRSTUVWXYZ0123456789._'')"

definition char6_number :: "u64 \<Rightarrow> u64" where
  "char6_number c = of_nat (length (takeWhile (\<lambda>x. x \<noteq> c) CHAR6))"

fun put_field :: "abbrev_op \<Rightarrow> u64 \<Rightarrow> bool list" where
  "put_field (Fixed w) v = put (unat w) v"
| "put_field (Vbr w) v = put_vbr (unat w) v"
| "put_field Char6 v = put 6 (char6_number v)"
| "put_field _ v = []"

text \<open>The values an operand of an abbreviation can hold.\<close>

fun holds_value :: "abbrev_op \<Rightarrow> u64 \<Rightarrow> bool" where
  "holds_value (Literal v) x \<longleftrightarrow> x = v"
| "holds_value (Fixed w) x \<longleftrightarrow> w \<le> 64 \<and> take_bit (unat w) x = x"
| "holds_value (Vbr w) x \<longleftrightarrow> 2 \<le> w \<and> w \<le> 64"
| "holds_value Char6 x \<longleftrightarrow> x \<in> set CHAR6"
| "holds_value _ x \<longleftrightarrow> False"

text \<open>
  The fields of a record: its values one by one, an array as the last operand but one, a blob as the last. The
  blob is aligned at both ends, so the writer keeps the position.
\<close>

fun put_fields :: "nat \<Rightarrow> abbrev_op list \<Rightarrow> u64 list \<Rightarrow> u8 list \<Rightarrow> bool list" where
  "put_fields pos [] vals blob = []"
| "put_fields pos (e # es) vals blob =
     (case e of
        Array \<Rightarrow> put_vbr 6 (of_nat (length vals)) @ concat (map (put_field (hd es)) vals)
      | Blob \<Rightarrow>
          let h = put_vbr 6 (of_nat (length blob)); d = h @ pad (pos + length h) @ bits_of blob
          in d @ pad (pos + length d)
      | _ \<Rightarrow> put_field e (hd vals) @ put_fields (pos + length (put_field e (hd vals))) es (tl vals) blob)"

fun fits :: "abbrev_op list \<Rightarrow> u64 list \<Rightarrow> u8 list \<Rightarrow> bool" where
  "fits [] vals blob \<longleftrightarrow> vals = [] \<and> blob = []"
| "fits (e # es) vals blob \<longleftrightarrow>
     (case e of
        Array \<Rightarrow> (case es of [elem_op] \<Rightarrow> list_all (holds_value elem_op) vals | _ \<Rightarrow> False) \<and>
          length vals < 2 ^ 64 \<and> blob = []
      | Blob \<Rightarrow> es = [] \<and> vals = [] \<and> length blob < 2 ^ 63
      | _ \<Rightarrow> vals \<noteq> [] \<and> holds_value e (hd vals) \<and> fits es (tl vals) blob)"

text \<open>What the parser sees of the values: of a character, its number.\<close>

fun seen_value :: "abbrev_op \<Rightarrow> u64 \<Rightarrow> u64" where
  "seen_value Char6 v = char6_number v"
| "seen_value _ v = v"

fun seen_values :: "abbrev_op list \<Rightarrow> u64 list \<Rightarrow> u64 list" where
  "seen_values [] vals = vals"
| "seen_values (e # es) vals =
     (case e of
        Array \<Rightarrow> (case es of [] \<Rightarrow> vals | elem_op # _ \<Rightarrow> map (seen_value elem_op) vals)
      | Blob \<Rightarrow> vals
      | _ \<Rightarrow> (case vals of [] \<Rightarrow> [] | v # vs \<Rightarrow> seen_value e v # seen_values es vs))"

fun put_op :: "abbrev_op \<Rightarrow> bool list" where
  "put_op (Literal v) = put 1 1 @ put_vbr 8 v"
| "put_op (Fixed w) = put 1 0 @ put 3 1 @ put_vbr 5 (ucast w)"
| "put_op (Vbr w) = put 1 0 @ put 3 2 @ put_vbr 5 (ucast w)"
| "put_op Array = put 1 0 @ put 3 3"
| "put_op Char6 = put 1 0 @ put 3 4"
| "put_op Blob = put 1 0 @ put 3 5"

definition put_def :: "abbrev_def \<Rightarrow> bool list" where
  "put_def d = put_vbr 5 (of_nat (length (ops d))) @ concat (map put_op (ops d))"

section \<open>Documents\<close>

text \<open>The entries of a block, in the order of the stream.\<close>

datatype item =
    Define abbrev_def
  | Plain bitstream_record
  | Abbreviated abbrev_def bitstream_record
  | Nested u64 u32 "item list"

definition fields_of :: "bitstream_record \<Rightarrow> u64 list" where
  "fields_of rc = rec_code rc # rec_operands rc"

function emit_items :: "nat \<Rightarrow> nat \<Rightarrow> item list \<Rightarrow> bool list" where
  "emit_items w pos [] = []"
| "emit_items w pos (Define d # items) =
     (let x = put w DEFINE_ABBREV @ put_def d in x @ emit_items w (pos + length x) items)"
| "emit_items w pos (Plain rc # items) =
     (let x = emit_record w rc in x @ emit_items w (pos + length x) items)"
| "emit_items w pos (Abbreviated d rc # items) =
     (let x = put w (rec_abbrev_id rc) @ put_fields (pos + w) (ops d) (fields_of rc) (rec_blob rc)
      in x @ emit_items w (pos + length x) items)"
| "emit_items w pos (Nested bid width content # items) =
     (let h = block_header (pos + w) bid width;
          start = pos + w + length h + 32;
          c = emit_items (unat width) start content @ put (unat width) END_BLOCK;
          c' = c @ pad (start + length c);
          x = put w ENTER_SUBBLOCK @ h @ put 32 (of_nat (length c' div 32)) @ c'
      in x @ emit_items w (pos + length x) items)"
  by pat_completeness auto

termination by (relation "measure (\<lambda>(w, pos, items). size_list size items)") auto

text \<open>The block a document stands for.\<close>

fun records_of :: "item list \<Rightarrow> bitstream_record list" where
  "records_of [] = []"
| "records_of (Plain rc # items) = rc # records_of items"
| "records_of (Abbreviated d rc # items) = rc # records_of items"
| "records_of (_ # items) = records_of items"

fun blocks_of :: "item list \<Rightarrow> bitstream_block list" where
  "blocks_of [] = []"
| "blocks_of (Nested bid width content # items) =
     BitstreamBlock bid width (records_of content) (blocks_of content) # blocks_of items"
| "blocks_of (_ # items) = blocks_of items"

text \<open>The document as the parser sees it, and documents without characters of six bits, where it is the same.\<close>

definition seen_record :: "abbrev_def \<Rightarrow> bitstream_record \<Rightarrow> bitstream_record" where
  "seen_record d rc =
     (let vs = seen_values (ops d) (fields_of rc) in rc\<lparr>rec_code := hd vs, rec_operands := tl vs\<rparr>)"

primrec seen :: "item \<Rightarrow> item" where
  "seen (Define d) = Define d"
| "seen (Plain rc) = Plain rc"
| "seen (Abbreviated d rc) = Abbreviated d (seen_record d rc)"
| "seen (Nested bid width content) = Nested bid width (map seen content)"

primrec char6_free :: "item \<Rightarrow> bool" where
  "char6_free (Define d) \<longleftrightarrow> True"
| "char6_free (Plain rc) \<longleftrightarrow> True"
| "char6_free (Abbreviated d rc) \<longleftrightarrow> Char6 \<notin> set (ops d)"
| "char6_free (Nested bid width content) \<longleftrightarrow> list_all (\<lambda>b. b) (map char6_free content)"

text \<open>
  Well-formedness, with the abbreviations in force: those of the block (\<open>loc\<close>), the block id that definitions of
  a \<^verbatim>\<open>BLOCKINFO\<close> block are for, and those registered for block ids (\<open>t\<close>), which outlive the
  block; the result is what is registered behind the entries.
\<close>

definition registered :: "abbrev_table \<Rightarrow> u64 \<Rightarrow> abbrev_def list" where
  "registered t bid = (case t bid of Some ds \<Rightarrow> ds | None \<Rightarrow> [])"

definition register :: "u64 option \<Rightarrow> abbrev_def \<Rightarrow> abbrev_table \<Rightarrow> abbrev_table" where
  "register target d t = (case target of Some bid \<Rightarrow> t(bid \<mapsto> registered t bid @ [d]) | None \<Rightarrow> t)"

definition in_force :: "u32 \<Rightarrow> abbrev_def list \<Rightarrow> bitstream_record \<Rightarrow> abbrev_def \<Rightarrow> bool" where
  "in_force w loc rc d \<longleftrightarrow> FIRST_APPLICATION_ABBREV \<le> rec_abbrev_id rc \<and>
     take_bit (unat w) (rec_abbrev_id rc) = rec_abbrev_id rc \<and>
     get loc (unat (rec_abbrev_id rc - FIRST_APPLICATION_ABBREV)) = Some d"

function check_items :: "u64 \<Rightarrow> u32 \<Rightarrow> abbrev_def list \<Rightarrow> u64 option \<Rightarrow> abbrev_table \<Rightarrow> item list \<Rightarrow> abbrev_table option" where
  "check_items bid w loc target t [] = Some t"
| "check_items bid w loc target t (Define d # items) =
     (if length (ops d) < 2 ^ 59 then
        if bid = BLOCKINFO_BLOCK_ID then check_items bid w loc target (register target d t) items
        else check_items bid w (loc @ [d]) target t items
      else None)"
| "check_items bid w loc target t (Plain rc # items) =
     (if wf_record rc then
        check_items bid w loc (if bid = BLOCKINFO_BLOCK_ID \<and> rec_code rc = BLOCKINFO_CODE_SETBID
          then first (rec_operands rc) else target) t items
      else None)"
| "check_items bid w loc target t (Abbreviated d rc # items) =
     (if in_force w loc rc d \<and> fits (ops d) (fields_of rc) (rec_blob rc)
      then check_items bid w loc target t items else None)"
| "check_items bid w loc target t (Nested sub width content # items) =
     (if 2 \<le> width \<and> width \<le> 64 then
        case check_items sub width (registered t sub) None t content of
          None \<Rightarrow> None
        | Some t \<Rightarrow> check_items bid w loc target t items
      else None)"
  by pat_completeness auto

termination by (relation "measure (\<lambda>(bid, w, loc, target, t, items). size_list size items)") auto

section \<open>Documents as they are seen\<close>

lemma seen_value_same: "e \<noteq> Char6 \<Longrightarrow> seen_value e v = v"
  by (cases e) simp_all

lemma seen_values_same: "Char6 \<notin> set es \<Longrightarrow> seen_values es vals = vals"
  by (induction es arbitrary: vals) (auto simp: seen_value_same map_idI split: abbrev_op.split list.split)

lemma seen_values_nonempty: "fits es vals blob \<Longrightarrow> vals \<noteq> [] \<Longrightarrow> seen_values es vals \<noteq> []"
proof (cases es)
  case (Cons e es')
  then show "fits es vals blob \<Longrightarrow> vals \<noteq> [] \<Longrightarrow> seen_values es vals \<noteq> []"
    by (cases e; cases vals; cases es') auto
qed simp

lemma seen_same: "char6_free i \<Longrightarrow> seen i = i"
proof (induction i)
  case (Nested bid width content)
  then show ?case by (auto simp: list_all_iff intro: map_idI)
qed (simp_all add: seen_record_def seen_values_same fields_of_def)

lemma seen_blob [simp]: "rec_blob (seen_record d rc) = rec_blob rc" "rec_abbrev_id (seen_record d rc) = rec_abbrev_id rc"
  by (simp_all add: seen_record_def Let_def)

lemma length_CHAR6: "length CHAR6 = 64"
  by (simp add: CHAR6_def ascii_def)

text \<open>The number of a character has six bits, and is never its code.\<close>

lemma char6_number_less: "c \<in> set CHAR6 \<Longrightarrow> take_bit 6 (char6_number c) = char6_number c"
proof -
  assume "c \<in> set CHAR6"
  then have "takeWhile (\<lambda>x. x \<noteq> c) CHAR6 \<noteq> CHAR6" by (simp add: takeWhile_eq_all_conv)
  then have "length (takeWhile (\<lambda>x. x \<noteq> c) CHAR6) \<noteq> length CHAR6" by (metis takeWhile_eq_take take_all order_refl)
  then have "length (takeWhile (\<lambda>x. x \<noteq> c) CHAR6) < 64"
    using length_takeWhile_le [of "\<lambda>x. x \<noteq> c" CHAR6] length_CHAR6 by simp
  then show ?thesis by (simp add: char6_number_def take_bit_of_nat take_bit_nat_eq_self)
qed

lemma char6_number_differs: "list_all (\<lambda>c. char6_number c \<noteq> c) CHAR6"
  by (simp add: char6_number_def CHAR6_def ascii_def)

section \<open>Reading fields\<close>

lemma field_skips:
  "stream r = put 1 v @ rest \<Longrightarrow> take_bit 1 v = v \<Longrightarrow> read p 1 r = Inr (v, skip 1 r)"
  "stream r = put 3 v @ rest \<Longrightarrow> take_bit 3 v = v \<Longrightarrow> read p 3 r = Inr (v, skip 3 r)"
  "stream r = put 6 v @ rest \<Longrightarrow> take_bit 6 v = v \<Longrightarrow> read p 6 r = Inr (v, skip 6 r)"
  "stream r = put 8 v @ rest \<Longrightarrow> take_bit 8 v = v \<Longrightarrow> read p 8 r = Inr (v, skip 8 r)"
  "stream r = put_vbr 5 v @ rest \<Longrightarrow> read_vbr p 5 r = Inr (v, skip (length (put_vbr 5 v)) r)"
  using field_skip [of r 1 v rest p] field_skip [of r 3 v rest p] field_skip [of r 6 v rest p]
    field_skip [of r 8 v rest p] vbr_skip [of r 5 v rest p] by simp_all

lemma op_skip:
  assumes "stream r = put_op e @ rest"
  shows "read_abbrev_op p r = Inr (e, skip (length (put_op e)) r)"
proof -
  have enc: "stream r = put 1 0 @ put 3 n @ more \<Longrightarrow> take_bit 3 n = n \<Longrightarrow>
      read p 1 r = Inr (0, skip 1 r) \<and> read p 3 (skip 1 r) = Inr (n, skip 4 r) \<and> stream (skip 4 r) = more" for n more
    using field_skips(1) [of r 0] field_skips(2) [of "skip 1 r" n more p] stream_skip [of r "put 1 0" "put 3 n @ more"]
      stream_skip [of "skip 1 r" "put 3 n" more] by simp
  have width: "ucast (ucast w :: u64) = w" for w :: u32 by (simp add: unsigned_ucast_eq take_bit_word_eq_self)
  show ?thesis
  proof (cases e)
    case (Literal v)
    have str: "stream r = put 1 1 @ put_vbr 8 v @ rest" using assms Literal by simp
    have "read_vbr p 8 (skip 1 r) = Inr (v, skip (length (put_vbr 8 v)) (skip 1 r))"
      using vbr_skips(3) stream_skip [OF str] by simp
    with field_skips(1) [OF str, of p] show ?thesis by (simp add: read_abbrev_op_def Literal)
  next
    case (Fixed w)
    then have str: "stream r = put 1 0 @ put 3 1 @ put_vbr 5 (ucast w) @ rest" using assms by simp
    from enc [OF this] have enc: "read p 1 r = Inr (0, skip 1 r)" "read p 3 (skip 1 r) = Inr (1, skip 4 r)"
      and "stream (skip 4 r) = put_vbr 5 (ucast w) @ rest" by simp_all
    note field_skips(5) [OF this(3), of p]
    then show ?thesis using Fixed enc width by (simp add: read_abbrev_op_def)
  next
    case (Vbr w)
    then have str: "stream r = put 1 0 @ put 3 2 @ put_vbr 5 (ucast w) @ rest" using assms by simp
    from enc [OF this] have enc: "read p 1 r = Inr (0, skip 1 r)" "read p 3 (skip 1 r) = Inr (2, skip 4 r)"
      and "stream (skip 4 r) = put_vbr 5 (ucast w) @ rest" by simp_all
    note field_skips(5) [OF this(3), of p]
    then show ?thesis using Vbr enc width by (simp add: read_abbrev_op_def)
  next
    case Array
    then show ?thesis using assms enc [of 3] by (simp add: read_abbrev_op_def)
  next
    case Char6
    then show ?thesis using assms enc [of 4] by (simp add: read_abbrev_op_def)
  next
    case Blob
    then show ?thesis using assms enc [of 5] by (simp add: read_abbrev_op_def)
  qed
qed

lemma def_skip:
  assumes "stream r = put_def d @ rest" and "length (ops d) < 2 ^ 59"
  shows "read_abbrev_def p r = Inr (d, skip (length (put_def d)) r)"
proof -
  have str: "stream r = put_vbr 5 (of_nat (length (ops d))) @ concat (map put_op (ops d)) @ rest"
    using assms(1) by (simp add: put_def_def)
  have n: "unat (of_nat (length (ops d)) :: u64) = length (ops d)" using assms(2) by (simp add: unat_of_nat)
  then have "capacity_ok 16 (uint (of_nat (length (ops d)) :: u64))"
    using assms(2) by (simp add: capacity_ok_def uint_nat)
  with field_skips(5) [OF str, of p] rep_skip [of _ put_op "read_abbrev_op p", OF op_skip stream_skip [OF str]] n
  show ?thesis by (simp add: read_abbrev_def_def put_def_def)
qed

lemma element_skip:
  assumes "holds_value e v" and "stream r = put_field e v @ rest"
  shows "read_element p e r = Inr (seen_value e v, skip (length (put_field e v)) r)"
  using assms field_skip [of r _ v rest p] vbr_skip [of r _ v rest p] field_skips(3) [of r "char6_number v" rest p]
  by (cases e) (auto simp: read_element_def word_le_nat_alt char6_number_less)

lemma byte_skip:
  assumes "stream r = map (bit b) [0..<8] @ rest"
  shows "read_byte p r = Inr (b, skip 8 r)"
proof -
  have "map (bit b) [0..<8] = put 8 (ucast b :: u64)" by (simp add: put_def bit_simps)
  with assms have "read p 8 r = Inr (ucast b, skip 8 r)"
    by (intro field_skips(4)) (use bit_imp_le_length [of b] in \<open>auto intro!: bit_eqI simp: bit_simps\<close>)
  moreover have "ucast (ucast b :: u64) = b" by (rule bit_word_eqI) (simp add: bit_simps)
  ultimately show ?thesis by (simp add: read_byte_def)
qed

lemma fields_skip:
  assumes "fits es vals blob" and "stream r = put_fields (bit_pos r) es vals blob @ rest"
  shows "read_ops p es acc [] r =
    Inr ((acc @ seen_values es vals, blob), skip (length (put_fields (bit_pos r) es vals blob)) r)"
  using assms
proof (induction es arbitrary: vals acc r)
  case Nil
  then show ?case by simp
next
  case (Cons e es)
  let ?pos = "bit_pos r"
  have scalar: ?case
    if "fits (e # es) vals blob \<longleftrightarrow> vals \<noteq> [] \<and> holds_value e (hd vals) \<and> fits es (tl vals) blob"
      and "put_fields ?pos (e # es) vals blob =
        put_field e (hd vals) @ put_fields (?pos + length (put_field e (hd vals))) es (tl vals) blob"
      and "\<And>r. read_ops p (e # es) acc [] r = bnd (read_element p e r) (\<lambda>(v, r). read_ops p es (acc @ [v]) [] r)"
      and "\<And>v vs. seen_values (e # es) (v # vs) = seen_value e v # seen_values es vs"
  proof -
    have "vals \<noteq> [] \<and> holds_value e (hd vals) \<and> fits es (tl vals) blob" using that(1) Cons.prems(1) by blast
    then obtain v vs where vals: "vals = v # vs" and v: "holds_value e v" and rest: "fits es vs blob"
      by (cases vals) simp_all
    have str: "stream r = put_field e v @ put_fields (?pos + length (put_field e v)) es vs blob @ rest"
      using Cons.prems(2) that(2) vals by simp
    from Cons.IH [OF rest, of "skip (length (put_field e v)) r"] stream_skip [OF str]
    show ?case by (simp add: that(2) [unfolded vals] that(3,4) vals element_skip [OF v str] del: put_fields.simps seen_values.simps)
  qed
  show ?case
  proof (cases e)
    case Array
    then obtain elem where es: "es = [elem]" and vals: "\<And>v. v \<in> set vals \<Longrightarrow> holds_value elem v" "length vals < 2 ^ 64"
      and "blob = []" using Cons.prems(1) by (auto simp: list_all_iff split: list.splits)
    have str: "stream r = put_vbr 6 (of_nat (length vals)) @ concat (map (put_field elem) vals) @ rest"
      using Cons.prems(2) Array es by simp
    have "unat (of_nat (length vals) :: u64) = length vals" using vals(2) by (simp add: unat_of_nat)
    with vbr_skips(2) [OF str, of p] rep_skip_map [of vals "put_field elem" "read_element p elem" "seen_value elem", OF element_skip stream_skip [OF str]]
    show ?thesis using Array es vals(1) \<open>blob = []\<close> by simp
  next
    case Blob
    then have es: "es = []" "vals = []" "length blob < 2 ^ 63" using Cons.prems(1) by simp_all
    let ?h = "put_vbr 6 (of_nat (length blob))" and ?f = "\<lambda>b :: u8. map (bit b) [0..<8]"
    let ?a = "pad (?pos + length ?h)"
    let ?e = "pad (?pos + length (?h @ ?a @ bits_of blob))"
    have str: "stream r = ?h @ ?a @ concat (map ?f blob) @ ?e @ rest"
      using Cons.prems(2) Blob by (simp add: Let_def bits_of_def)
    let ?r1 = "skip (length ?h) r"
    have str1: "stream ?r1 = pad (bit_pos ?r1) @ concat (map ?f blob) @ ?e @ rest"
      using stream_skip [OF str] by simp
    let ?r2 = "skip (length (pad (bit_pos ?r1))) ?r1"
    note str2 = stream_skip [OF str1]
    have bytes: "rep_read (length blob) (read_byte p) ?r2 = Inr (blob, skip (length (concat (map ?f blob))) ?r2)"
      by (rule rep_skip [OF _ str2]) (simp add: byte_skip)
    let ?r3 = "skip (length (concat (map ?f blob))) ?r2"
    have "stream ?r3 = pad (bit_pos ?r3) @ rest"
      using stream_skip [OF str2] by (simp add: bits_of_def add.assoc)
    note al = pad_skip [OF this]
    have n: "unat (of_nat (length blob) :: u64) = length blob" using es(3) by (simp add: unat_of_nat)
    then have "capacity_ok 1 (uint (of_nat (length blob) :: u64))" using es(3) by (simp add: capacity_ok_def uint_nat)
    then show ?thesis
      using vbr_skips(2) [OF str, of p] pad_skip [OF str1] bytes al n Blob es
      by (simp add: Let_def bits_of_def add.assoc del: length_bits_of)
  qed (rule scalar; simp add: read_element_def)+
qed


section \<open>Reading entries\<close>

lemma loop_entry:
  assumes "stream r = put (unat w) i @ rest" and "2 \<le> unat w" "unat w \<le> 64" "take_bit (unat w) i = i"
    and "i \<noteq> END_BLOCK" "i \<noteq> ENTER_SUBBLOCK"
    and "parse_entry p bid i st t (skip (unat w) r) = Inr ((st', t'), r')"
  shows "parse_loop (Suc fuel) p bid w st t r = parse_loop fuel p bid w st' t' r'"
  using id_round(1,3) [OF assms(1-4), of p] id_round(2) [OF assms(1-4)] assms(5-7) by simp

lemma define_fits: "2 \<le> n \<Longrightarrow> take_bit n DEFINE_ABBREV = DEFINE_ABBREV"
proof -
  assume "2 \<le> n"
  then obtain m where "n = Suc (Suc m)" by (metis Suc_1 add_2_eq_Suc le_Suc_ex)
  then show ?thesis by (simp add: take_bit_Suc DEFINE_ABBREV_def)
qed

abbreviation at_entry :: "bitstream_record list \<Rightarrow> bitstream_block list \<Rightarrow> abbrev_def list \<Rightarrow> u64 option \<Rightarrow> block_state" where
  "at_entry rs bs loc target \<equiv> \<lparr>recs = rs, subs = bs, local_abbrevs = loc, current_setbid = target\<rparr>"

lemma entry_define:
  assumes "stream r = put_def d @ rest" and "length (ops d) < 2 ^ 59"
  shows "parse_entry p bid DEFINE_ABBREV (at_entry rs bs loc target) t r =
    Inr ((at_entry rs bs (if bid = BLOCKINFO_BLOCK_ID then loc else loc @ [d]) target,
      if bid = BLOCKINFO_BLOCK_ID then register target d t else t), skip (length (put_def d)) r)"
  using def_skip [OF assms, of p] by (auto simp: parse_entry_def register_def registered_def split: option.split)

lemma entry_plain:
  assumes "stream r = put_vbr 6 (rec_code rc) @ put_vbr 6 (of_nat (length (rec_operands rc))) @
      concat (map (put_vbr 6) (rec_operands rc)) @ rest" and "wf_record rc"
  shows "parse_entry p bid UNABBREV_RECORD (at_entry rs bs loc target) t r =
    Inr ((at_entry (rs @ [rc]) bs loc (if bid = BLOCKINFO_BLOCK_ID \<and> rec_code rc = BLOCKINFO_CODE_SETBID
        then first (rec_operands rc) else target), t),
      skip (length (put_vbr 6 (rec_code rc) @ put_vbr 6 (of_nat (length (rec_operands rc))) @
        concat (map (put_vbr 6) (rec_operands rc)))) r)"
proof -
  have "\<lparr>rec_abbrev_id = UNABBREV_RECORD, rec_code = rec_code rc, rec_operands = rec_operands rc, rec_blob = []\<rparr> = rc"
    using assms(2) by (simp add: wf_record_def)
  moreover have "UNABBREV_RECORD \<noteq> DEFINE_ABBREV" by (simp add: bitstream_ids)
  ultimately show ?thesis
    using read_unabbrev_skip [OF assms(1), of p] assms(2) by (simp add: parse_entry_def wf_record_def Let_def)
qed

lemma entry_abbreviated:
  assumes "stream r = put_fields (bit_pos r) (ops d) (fields_of rc) (rec_blob rc) @ rest"
    and "fits (ops d) (fields_of rc) (rec_blob rc)" "in_force w loc rc d"
  shows "parse_entry p bid (rec_abbrev_id rc) (at_entry rs bs loc target) t r =
    Inr ((at_entry (rs @ [seen_record d rc]) bs loc target, t),
      skip (length (put_fields (bit_pos r) (ops d) (fields_of rc) (rec_blob rc))) r)"
proof -
  have "rec_abbrev_id rc \<noteq> DEFINE_ABBREV" "rec_abbrev_id rc \<noteq> UNABBREV_RECORD"
    using assms(3) by (auto simp: in_force_def bitstream_ids)
  moreover obtain v vs where vs: "seen_values (ops d) (fields_of rc) = v # vs"
    using seen_values_nonempty [OF assms(2)] by (cases "seen_values (ops d) (fields_of rc)") (simp_all add: fields_of_def)
  moreover have "seen_record d rc = \<lparr>rec_abbrev_id = rec_abbrev_id rc, rec_code = v, rec_operands = vs,
    rec_blob = rec_blob rc\<rparr>" using vs by (simp add: seen_record_def)
  ultimately show ?thesis
    using fields_skip [OF assms(2,1), of p "[]"] assms(3)
    by (auto simp: parse_entry_def in_force_def read_abbreviated_record_def first_def)
qed

section \<open>Reading blocks\<close>

definition body :: "nat \<Rightarrow> u64 \<Rightarrow> u32 \<Rightarrow> item list \<Rightarrow> bool list" where
  "body pos bid width content =
     (let h = block_header pos bid width; start = pos + length h + 32;
          c = emit_items (unat width) start content @ put (unat width) END_BLOCK;
          c' = c @ pad (start + length c)
      in h @ put 32 (of_nat (length c' div 32)) @ c')"

lemma emit_nested:
  "emit_items w pos (Nested bid width content # items) =
     (let x = put w ENTER_SUBBLOCK @ body (pos + w) bid width content in x @ emit_items w (pos + length x) items)"
  by (simp add: body_def Let_def add.assoc)

lemma records_blocks_Cons:
  "records_of (i # items) = records_of [i] @ records_of items" "blocks_of (i # items) = blocks_of [i] @ blocks_of items"
  by (cases i; simp)+

text \<open>The parser's loop reads entries as the document means them, with these abbreviations before and behind.\<close>

definition reads :: "profile \<Rightarrow> u64 \<Rightarrow> u32 \<Rightarrow> abbrev_def list \<Rightarrow> u64 option \<Rightarrow> abbrev_table \<Rightarrow> item list \<Rightarrow> abbrev_table \<Rightarrow> bool" where
  "reads p bid w loc target t items t' \<longleftrightarrow> (\<forall>r rest fuel rs bs.
     stream r = emit_items (unat w) (bit_pos r) items @ rest \<longrightarrow> length (stream r) < fuel \<longrightarrow>
     (\<exists>fuel' loc' target'. parse_loop fuel p bid w (at_entry rs bs loc target) t r =
        parse_loop fuel' p bid w (at_entry (rs @ records_of (map seen items)) (bs @ blocks_of (map seen items)) loc' target') t'
          (skip (length (emit_items (unat w) (bit_pos r) items)) r) \<and> length rest < fuel'))"

lemma reads_Cons:
  assumes emit: "\<And>pos. emit_items (unat w) pos (i # items) = x pos @ emit_items (unat w) (pos + length (x pos)) items"
    and "\<And>pos. x pos \<noteq> []"
    and step: "\<And>r rest fuel rs bs. stream r = x (bit_pos r) @ rest \<Longrightarrow> length (stream r) < Suc fuel \<Longrightarrow>
      parse_loop (Suc fuel) p bid w (at_entry rs bs loc target) t r =
      parse_loop fuel p bid w (at_entry (rs @ records_of [seen i]) (bs @ blocks_of [seen i]) loc1 target1) t1
        (skip (length (x (bit_pos r))) r)"
    and items: "reads p bid w loc1 target1 t1 items t'"
  shows "reads p bid w loc target t (i # items) t'"
  unfolding reads_def
proof (intro allI impI)
  fix r :: reader and rest fuel rs bs
  let ?x = "x (bit_pos r)"
  let ?s = "emit_items (unat w) (bit_pos r + length ?x) items"
  assume "stream r = emit_items (unat w) (bit_pos r) (i # items) @ rest" and fuel: "length (stream r) < fuel"
  then have str: "stream r = ?x @ ?s @ rest" by (simp add: emit)
  obtain fuel1 where fuel1: "fuel = Suc fuel1" using fuel by (cases fuel) auto
  have "0 < length ?x" using assms(2) by simp
  then have left: "length (stream (skip (length ?x) r)) < fuel1"
    using fuel unfolding fuel1 stream_skip [OF str] unfolding str length_append by linarith
  have "stream (skip (length ?x) r) = emit_items (unat w) (bit_pos (skip (length ?x) r)) items @ rest"
    using stream_skip [OF str] by simp
  from items [unfolded reads_def, rule_format, OF this left, of "rs @ records_of [seen i]" "bs @ blocks_of [seen i]"]
  obtain fuel' loc' target' where "parse_loop fuel1 p bid w (at_entry (rs @ records_of [seen i]) (bs @ blocks_of [seen i]) loc1 target1)
      t1 (skip (length ?x) r) =
    parse_loop fuel' p bid w (at_entry ((rs @ records_of [seen i]) @ records_of (map seen items)) ((bs @ blocks_of [seen i]) @ blocks_of (map seen items))
      loc' target') t' (skip (length ?s) (skip (length ?x) r))" "length rest < fuel'" by auto
  then show "\<exists>fuel' loc' target'. parse_loop fuel p bid w (at_entry rs bs loc target) t r =
      parse_loop fuel' p bid w (at_entry (rs @ records_of (map seen (i # items))) (bs @ blocks_of (map seen (i # items))) loc' target') t'
        (skip (length (emit_items (unat w) (bit_pos r) (i # items))) r) \<and> length rest < fuel'"
    using step [OF str] fuel unfolding fuel1 records_blocks_Cons [of "seen i" "map seen items"] emit list.map by (auto simp: add.assoc)
qed

text \<open>A block up to its end, whatever follows; then with the padding behind it.\<close>

definition open_body :: "nat \<Rightarrow> u64 \<Rightarrow> u32 \<Rightarrow> u64 \<Rightarrow> item list \<Rightarrow> bool list" where
  "open_body pos bid width len content =
     (let h = block_header pos bid width
      in h @ put 32 len @ emit_items (unat width) (pos + length h + 32) content @ put (unat width) END_BLOCK)"

lemma body_open:
  "\<exists>len. body pos bid width content =
    open_body pos bid width len content @ pad (pos + length (open_body pos bid width len content))"
  by (auto simp: body_def open_body_def Let_def add.assoc)

lemma block_open_skip:
  assumes content: "reads p bid width (registered t bid) None t content t'" and w: "2 \<le> unat width" "unat width \<le> 64"
    and str: "stream r = open_body (bit_pos r) bid width len content @ rest" and fuel: "length (stream r) < fuel"
  shows "\<exists>r1. read_block_header p r = Inr ((bid, width), r1) \<and> parse_block fuel p bid width t r1 =
    Inr ((BitstreamBlock bid width (records_of (map seen content)) (blocks_of (map seen content)), t'),
      align32 (skip (length (open_body (bit_pos r) bid width len content)) r))"
proof -
  let ?pos = "bit_pos r"
  let ?h = "block_header ?pos bid width"
  let ?start = "?pos + length ?h + 32"
  let ?s = "emit_items (unat width) ?start content" and ?e = "put (unat width) END_BLOCK"
  have str: "stream r = ?h @ put 32 len @ ?s @ ?e @ rest"
    using str by (simp add: open_body_def Let_def)
  define r1 where "r1 = skip (length ?h + 32) r"
  have str1: "stream r1 = ?s @ ?e @ rest" and pos1: "bit_pos r1 = ?start"
    using stream_skip [OF stream_skip [OF str]] by (simp_all add: r1_def)
  have "length (stream r1) < fuel" using fuel by (simp add: r1_def skip_def stream_advance)
  from content [unfolded reads_def, rule_format, OF str1 [folded pos1] this, of "[]" "[]"]
  obtain fuel' loc' target' where loop: "parse_loop fuel p bid width (fresh_block bid t) t r1 =
      parse_loop fuel' p bid width (at_entry (records_of (map seen content)) (blocks_of (map seen content)) loc' target') t'
        (skip (length ?s) r1)"
    and "length (?e @ rest) < fuel'" by (auto simp: fresh_block_def registered_def pos1)
  then have some: "0 < fuel'" by simp
  from loop_end [OF stream_skip [OF str1] w some] have "parse_block fuel p bid width t r1 =
      Inr ((BitstreamBlock bid width (records_of (map seen content)) (blocks_of (map seen content)), t'),
        align32 (skip (unat width) (skip (length ?s) r1)))"
    by (simp add: parse_block_def loop)
  moreover have "skip (unat width) (skip (length ?s) r1) = skip (length (open_body ?pos bid width len content)) r"
    by (simp add: r1_def open_body_def Let_def add.assoc)
  ultimately show ?thesis using read_header_skip [OF str, of p] by (auto simp: r1_def)
qed

lemma block_skip:
  assumes content: "reads p bid width (registered t bid) None t content t'" and w: "2 \<le> unat width" "unat width \<le> 64"
    and str: "stream r = body (bit_pos r) bid width content @ rest" and fuel: "length (stream r) < fuel"
  shows "\<exists>r1. read_block_header p r = Inr ((bid, width), r1) \<and> parse_block fuel p bid width t r1 =
    Inr ((BitstreamBlock bid width (records_of (map seen content)) (blocks_of (map seen content)), t'),
      skip (length (body (bit_pos r) bid width content)) r)"
proof -
  obtain len where body: "body (bit_pos r) bid width content =
      open_body (bit_pos r) bid width len content @ pad (bit_pos r + length (open_body (bit_pos r) bid width len content))"
    using body_open by blast
  let ?o = "open_body (bit_pos r) bid width len content"
  have str: "stream r = ?o @ pad (bit_pos r + length ?o) @ rest" using str by (simp only: body append_assoc)
  have "stream (skip (length ?o) r) = pad (bit_pos (skip (length ?o) r)) @ rest" using stream_skip [OF str] by simp
  from pad_skip [OF this] have "align32 (skip (length ?o) r) = skip (length (body (bit_pos r) bid width content)) r"
    by (simp add: body)
  with block_open_skip [OF content w str fuel] show ?thesis by simp
qed

lemma reads_checked:
  "check_items bid w loc target t items = Some t' \<Longrightarrow> 2 \<le> unat w \<Longrightarrow> unat w \<le> 64 \<Longrightarrow> reads p bid w loc target t items t'"
proof (induction bid w loc target t items arbitrary: t' rule: check_items.induct)
  case (1 bid w loc target t)
  then show ?case by (auto simp: reads_def)
next
  case (2 bid w loc target t d items)
  then have d: "length (ops d) < 2 ^ 59" by (auto split: if_splits)
  let ?loc = "if bid = BLOCKINFO_BLOCK_ID then loc else loc @ [d]"
    and ?t = "if bid = BLOCKINFO_BLOCK_ID then register target d t else t"
  show ?case
  proof (rule reads_Cons [where x = "\<lambda>pos. put (unat w) DEFINE_ABBREV @ put_def d" and ?loc1.0 = ?loc and ?t1.0 = ?t])
    fix r rest fuel rs bs
    assume "stream r = (put (unat w) DEFINE_ABBREV @ put_def d) @ rest"
    then have str: "stream r = put (unat w) DEFINE_ABBREV @ put_def d @ rest" by simp
    have "stream (skip (unat w) r) = put_def d @ rest" using stream_skip [OF str] by simp
    from loop_entry [OF str 2(4,5) define_fits [OF 2(4)] _ _ entry_define [OF this d]]
    show "parse_loop (Suc fuel) p bid w (at_entry rs bs loc target) t r =
        parse_loop fuel p bid w (at_entry (rs @ records_of [seen (Define d)]) (bs @ blocks_of [seen (Define d)]) ?loc target) ?t
          (skip (length (put (unat w) DEFINE_ABBREV @ put_def d)) r)"
      by (simp add: bitstream_ids)
  next
    show "reads p bid w ?loc target ?t items t'" using 2 d by (auto split: if_splits)
  qed (use 2(4) in \<open>auto simp: Let_def put_def\<close>)
next
  case (3 bid w loc target t rc items)
  then have rc: "wf_record rc" by (auto split: if_splits)
  let ?x = "put_vbr 6 (rec_code rc) @ put_vbr 6 (of_nat (length (rec_operands rc))) @ concat (map (put_vbr 6) (rec_operands rc))"
  let ?target = "if bid = BLOCKINFO_BLOCK_ID \<and> rec_code rc = BLOCKINFO_CODE_SETBID then first (rec_operands rc) else target"
  show ?case
  proof (rule reads_Cons [where x = "\<lambda>pos. emit_record (unat w) rc" and ?target1.0 = ?target])
    fix r rest fuel rs bs
    assume "stream r = emit_record (unat w) rc @ rest"
    then have str: "stream r = put (unat w) UNABBREV_RECORD @ ?x @ rest" by (simp add: emit_record_def)
    have "stream (skip (unat w) r) = put_vbr 6 (rec_code rc) @ put_vbr 6 (of_nat (length (rec_operands rc))) @
        concat (map (put_vbr 6) (rec_operands rc)) @ rest" using stream_skip [OF str] by simp
    from loop_entry [OF str 3(3,4) id_fits(3) [OF 3(3)] _ _ entry_plain [OF this rc]]
    show "parse_loop (Suc fuel) p bid w (at_entry rs bs loc target) t r =
        parse_loop fuel p bid w (at_entry (rs @ records_of [seen (Plain rc)]) (bs @ blocks_of [seen (Plain rc)]) loc ?target) t
          (skip (length (emit_record (unat w) rc)) r)"
      by (simp add: bitstream_ids emit_record_def add.assoc)
  next
    show "reads p bid w loc ?target t items t'" using 3 rc by (simp split: if_splits)
  qed (simp_all add: Let_def)
next
  case (4 bid w loc target t d rc items)
  then have rc: "in_force w loc rc d" "fits (ops d) (fields_of rc) (rec_blob rc)" by (auto split: if_splits)
  then have i: "take_bit (unat w) (rec_abbrev_id rc) = rec_abbrev_id rc" "rec_abbrev_id rc \<noteq> END_BLOCK"
    "rec_abbrev_id rc \<noteq> ENTER_SUBBLOCK" by (auto simp: in_force_def bitstream_ids word_le_nat_alt)
  let ?x = "\<lambda>pos. put (unat w) (rec_abbrev_id rc) @ put_fields (pos + unat w) (ops d) (fields_of rc) (rec_blob rc)"
  show ?case
  proof (rule reads_Cons [where x = ?x])
    fix r :: reader and rest fuel rs bs
    let ?f = "put_fields (bit_pos r + unat w) (ops d) (fields_of rc) (rec_blob rc)"
    assume "stream r = ?x (bit_pos r) @ rest"
    then have str: "stream r = put (unat w) (rec_abbrev_id rc) @ ?f @ rest" by simp
    have "stream (skip (unat w) r) = put_fields (bit_pos (skip (unat w) r)) (ops d) (fields_of rc) (rec_blob rc) @ rest"
      using stream_skip [OF str] by simp
    from loop_entry [OF str 4(3,4) i entry_abbreviated [OF this rc(2,1)]]
    show "parse_loop (Suc fuel) p bid w (at_entry rs bs loc target) t r =
        parse_loop fuel p bid w (at_entry (rs @ records_of [seen (Abbreviated d rc)]) (bs @ blocks_of [seen (Abbreviated d rc)])
          loc target) t (skip (length (?x (bit_pos r))) r)"
      by simp
  next
    show "reads p bid w loc target t items t'" using 4 rc by simp
  qed (use 4(3) in \<open>auto simp: Let_def put_def\<close>)
next
  case (5 bid w loc target t sub width content items)
  then obtain t1 where width: "2 \<le> unat width" "unat width \<le> 64"
    and t1: "check_items sub width (registered t sub) None t content = Some t1"
    and rest: "check_items bid w loc target t1 items = Some t'"
    using word_range [of width] by (auto split: if_splits option.splits)
  have content: "reads p sub width (registered t sub) None t content t1"
    using 5(1) [OF _ t1 width] width word_range [of width] by blast
  let ?x = "\<lambda>pos. put (unat w) ENTER_SUBBLOCK @ body (pos + unat w) sub width content"
    and ?i = "Nested sub width content"
  show ?case
  proof (rule reads_Cons [where x = ?x])
    fix r :: reader and rest fuel rs bs
    assume "stream r = ?x (bit_pos r) @ rest" and fuel: "length (stream r) < Suc fuel"
    then have str: "stream r = put (unat w) ENTER_SUBBLOCK @ body (bit_pos (skip (unat w) r)) sub width content @ rest"
      by simp
    have str1: "stream (skip (unat w) r) = body (bit_pos (skip (unat w) r)) sub width content @ rest"
      using stream_skip [OF str] by simp
    have "length (stream (skip (unat w) r)) < fuel" using fuel 5(4) by (simp add: str str1 del: skip_simps)
    from block_skip [OF content width str1 this] loop_enter [OF str 5(4,5)]
    show "parse_loop (Suc fuel) p bid w (at_entry rs bs loc target) t r =
        parse_loop fuel p bid w (at_entry (rs @ records_of [seen ?i]) (bs @ blocks_of [seen ?i]) loc target) t1
          (skip (length (?x (bit_pos r))) r)"
      by fastforce
  next
    show "reads p bid w loc target t1 items t'" using 5(2) [OF _ t1 rest 5(4,5)] width word_range [of width] by blast
  qed (use 5(4) in \<open>auto simp: emit_nested Let_def put_def simp del: emit_items.simps(5)\<close>)
qed

section \<open>Modules\<close>

text \<open>A module is a sequence of blocks, with ids of two bits.\<close>

fun check_module :: "abbrev_table \<Rightarrow> item list \<Rightarrow> bool" where
  "check_module t [] \<longleftrightarrow> True"
| "check_module t (Nested bid width content # items) \<longleftrightarrow> 2 \<le> width \<and> width \<le> 64 \<and>
     (case check_items bid width (registered t bid) None t content of
        None \<Rightarrow> False
      | Some t \<Rightarrow> check_module t items)"
| "check_module t (_ # items) \<longleftrightarrow> False"

definition emit_module :: "item list \<Rightarrow> u8 list" where
  "emit_module items = RAW_BITCODE_MAGIC @ bytes_of (emit_items 2 0 items)"

lemma body_aligned: "(pos + length (body pos bid width content)) mod 32 = 0"
proof -
  let ?start = "pos + length (block_header pos bid width) + 32"
  let ?c = "emit_items (unat width) ?start content @ put (unat width) END_BLOCK"
  have "pos + length (body pos bid width content) = (?start + length ?c) + length (pad (?start + length ?c))"
    by (simp add: body_def Let_def)
  then show ?thesis by (simp only: pad_aligned)
qed

lemma emit_module_aligned: "check_module t items \<Longrightarrow> pos mod 32 = 0 \<Longrightarrow> (pos + length (emit_items w pos items)) mod 32 = 0"
proof (induction t items arbitrary: pos rule: check_module.induct)
  case (2 t bid width content items)
  then obtain t' where t': "check_items bid width (registered t bid) None t content = Some t'" "check_module t' items"
    by (auto split: option.splits)
  have "((pos + w) + length (body (pos + w) bid width content)) mod 32 = 0" by (rule body_aligned)
  from 2(1) [OF t' this] show ?case by (simp add: emit_nested Let_def add.assoc del: emit_items.simps(5))
qed simp_all

lemma emit_items_append:
  "emit_items w pos (xs @ ys) = emit_items w pos xs @ emit_items w (pos + length (emit_items w pos xs)) ys"
  by (induction w pos xs rule: emit_items.induct) (simp_all add: Let_def add.assoc)

text \<open>The blocks of a module are read one by one, whatever follows them.\<close>

lemma parse_top_front:
  assumes "check_module t (front @ back)" and "stream r = emit_items 2 (bit_pos r) front @ rest" "in_bounds r"
    and "length (stream r) < fuel"
  shows "\<exists>fuel' t'. parse_top fuel p acc t r = parse_top fuel' p (acc @ blocks_of (map seen front)) t'
      (skip (length (emit_items 2 (bit_pos r) front)) r) \<and>
    check_module t' back \<and> length rest < fuel'"
  using assms
proof (induction t front arbitrary: r fuel acc rule: check_module.induct)
  case (1 t)
  then show ?case by auto
next
  case (2 t bid width content items)
  then obtain t' where width: "2 \<le> unat width" "unat width \<le> 64"
    and t': "check_items bid width (registered t bid) None t content = Some t'" "check_module t' (items @ back)"
    using word_range [of width] by (auto split: option.splits)
  let ?b = "body (bit_pos r + 2) bid width content"
  let ?s = "emit_items 2 (bit_pos r + length (put 2 ENTER_SUBBLOCK @ ?b)) items"
  have str: "stream r = put (unat (2 :: u32)) ENTER_SUBBLOCK @ ?b @ ?s @ rest"
    using 2(3) by (simp add: emit_nested Let_def del: emit_items.simps(5))
  note id = id_round(1,3) [OF str, simplified, OF id_fits(2) [of 2], simplified, of p]
  have str1: "stream (skip 2 r) = body (bit_pos (skip 2 r)) bid width content @ ?s @ rest" using stream_skip [OF str] by simp
  have bounds: "in_bounds (skip 2 r)" using in_bounds_skip [OF str 2(4)] by simp
  obtain fuel1 where fuel1: "fuel = Suc fuel1" using 2(5) by (cases fuel) auto
  have left: "length (stream (skip 2 r)) < fuel1" "length (?s @ rest) < fuel1" using 2(5) by (simp_all add: fuel1 str str1)
  from block_skip [OF reads_checked [OF t'(1) width, of p] width str1 left(1)]
  obtain r1 where block: "read_block_header p (skip 2 r) = Inr ((bid, width), r1)"
    "parse_block fuel1 p bid width t r1 =
      Inr ((BitstreamBlock bid width (records_of (map seen content)) (blocks_of (map seen content)), t'),
        skip (length ?b) (skip 2 r))" by auto
  have "32 \<le> length ?b" by (simp add: body_def Let_def)
  then have step: "parse_top fuel p acc t r =
      parse_top fuel1 p (acc @ [BitstreamBlock bid width (records_of (map seen content)) (blocks_of (map seen content))]) t'
        (skip (length ?b) (skip 2 r))"
    using id block by (simp add: fuel1 del: skip_simps(4))
  let ?r = "skip (length ?b) (skip 2 r)"
    and ?acc = "acc @ [BitstreamBlock bid width (records_of (map seen content)) (blocks_of (map seen content))]"
  have s: "?s = emit_items 2 (bit_pos ?r) items" by (simp add: add.assoc)
  have str2: "stream ?r = emit_items 2 (bit_pos ?r) items @ rest" using stream_skip [OF str1] s by simp
  have "in_bounds ?r" using in_bounds_skip [OF str1 bounds] by simp
  moreover have "length (stream ?r) < fuel1" using left(2) str2 s by simp
  ultimately obtain fuel' t'' where "parse_top fuel1 p ?acc t' ?r =
      parse_top fuel' p (?acc @ blocks_of (map seen items)) t'' (skip (length ?s) ?r)"
    "check_module t'' back" "length rest < fuel'"
    using 2(1) [OF t' str2, of fuel1 ?acc] unfolding s by blast
  with step show ?case
    by (intro exI [of _ fuel'] exI [of _ t'']) (simp add: emit_nested Let_def add.assoc del: emit_items.simps(5))
qed simp_all

lemma parse_top_module:
  assumes "check_module t items" and "stream r = emit_items 2 (bit_pos r) items" "in_bounds r" "length (stream r) < fuel"
  shows "parse_top fuel p acc t r = Inr (acc @ blocks_of (map seen items))"
proof -
  let ?r = "skip (length (emit_items 2 (bit_pos r) items)) r"
  have str: "stream r = emit_items 2 (bit_pos r) items @ []" using assms(2) by simp
  from parse_top_front [of t items "[]" r "[]" fuel p acc, OF _ str assms(3,4)] assms(1) obtain fuel' t' where
    step: "parse_top fuel p acc t r = parse_top fuel' p (acc @ blocks_of (map seen items)) t' ?r" "0 < fuel'" by auto
  have "length (stream ?r) = 0" using stream_skip [OF str] by simp
  moreover have "in_bounds ?r" using in_bounds_skip [OF str assms(3)] .
  ultimately have "8 * length (rdata ?r) = bit_pos ?r" by (simp only: length_stream in_bounds_def)
  then have "bits_remaining p ?r = Inr 0" by (simp only: bits_remaining_def usize_sub_def) simp
  with step show ?thesis by (cases fuel') simp_all
qed

lemma parse_checked:
  assumes "check_module Map.empty items"
  shows "parse p (emit_module items) = Inr \<lparr>wrapper = None,
    detected_features = scan_known_air_tags (bytes_of (emit_items 2 0 items)), blocks = blocks_of (map seen items)\<rparr>"
proof -
  let ?body = "bytes_of (emit_items 2 0 items)"
  have "length (emit_items 2 0 items) mod 32 = 0" using emit_module_aligned [OF assms, of 0 2] by simp
  then have "length (emit_items 2 0 items) mod 8 = 0" by presburger
  note bits = bits_of_bytes_of [OF this]
  then have "stream (new_reader ?body) = emit_items 2 0 items" by (simp add: stream_def new_reader_def)
  moreover have "length (emit_items 2 0 items) < parse_fuel ?body"
    using arg_cong [OF bits, of length] by (simp add: parse_fuel_def)
  ultimately have "parse_top (parse_fuel ?body) p [] Map.empty (new_reader ?body) = Inr ([] @ blocks_of (map seen items))"
    using assms by (intro parse_top_module) (simp_all add: new_reader_def in_bounds_def)
  then have "parse_blocks p (emit_module items) = Inr ((?body, None), blocks_of (map seen items))"
    by (simp add: parse_blocks_def locate_bitstream_def emit_module_def RAW_BITCODE_MAGIC_def Let_def)
  then show ?thesis by (simp add: parse_def)
qed

section \<open>Modules without abbreviations\<close>

text \<open>
  The layout of a tree of blocks whose records come before the nested blocks, all of them unabbreviated.
\<close>

fun emit_block :: "nat \<Rightarrow> bitstream_block \<Rightarrow> bool list"
  and emit_blocks :: "nat \<Rightarrow> nat \<Rightarrow> bitstream_block list \<Rightarrow> bool list" where
  "emit_block pos (BitstreamBlock bid w rs bs) =
     (let h = put_vbr 8 bid @ put_vbr 4 (ucast w);
          h' = h @ pad (pos + length h);
          start = pos + length h' + 32;
          c = concat (map (emit_record (unat w)) rs);
          d = c @ emit_blocks (unat w) (start + length c) bs @ put (unat w) END_BLOCK;
          d' = d @ pad (start + length d)
      in h' @ put 32 (of_nat (length d' div 32)) @ d')"
| "emit_blocks w pos [] = []"
| "emit_blocks w pos (b # bs) =
     (let x = put w ENTER_SUBBLOCK @ emit_block (pos + w) b
      in x @ emit_blocks w (pos + length x) bs)"

fun wf_block :: "bitstream_block \<Rightarrow> bool" where
  "wf_block (BitstreamBlock bid w rs bs) \<longleftrightarrow>
     2 \<le> w \<and> w \<le> 64 \<and> list_all wf_record rs \<and> list_all wf_block bs"

text \<open>It is the document of the tree.\<close>

fun plain :: "bitstream_block \<Rightarrow> item" where
  "plain (BitstreamBlock bid w rs bs) = Nested bid w (map Plain rs @ map plain bs)"

lemma emit_plain_records:
  "emit_items w pos (map Plain rs @ items) =
     concat (map (emit_record w) rs) @ emit_items w (pos + length (concat (map (emit_record w) rs))) items"
  by (induction rs arbitrary: pos) (simp_all add: Let_def add.assoc)

lemma emit_plain:
  "plain b = Nested bid wd content \<Longrightarrow> emit_block pos b = body pos bid wd content"
  "emit_blocks w pos bs = emit_items w pos (map plain bs)"
proof (induction pos b and w pos bs arbitrary: bid wd content rule: emit_block_emit_blocks.induct)
  case (1 pos bid' wd' rs bs)
  then show ?case by (auto simp: body_def block_header_def Let_def emit_plain_records add.assoc)
next
  case (3 w pos b bs)
  obtain bid wd content where b: "plain b = Nested bid wd content" by (cases b) simp
  with 3 show ?case by (simp add: emit_nested Let_def del: emit_items.simps(5))
qed simp

lemma records_of_plain: "records_of (plain b # items) = records_of items"
  by (cases b) simp

lemma plain_meaning: "records_of (map Plain rs @ map plain bs) = rs" "blocks_of (map Plain rs @ map plain bs) = bs"
proof -
  have block: "blocks_of (plain b # items) = b # blocks_of items" for b items
  proof (induction b arbitrary: items)
    case (BitstreamBlock bid w rs bs)
    then have "blocks_of (map plain bs) = bs" by (induction bs) simp_all
    moreover have "records_of (map plain bs) = []" by (induction bs) (simp_all add: records_of_plain)
    ultimately show ?case by (induction rs) simp_all
  qed
  have "records_of (map plain bs) = []" by (induction bs) (simp_all add: records_of_plain)
  then show "records_of (map Plain rs @ map plain bs) = rs" by (induction rs) simp_all
  have "blocks_of (map plain bs) = bs" by (induction bs) (simp_all add: block)
  then show "blocks_of (map Plain rs @ map plain bs) = bs" by (induction rs) simp_all
qed

lemma seen_plain: "seen (plain b) = plain b"
  by (induction b) (simp add: list_all_iff)

lemma check_plain:
  "wf_block b \<Longrightarrow> check_items bid w loc target t (plain b # items) = check_items bid w loc target t items"
proof (induction b arbitrary: bid w loc target t items)
  case (BitstreamBlock sub wd rs bs)
  have blocks: "check_items bid w loc target t (map plain bs) = Some t" for bid w loc target t
    using BitstreamBlock by (induction bs) simp_all
  have "list_all wf_record rs" using BitstreamBlock.prems by simp
  then have "check_items bid w loc target t (map Plain rs @ map plain bs) = Some t" for bid w loc target t
    by (induction rs arbitrary: target) (simp_all add: blocks)
  with BitstreamBlock.prems show ?case by simp
qed

section \<open>A document\<close>

text \<open>
  A block info block registers an abbreviation with a blob for blocks of id 8; the block then defines another one,
  with an array. And one with an array of characters.
\<close>

definition sample_blob :: abbrev_def where
  "sample_blob = AbbrevDef [Literal 7, Vbr 6, Blob]"

definition sample_array :: abbrev_def where
  "sample_array = AbbrevDef [Fixed 3, Array, Vbr 6]"

definition sample_document :: "item list" where
  "sample_document =
     [Nested 0 2 [Plain \<lparr>rec_abbrev_id = 3, rec_code = 1, rec_operands = [8], rec_blob = []\<rparr>, Define sample_blob],
      Nested 8 3
        [Abbreviated sample_blob
           \<lparr>rec_abbrev_id = 4, rec_code = 7, rec_operands = [2], rec_blob = ascii ''air.argument_buffer''\<rparr>,
         Define sample_array,
         Nested 8 4 [Abbreviated sample_blob
           \<lparr>rec_abbrev_id = 4, rec_code = 7, rec_operands = [9], rec_blob = ascii ''my_buffer_index''\<rparr>],
         Abbreviated sample_array \<lparr>rec_abbrev_id = 5, rec_code = 5, rec_operands = [1, 2, 630], rec_blob = []\<rparr>]]"

lemma sample_document_ok: "check_module Map.empty sample_document"
  by (simp add: sample_document_def sample_blob_def sample_array_def wf_record_def in_force_def get_def first_def
      registered_def register_def fields_of_def bitstream_ids ascii_def)

definition sample_text :: abbrev_def where
  "sample_text = AbbrevDef [Fixed 3, Array, Char6]"

definition text_document :: "item list" where
  "text_document = [Nested 8 3 [Define sample_text, Abbreviated sample_text
     \<lparr>rec_abbrev_id = 4, rec_code = 5, rec_operands = map ucast (ascii ''air''), rec_blob = []\<rparr>]]"

lemma text_document_ok: "check_module Map.empty text_document"
  by (simp add: text_document_def sample_text_def in_force_def get_def registered_def fields_of_def bitstream_ids
      ascii_def CHAR6_def)

section \<open>Wrapped modules\<close>

text \<open>A raw module behind the wrapper header, with \<open>gap\<close> bytes before it and \<open>tail\<close> behind it.\<close>

definition wrap :: "u32 \<Rightarrow> u32 \<Rightarrow> u8 list \<Rightarrow> u8 list \<Rightarrow> u8 list \<Rightarrow> u8 list" where
  "wrap v cpu gap inner tail =
     u32_to_le_bytes BITCODE_WRAPPER_MAGIC @ u32_to_le_bytes v @
     u32_to_le_bytes (of_nat (20 + length gap)) @ u32_to_le_bytes (of_nat (length inner)) @
     u32_to_le_bytes cpu @ gap @ inner @ tail"

definition wrap_header :: "u32 \<Rightarrow> u32 \<Rightarrow> u8 list \<Rightarrow> u8 list \<Rightarrow> wrapper_header" where
  "wrap_header v cpu gap inner =
     \<lparr>version = v, offset = of_nat (20 + length gap), wsize = of_nat (length inner), cpu_type = cpu\<rparr>"

text \<open>The header as five little-endian words, read back one by one; the body behind it.\<close>

definition five_words :: "u32 \<Rightarrow> u32 \<Rightarrow> u32 \<Rightarrow> u32 \<Rightarrow> u32 \<Rightarrow> u8 list" where
  "five_words a b c d e =
     u32_to_le_bytes a @ u32_to_le_bytes b @ u32_to_le_bytes c @ u32_to_le_bytes d @ u32_to_le_bytes e"

lemma length_five_words [simp]: "length (five_words a b c d e) = 20"
  by (simp add: five_words_def u32_to_le_bytes_def)

lemma five_words_read:
  assumes "xs = five_words a b c d e @ ys"
  shows "u32_from_le_bytes (xs ! 0) (xs ! 1) (xs ! 2) (xs ! 3) = a"
    and "u32_from_le_bytes (xs ! 4) (xs ! 5) (xs ! 6) (xs ! 7) = b"
    and "u32_from_le_bytes (xs ! 8) (xs ! 9) (xs ! 10) (xs ! 11) = c"
    and "u32_from_le_bytes (xs ! 12) (xs ! 13) (xs ! 14) (xs ! 15) = d"
    and "u32_from_le_bytes (xs ! 16) (xs ! 17) (xs ! 18) (xs ! 19) = e"
  by (simp_all add: assms five_words_def u32_to_le_bytes_def u32_from_to_le_bytes)

lemma wrap_five_words:
  "wrap v cpu gap inner tail =
     five_words BITCODE_WRAPPER_MAGIC v (of_nat (20 + length gap)) (of_nat (length inner)) cpu
     @ gap @ inner @ tail"
  by (simp only: wrap_def five_words_def append_assoc)

lemma locate_wrapped:
  assumes "20 + length gap < 2 ^ 32" and "length inner < 2 ^ 32"
    and "4 \<le> length inner" "take 4 inner = RAW_BITCODE_MAGIC"
  shows "locate_bitstream (wrap v cpu gap inner tail) = Inr (inner, Some (wrap_header v cpu gap inner))"
proof -
  have len: "unat (of_nat (20 + length gap) :: u32) = 20 + length gap"
    "unat (of_nat (length inner) :: u32) = length inner"
    using assms(1,2) by (simp_all only: unat_of_nat) simp_all
  let ?data = "wrap v cpu gap inner tail"
  have data: "length ?data = 20 + length gap + length inner + length tail"
    "take (length inner) (drop (20 + length gap) ?data) = inner"
    by (simp_all only: wrap_five_words length_append length_five_words drop_append) simp_all
  have raw: "take 4 ?data \<noteq> RAW_BITCODE_MAGIC"
    by (simp add: wrap_def u32_to_le_bytes_def RAW_BITCODE_MAGIC_def BITCODE_WRAPPER_MAGIC_def)
  have stop: "\<not> (2 :: int) ^ 64 \<le> int (20 + length gap + length inner)" using assms(1,2) by simp
  have "20 \<le> length ?data" "\<not> length ?data < 20 + length gap + length inner" using data(1) by simp_all
  then show ?thesis
    unfolding locate_bitstream_def five_words_read [OF wrap_five_words] Let_def wrapper_header.simps len
      wrap_header_def
    using assms(3,4) data(2) raw stop by simp
qed

section \<open>Properties\<close>

text \<open>
  C1: Documents round-trip: whatever entries the writer of this theory lays out in the LLVM bitstream format
  (blocks nested to any depth, alignment, length words, records unabbreviated or written with the
  abbreviation in force under their id, arrays and blobs, abbreviations defined in the block or registered by a
  \<^verbatim>\<open>BLOCKINFO\<close> block), \<^verbatim>\<open>parse\<close> returns the records and blocks they stand for, in both profiles,
  as long as no record is written with characters of six bits.
\<close>

theorem document_roundtrip:
  assumes "check_module Map.empty items" and "list_all char6_free items"
  shows "\<exists>features. parse p (emit_module items) =
    Inr \<lparr>wrapper = None, detected_features = features, blocks = blocks_of items\<rparr>"
proof -
  have "map seen items = items" using assms(2) by (auto simp: list_all_iff seen_same intro: map_idI)
  then show ?thesis using parse_checked [OF assms(1), of p] by simp
qed

theorem document_roundtrip_witness:
  "\<exists>m. parse Dev (emit_module sample_document) = Inr m \<and> length (blocks m) = 2 \<and>
     map rec_blob (records (blocks m ! 1)) = [ascii ''air.argument_buffer'', []]"
proof -
  have "list_all char6_free sample_document" by (simp add: sample_document_def sample_blob_def sample_array_def)
  from document_roundtrip [OF sample_document_ok this, of Dev] show ?thesis
    by (auto simp: sample_document_def sample_blob_def sample_array_def)
qed

text \<open>
  C33: Characters of six bits are not decoded. Of any document \<^verbatim>\<open>parse\<close> returns the blocks with LLVM's number of
  a character where its code belongs, and no character's number is its code, so every such value is wrong.
\<close>

theorem char6_undecoded:
  assumes "check_module Map.empty items"
  shows "(\<exists>features. parse p (emit_module items) =
      Inr \<lparr>wrapper = None, detected_features = features, blocks = blocks_of (map seen items)\<rparr>) \<and>
    list_all (\<lambda>c. seen_value Char6 c \<noteq> c) CHAR6"
  using parse_checked [OF assms, of p] char6_number_differs by simp

theorem char6_undecoded_witness:
  "\<exists>m. parse Dev (emit_module text_document) = Inr m \<and>
     map rec_operands (records (blocks m ! 0)) = [[0, 8, 17]]"
proof -
  have "map rec_operands (records (blocks_of (map seen text_document) ! 0)) = [[0, 8, 17]]"
    by (simp add: text_document_def sample_text_def seen_record_def fields_of_def char6_number_def CHAR6_def ascii_def)
  with char6_undecoded [OF text_document_ok, of Dev] show ?thesis by auto
qed

text \<open>The same for trees of blocks without abbreviations: the blocks come back as they were.\<close>

theorem module_roundtrip:
  assumes "list_all wf_block bs"
  shows "\<exists>features. parse p (RAW_BITCODE_MAGIC @ bytes_of (emit_blocks 2 0 bs))
    = Inr \<lparr>wrapper = None, detected_features = features, blocks = bs\<rparr>"
proof -
  have "check_module t (map plain bs)" for t
    using assms
  proof (induction bs)
    case (Cons b bs)
    then have "check_items 0 2 [] None t [plain b] = Some t" by (simp add: check_plain)
    with Cons show ?case by (cases b) (auto split: option.splits if_splits)
  qed simp
  from parse_checked [OF this, of p] show ?thesis
    using plain_meaning(2) [of "[]" bs] by (simp add: emit_module_def emit_plain seen_plain comp_def)
qed

definition sample_blocks :: "bitstream_block list" where
  "sample_blocks =
     [BitstreamBlock 8 3 [\<lparr>rec_abbrev_id = 3, rec_code = 5, rec_operands = [1, 1000000, 0], rec_blob = []\<rparr>]
        [BitstreamBlock 17 4 [] []], BitstreamBlock 23 5 [] []]"

theorem module_roundtrip_witness:
  "\<exists>m. parse Dev (RAW_BITCODE_MAGIC @ bytes_of (emit_blocks 2 0 sample_blocks)) = Inr m \<and> blocks m = sample_blocks"
proof -
  have "list_all wf_block sample_blocks" by (simp add: sample_blocks_def wf_record_def UNABBREV_RECORD_def)
  from module_roundtrip [OF this, of Dev] show ?thesis by auto
qed

text \<open>
  C28: The wrapper is transparent: a module behind a bitcode wrapper header, at any offset and with any
  bytes around it, parses (or fails) as the raw module does, but for the header it reports.
\<close>

theorem wrapped_parses_as_raw:
  assumes "20 + length gap < 2 ^ 32" and "length inner < 2 ^ 32"
    and "4 \<le> length inner" "take 4 inner = RAW_BITCODE_MAGIC"
  shows "parse p (wrap v cpu gap inner tail) =
    bnd (parse p inner) (\<lambda>m. Inr (m\<lparr>wrapper := Some (wrap_header v cpu gap inner)\<rparr>))"
proof -
  have "locate_bitstream inner = Inr (inner, None)" using assms(3,4) by (simp add: locate_bitstream_def)
  moreover have "\<not> length (wrap v cpu gap inner tail) < 4" by (simp add: wrap_def u32_to_le_bytes_def)
  ultimately show ?thesis
    using assms(3) by (simp add: parse_def parse_blocks_def locate_wrapped [OF assms] bnd_assoc Let_def)
qed

theorem wrapped_parses_as_raw_witness:
  "\<exists>m. parse Dev (wrap 0 7 [1, 2, 3] (RAW_BITCODE_MAGIC @ bytes_of (emit_blocks 2 0 sample_blocks)) [9]) = Inr m \<and>
     blocks m = sample_blocks"
proof -
  let ?inner = "RAW_BITCODE_MAGIC @ bytes_of (emit_blocks 2 0 sample_blocks)"
  have "length ?inner < 200" by code_simp
  then have ok: "length ?inner < 2 ^ 32" "4 \<le> length ?inner" "take 4 ?inner = RAW_BITCODE_MAGIC"
    by (simp_all only: RAW_BITCODE_MAGIC_def) simp_all
  have "list_all wf_block sample_blocks" by (simp add: sample_blocks_def wf_record_def UNABBREV_RECORD_def)
  from module_roundtrip [OF this, of Dev] wrapped_parses_as_raw [of "[1, 2, 3]", OF _ ok, of Dev 0 7 "[9]"]
  show ?thesis by auto
qed

end
