(* ===== verification/Transforms.thy ===== *)
theory Transforms
  imports AirTags
begin

text \<open>
  The metadata pass of \<^verbatim>\<open>src/shader_jit/transforms.rs\<close>, which walks the blocks of a parsed
  module and hands out descriptor bindings, and \<^verbatim>\<open>compile_air_to_spirv\<close> of
  \<^verbatim>\<open>src/shader_jit/mod.rs\<close>, which runs parser and pass. The walk is related to one fold
  over the records in pre-order, and the fold to the list of the names that get a binding.
\<close>

section \<open>The transformer\<close>

record binding_modifier =
  bset :: u32
  binding :: u32
  is_bindless :: bool
  is_non_uniform :: bool

record transform_result =
  transformed_spirv_patches :: "u32 list"
  binding_map :: "u8 list \<rightharpoonup> binding_modifier"
  requires_control_barrier_fix :: bool

definition default_result :: transform_result where
  "default_result = \<lparr>transformed_spirv_patches = [], binding_map = Map.empty,
     requires_control_barrier_fix = False\<rparr>"

record air_transformer =
  binding_counter :: u32

definition new_transformer :: air_transformer where
  "new_transformer = \<lparr>binding_counter = 0\<rparr>"

text \<open>The transformer (\<^verbatim>\<open>&mut self\<close>) and the result under construction are threaded together.\<close>

type_synonym tstate = "air_transformer \<times> transform_result"

definition analyze_record_metadata :: "profile \<Rightarrow> bool \<Rightarrow> bitstream_record \<Rightarrow> tstate \<Rightarrow> (air_error, tstate) outcome" where
  "analyze_record_metadata p has_ab record s =
     (let (self, result) = s;
          result = (if rec_code record = 5 \<or> rec_code record = 6
                    then result\<lparr>requires_control_barrier_fix := True\<rparr> else result)
      in if has_ab \<and> rec_blob record \<noteq> [] then
           (case from_utf8 (rec_blob record) of
              Some potential_name \<Rightarrow>
                if sublist (ascii ''argument_buffer'') potential_name \<or>
                   sublist (ascii ''buffer_index'') potential_name then
                  let current_binding = binding_counter self in
                  bnd (rust_add p (binding_counter self) 1) (\<lambda>counter.
                  Inr (self\<lparr>binding_counter := counter\<rparr>,
                       result\<lparr>binding_map := (binding_map result)(potential_name \<mapsto>
                         \<lparr>bset = 0, binding = current_binding, is_bindless = True,
                          is_non_uniform = True\<rparr>)\<rparr>))
                else Inr (self, result)
            | None \<Rightarrow> Inr (self, result))
         else Inr (self, result))"

fun process_block_transforms :: "profile \<Rightarrow> bool \<Rightarrow> bitstream_block \<Rightarrow> tstate \<Rightarrow> (air_error, tstate) outcome"
  and process_blocks :: "profile \<Rightarrow> bool \<Rightarrow> bitstream_block list \<Rightarrow> tstate \<Rightarrow> (air_error, tstate) outcome" where
  "process_block_transforms p has_ab (BitstreamBlock bid w rs bs) s =
     bnd (foldM (analyze_record_metadata p has_ab) rs s) (process_blocks p has_ab bs)"
| "process_blocks p has_ab [] s = Inr s"
| "process_blocks p has_ab (b # bs) s =
     bnd (process_block_transforms p has_ab b s) (process_blocks p has_ab bs)"

definition transform_module :: "profile \<Rightarrow> air_module \<Rightarrow> air_transformer
    \<Rightarrow> (air_error, transform_result \<times> air_transformer) outcome" where
  "transform_module p air self =
     (let has_argument_buffers = (ArgumentBufferUsage \<in> set (detected_features air))
      in bnd (process_blocks p has_argument_buffers (blocks air) (self, default_result)) (\<lambda>(self, result).
         Inr (result, self)))"

section \<open>The compiler entry point\<close>

fun le_words :: "u8 list \<Rightarrow> u32 list" where
  "le_words (b0 # b1 # b2 # b3 # bs) = u32_from_le_bytes b0 b1 b2 b3 # le_words bs"
| "le_words bs = []"

record shader_jit_context =
  transformer :: air_transformer

definition new_jit_context :: shader_jit_context where
  "new_jit_context = \<lparr>transformer = new_transformer\<rparr>"

definition compile_air_to_spirv :: "profile \<Rightarrow> u8 list \<Rightarrow> shader_jit_context
    \<Rightarrow> (air_error, u32 list option \<times> shader_jit_context) outcome" where
  "compile_air_to_spirv p air_bytecode self =
     (case parse p air_bytecode of
        Inl (Error _) \<Rightarrow> Inr (None, self)
      | Inl (Panic reason) \<Rightarrow> Inl (Panic reason)
      | Inl OutOfFuel \<Rightarrow> Inl OutOfFuel
      | Inr air_module \<Rightarrow>
          bnd (transform_module p air_module (transformer self)) (\<lambda>(transform_result, t).
          let self = self\<lparr>transformer := t\<rparr>
          in if transformed_spirv_patches transform_result \<noteq> []
             then Inr (Some (transformed_spirv_patches transform_result), self)
             else Inr (Some (le_words air_bytecode), self)))"

section \<open>The walk as one pass over the records\<close>

text \<open>The records of a module in the order the walk visits them.\<close>

fun block_records :: "bitstream_block \<Rightarrow> bitstream_record list"
  and blocks_records :: "bitstream_block list \<Rightarrow> bitstream_record list" where
  "block_records (BitstreamBlock bid w rs bs) = rs @ blocks_records bs"
| "blocks_records [] = []"
| "blocks_records (b # bs) = block_records b @ blocks_records bs"

lemma process_as_fold:
  "process_block_transforms p ab b s = foldM (analyze_record_metadata p ab) (block_records b) s"
  "process_blocks p ab bs s = foldM (analyze_record_metadata p ab) (blocks_records bs) s"
proof (induction b and bs arbitrary: s and s rule: block_records_blocks_records.induct)
  case (1 bid w rs bs)
  have "process_blocks p ab bs = foldM (analyze_record_metadata p ab) (blocks_records bs)"
    by (rule ext) (rule 1)
  then show ?case by (simp add: foldM_append)
next
  case (3 b bs)
  have "process_blocks p ab bs = foldM (analyze_record_metadata p ab) (blocks_records bs)"
    by (rule ext) (rule 3)
  then show ?case by (simp add: foldM_append 3)
qed simp

text \<open>The name a record is bound under, and the names of a list of records.\<close>

definition binding_name :: "bitstream_record \<Rightarrow> u8 list option" where
  "binding_name record =
     (if rec_blob record \<noteq> [] \<and> valid_utf8 (rec_blob record) \<and>
         (sublist (ascii ''argument_buffer'') (rec_blob record) \<or>
          sublist (ascii ''buffer_index'') (rec_blob record))
      then Some (rec_blob record) else None)"

fun binding_names :: "bitstream_record list \<Rightarrow> u8 list list" where
  "binding_names [] = []"
| "binding_names (r # rs) = (case binding_name r of Some n \<Rightarrow> [n] | None \<Rightarrow> []) @ binding_names rs"

definition is_barrier :: "bitstream_record \<Rightarrow> bool" where
  "is_barrier record \<longleftrightarrow> rec_code record = 5 \<or> rec_code record = 6"

text \<open>The map after the names are bound from \<open>c\<close> on: a name bound twice keeps the later binding.\<close>

fun bind_from :: "u32 \<Rightarrow> u8 list list \<Rightarrow> (u8 list \<rightharpoonup> binding_modifier) \<Rightarrow> u8 list \<rightharpoonup> binding_modifier" where
  "bind_from c [] m = m"
| "bind_from c (n # ns) m =
     bind_from (c + 1) ns (m(n \<mapsto> \<lparr>bset = 0, binding = c, is_bindless = True, is_non_uniform = True\<rparr>))"

definition mark_barrier :: "bool \<Rightarrow> transform_result \<Rightarrow> transform_result" where
  "mark_barrier b result = result\<lparr>requires_control_barrier_fix := requires_control_barrier_fix result \<or> b\<rparr>"

lemma analyze_cases:
  "analyze_record_metadata p ab record (self, result) =
     (case if ab then binding_name record else None of
        None \<Rightarrow> Inr (self, mark_barrier (is_barrier record) result)
      | Some n \<Rightarrow> bnd (rust_add p (binding_counter self) 1) (\<lambda>c.
          Inr (self\<lparr>binding_counter := c\<rparr>, (mark_barrier (is_barrier record) result)
            \<lparr>binding_map := bind_from (binding_counter self) [n] (binding_map result)\<rparr>)))"
  by (auto simp: analyze_record_metadata_def binding_name_def from_utf8_def is_barrier_def
      mark_barrier_def)

lemma fold_spec:
  assumes "ns = (if ab then binding_names rs else [])"
    and "p = Release \<or> unat (binding_counter self) + length ns < 2 ^ 32"
  shows "foldM (analyze_record_metadata p ab) rs (self, result) =
    Inr (self\<lparr>binding_counter := binding_counter self + of_nat (length ns)\<rparr>,
      (mark_barrier (list_ex is_barrier rs) result)
        \<lparr>binding_map := bind_from (binding_counter self) ns (binding_map result)\<rparr>)"
  using assms
proof (induction rs arbitrary: self result ns)
  case Nil
  then show ?case by (simp add: mark_barrier_def)
next
  case (Cons r rs)
  let ?ns = "if ab then binding_names rs else []"
  show ?case
  proof (cases "if ab then binding_name r else None")
    case None
    then have "ns = ?ns" using Cons.prems(1) by (auto split: if_splits)
    with Cons.IH [OF refl, of self "mark_barrier (is_barrier r) result"] Cons.prems(2) None
    show ?thesis by (simp add: analyze_cases) (simp add: mark_barrier_def disj_assoc)
  next
    case (Some n)
    then have ns: "ns = n # ?ns" using Cons.prems(1) by (auto split: if_splits)
    let ?c = "binding_counter self"
    have le: "p = Release \<or> unat ?c + unat (1 :: u32) < 2 ^ LENGTH(32)"
      using Cons.prems(2) ns by auto
    then have add: "rust_add p ?c 1 = Inr (?c + 1)" by (auto simp: rust_add_def)
    have "unat (?c + 1) + length ?ns < 2 ^ 32" if "p \<noteq> Release"
    proof -
      have "unat (?c + 1) = unat ?c + 1" using le that by (simp add: unat_word_ariths)
      then show ?thesis using that Cons.prems(2) ns by simp
    qed
    then have "p = Release \<or> unat (?c + 1) + length ?ns < 2 ^ 32" by blast
    moreover let ?self = "self\<lparr>binding_counter := ?c + 1\<rparr>"
      and ?result = "(mark_barrier (is_barrier r) result)
        \<lparr>binding_map := bind_from ?c [n] (binding_map result)\<rparr>"
    have "analyze_record_metadata p ab r (self, result) = Inr (?self, ?result)"
      by (simp only: analyze_cases Some option.case bnd_simps add)
    ultimately show ?thesis using Cons.IH [OF refl, of ?self ?result] ns
      by (simp only: foldM.simps bnd_simps)
        (simp add: mark_barrier_def disj_assoc add.assoc del: fun_upd_apply)
  qed
qed

text \<open>The names a module binds.\<close>

definition module_names :: "air_module \<Rightarrow> u8 list list" where
  "module_names air =
     (if ArgumentBufferUsage \<in> set (detected_features air) then binding_names (blocks_records (blocks air))
      else [])"

lemma transform_module_spec:
  assumes "p = Release \<or> unat (binding_counter self) + length (module_names air) < 2 ^ 32"
  shows "transform_module p air self =
    Inr (\<lparr>transformed_spirv_patches = [],
          binding_map = bind_from (binding_counter self) (module_names air) Map.empty,
          requires_control_barrier_fix = list_ex is_barrier (blocks_records (blocks air))\<rparr>,
         self\<lparr>binding_counter := binding_counter self + of_nat (length (module_names air))\<rparr>)"
  using fold_spec [OF module_names_def [of air] assms, of default_result]
  unfolding transform_module_def Let_def process_as_fold
  by (simp only: bnd_simps prod.case) (simp add: default_result_def mark_barrier_def)

text \<open>Without the arithmetic condition: whatever the pass returns has no patches.\<close>

lemma analyze_patches:
  "analyze_record_metadata p ab record (self, result) = Inr (self', result') \<Longrightarrow>
     transformed_spirv_patches result' = transformed_spirv_patches result"
  by (auto simp: analyze_cases mark_barrier_def bnd_Inr_iff split: option.splits)

lemma fold_patches:
  "foldM (analyze_record_metadata p ab) rs (self, result) = Inr (self', result') \<Longrightarrow>
     transformed_spirv_patches result' = transformed_spirv_patches result"
  by (induction rs arbitrary: self result)
    (auto simp: bnd_Inr_iff dest: analyze_patches)

lemma transform_patches:
  "transform_module p air self = Inr (result, self') \<Longrightarrow> transformed_spirv_patches result = []"
  by (auto simp: transform_module_def Let_def process_as_fold bnd_Inr_iff default_result_def
      dest!: fold_patches)

lemma fold_no_other_fault:
  "foldM (analyze_record_metadata p ab) rs s = Inl e \<Longrightarrow> p = Dev \<and> e = Panic ArithOverflow"
  by (induction rs arbitrary: s)
    (auto simp: bnd_Inl_iff analyze_cases split: option.splits if_splits dest: rust_arith_Inl)

section \<open>The bindings handed out\<close>

lemma bind_from_dom: "dom (bind_from c ns m) = dom m \<union> set ns"
  by (induction ns arbitrary: c m) auto

lemma bind_from_range:
  assumes "bind_from c ns m k = Some b" and "unat c + length ns \<le> 2 ^ 32"
  shows "m k = Some b \<or> (k \<in> set ns \<and> unat c \<le> unat (binding b) \<and> unat (binding b) < unat c + length ns)"
  using assms
proof (induction ns arbitrary: c m)
  case (Cons n ns)
  show ?case
  proof (cases "ns = []")
    case True
    then show ?thesis using Cons.prems by (auto split: if_splits)
  next
    case False
    then have c: "unat (c + 1) = unat c + 1"
      using Cons.prems(2) by (cases ns) (simp_all add: unat_word_ariths)
    from Cons.IH [OF _ _] Cons.prems c show ?thesis by (fastforce split: if_splits)
  qed
qed simp

lemma bind_from_inj:
  assumes "bind_from c ns m k = Some b" "bind_from c ns m k' = Some b'" "binding b = binding b'"
    and "unat c + length ns \<le> 2 ^ 32" and "\<And>k b. m k = Some b \<Longrightarrow> unat (binding b) < unat c"
    and "\<And>k k' b b'. m k = Some b \<Longrightarrow> m k' = Some b' \<Longrightarrow> binding b = binding b' \<Longrightarrow> k = k'"
  shows "k = k'"
  using assms
proof (induction ns arbitrary: c m)
  case Nil
  then show ?case by simp
next
  case (Cons n ns)
  show ?case
  proof (cases "ns = []")
    case True
    then show ?thesis using Cons.prems by (fastforce split: if_splits)
  next
    case False
    then have c: "unat (c + 1) = unat c + 1"
      using Cons.prems(4) by (cases ns) (simp_all add: unat_word_ariths)
    let ?m = "m(n \<mapsto> \<lparr>bset = 0, binding = c, is_bindless = True, is_non_uniform = True\<rparr>)"
    show ?thesis
    proof (rule Cons.IH [of "c + 1" ?m])
      show "unat (binding b) < unat (c + 1)" if "?m k = Some b" for k b
        using that Cons.prems(5) c by (fastforce split: if_splits)
      show "k = k'" if "?m k = Some b" "?m k' = Some b'" "binding b = binding b'" for k k' b b'
        using that Cons.prems(5,6) by (fastforce split: if_splits)
    qed (use Cons.prems c in \<open>simp_all del: fun_upd_apply\<close>)
  qed
qed

section \<open>What the compiler returns\<close>

lemma le_words_bytes: "concat (map u32_to_le_bytes (le_words bs)) = take (4 * (length bs div 4)) bs"
proof (induction bs rule: le_words.induct)
  case (1 b0 b1 b2 b3 bs)
  have "4 * (length (b0 # b1 # b2 # b3 # bs) div 4) = Suc (Suc (Suc (Suc (4 * (length bs div 4)))))"
    by (simp only: list.size) presburger
  with 1 show ?case by (simp only: le_words.simps list.map concat.simps u32_le_bytes_inverse
    take_Suc_Cons append.simps)
qed simp_all

lemma compile_words:
  "compile_air_to_spirv p bytes self = Inr (Some ws, self') \<Longrightarrow> ws = le_words bytes"
  by (auto simp: compile_air_to_spirv_def bnd_Inr_iff transform_patches Let_def
      split: sum.splits fault.splits if_splits)

text \<open>The first word of an accepted input: one of the two bitcode magics.\<close>

lemma parse_magic:
  assumes "parse p bytes = Inr m"
  shows "\<exists>ws. le_words bytes = 0xDEC04342 # ws \<or> le_words bytes = BITCODE_WRAPPER_MAGIC # ws"
proof -
  from assms obtain x where "locate_bitstream bytes = Inr x"
    by (auto simp: parse_def parse_blocks_def bnd_Inr_iff split: if_splits)
  then consider (raw) "4 \<le> length bytes" "take 4 bytes = RAW_BITCODE_MAGIC"
    | (wrapped) "4 \<le> length bytes"
        "u32_from_le_bytes (bytes ! 0) (bytes ! 1) (bytes ! 2) (bytes ! 3) = BITCODE_WRAPPER_MAGIC"
    by (auto simp: locate_bitstream_def split: if_splits)
  then show ?thesis
  proof cases
    case raw
    then have "bytes = RAW_BITCODE_MAGIC @ drop 4 bytes" by (metis append_take_drop_id)
    then obtain rest where "bytes = [0x42, 0x43, 0xC0, 0xDE] @ rest" by (auto simp: RAW_BITCODE_MAGIC_def)
    moreover have "u32_from_le_bytes 0x42 0x43 0xC0 0xDE = 0xDEC04342"
      by (simp add: u32_from_le_bytes_eq u32_to_le_bytes_def)
    ultimately show ?thesis by (simp, blast)
  next
    case wrapped
    then obtain b0 b1 b2 b3 rest where "bytes = b0 # b1 # b2 # b3 # rest"
      by (auto simp: numeral_eq_Suc Suc_le_length_iff)
    with wrapped(2) show ?thesis by (simp add: numeral_eq_Suc) blast
  qed
qed

lemma compile_accepts:
  "compile_air_to_spirv p bytes self = Inr (Some ws, self') \<Longrightarrow> \<exists>m. parse p bytes = Inr m"
  by (auto simp: compile_air_to_spirv_def split: sum.splits fault.splits)

text \<open>The bindings of one module, as numbers.\<close>

definition bindings :: "transform_result \<Rightarrow> nat set" where
  "bindings result = (\<lambda>b. unat (binding b)) ` ran (binding_map result)"

lemma bindings_range:
  assumes "unat (binding_counter self) + length (module_names air) < 2 ^ 32"
    and "transform_module p air self = Inr (result, self')"
  shows "bindings result \<subseteq> {unat (binding_counter self) ..< unat (binding_counter self')}"
    and "unat (binding_counter self') = unat (binding_counter self) + length (module_names air)"
proof -
  let ?c = "binding_counter self" and ?n = "length (module_names air)"
  have res: "binding_map result = bind_from ?c (module_names air) Map.empty"
    "binding_counter self' = ?c + of_nat ?n"
    using transform_module_spec [of p self air] assms by auto
  show next_counter: "unat (binding_counter self') = unat ?c + ?n"
    using assms(1) res(2) by (simp add: unat_word_ariths unat_of_nat)
  show "bindings result \<subseteq> {unat ?c ..< unat (binding_counter self')}"
    unfolding next_counter using bind_from_range [of ?c "module_names air" Map.empty] res(1) assms(1)
    by (fastforce simp: bindings_def ran_def)
qed

section \<open>Properties\<close>

text \<open>
  C13: What the metadata pass computes, over the records of a module in pre-order: no patches; a binding
  for every record whose blob is valid UTF-8 and contains one of the two tags, numbered from the counter
  in visiting order, when the module uses argument buffers at all; the barrier flag when some record has
  code 5 or 6; and the counter moved on by the number of names.
\<close>

theorem metadata_pass:
  assumes "p = Release \<or> unat (binding_counter self) + length (module_names air) < 2 ^ 32"
  shows "transform_module p air self =
    Inr (\<lparr>transformed_spirv_patches = [],
          binding_map = bind_from (binding_counter self) (module_names air) Map.empty,
          requires_control_barrier_fix = list_ex is_barrier (blocks_records (blocks air))\<rparr>,
         self\<lparr>binding_counter := binding_counter self + of_nat (length (module_names air))\<rparr>)"
  using assms by (rule transform_module_spec)

definition sample_record :: "u64 \<Rightarrow> string \<Rightarrow> bitstream_record" where
  "sample_record code name = \<lparr>rec_abbrev_id = 4, rec_code = code, rec_operands = [], rec_blob = ascii name\<rparr>"

definition sample_air :: air_module where
  "sample_air = \<lparr>wrapper = None, detected_features = [ArgumentBufferUsage],
     blocks = [BitstreamBlock 8 3 [sample_record 1 ''argument_buffer'']
       [BitstreamBlock 9 3 [sample_record 5 ''my_buffer_index''] []]]\<rparr>"

lemma sample_names: "module_names sample_air = [ascii ''argument_buffer'', ascii ''my_buffer_index'']"
  by code_simp

theorem metadata_pass_witness:
  "\<exists>result. transform_module Dev sample_air new_transformer = Inr (result, \<lparr>binding_counter = 2\<rparr>) \<and>
     map_option binding (binding_map result (ascii ''my_buffer_index'')) = Some 1 \<and>
     requires_control_barrier_fix result"
proof -
  have names: "ascii ''argument_buffer'' \<noteq> ascii ''my_buffer_index''" by code_simp
  have barrier: "list_ex is_barrier (blocks_records (blocks sample_air))" by code_simp
  show ?thesis
    using metadata_pass [of Dev new_transformer sample_air] names barrier
    by (simp add: sample_names new_transformer_def del: fun_upd_apply) (simp add: names)
qed

text \<open>
  C35: The bindings handed out are fresh, as long as the 32-bit counter does not wrap: within a module,
  two names never share one; and two modules that go through one transformer, whose counter is never
  reset, get disjoint sets of bindings.
\<close>

theorem bindings_fresh:
  assumes "unat (binding_counter self) + length (module_names air) + length (module_names air') < 2 ^ 32"
    and "transform_module p air self = Inr (result, self1)"
    and "transform_module p air' self1 = Inr (result', self2)"
  shows "dom (binding_map result) = set (module_names air) \<and> inj_on (map_option binding \<circ> binding_map result)
      (dom (binding_map result)) \<and> bindings result \<inter> bindings result' = {}"
proof (intro conjI inj_onI)
  have fits: "unat (binding_counter self) + length (module_names air) < 2 ^ 32" using assms(1) by simp
  then have map: "binding_map result = bind_from (binding_counter self) (module_names air) Map.empty"
    using transform_module_spec [of p self air] assms(2) by auto
  show "dom (binding_map result) = set (module_names air)" by (simp add: map bind_from_dom)
  show "k = k'" if "k \<in> dom (binding_map result)" "k' \<in> dom (binding_map result)"
    "(map_option binding \<circ> binding_map result) k = (map_option binding \<circ> binding_map result) k'" for k k'
    using that bind_from_inj [of "binding_counter self" "module_names air" Map.empty k _ k'] fits
    by (auto simp: map)
  note first = bindings_range [OF fits assms(2)]
  have "unat (binding_counter self1) + length (module_names air') < 2 ^ 32"
    using assms(1) first(2) by simp
  from bindings_range(1) [OF this assms(3)] first(1) show "bindings result \<inter> bindings result' = {}"
    by fastforce
qed

theorem bindings_fresh_witness:
  "\<exists>r1 s1 r2 s2. transform_module Dev sample_air new_transformer = Inr (r1, s1) \<and>
     transform_module Dev sample_air s1 = Inr (r2, s2) \<and> bindings r1 \<inter> bindings r2 = {}"
proof -
  have ok: "unat (binding_counter new_transformer) + length (module_names sample_air)
      + length (module_names sample_air) < 2 ^ 32"
    by (simp add: sample_names new_transformer_def)
  have "\<exists>r s. transform_module Dev sample_air new_transformer = Inr (r, s) \<and> binding_counter s = 2"
    using transform_module_spec [of Dev new_transformer sample_air]
    by (simp add: sample_names new_transformer_def)
  then obtain r1 s1 where one: "transform_module Dev sample_air new_transformer = Inr (r1, s1)"
    and "binding_counter s1 = 2" by blast
  then obtain r2 s2 where two: "transform_module Dev sample_air s1 = Inr (r2, s2)"
    using transform_module_spec [of Dev s1 sample_air] by (simp add: sample_names)
  from bindings_fresh [OF ok one two] one two show ?thesis by blast
qed

text \<open>
  What \<^verbatim>\<open>compile_air_to_spirv\<close> returns is the input itself, cut into little-endian
  words (an incomplete last word is dropped): it never begins with the SPIR-V magic number, so no
  successful compilation is a SPIR-V module.
\<close>

theorem compile_is_not_spirv:
  assumes "compile_air_to_spirv p bytes self = Inr (Some ws, self')"
  shows "concat (map u32_to_le_bytes ws) = take (4 * (length bytes div 4)) bytes \<and>
    (\<exists>w ws'. ws = w # ws' \<and> w \<noteq> 0x07230203)"
proof -
  obtain m where "parse p bytes = Inr m" using compile_accepts [OF assms] by blast
  from parse_magic [OF this] show ?thesis
    by (auto simp: compile_words [OF assms] le_words_bytes BITCODE_WRAPPER_MAGIC_def)
qed

theorem compile_is_not_spirv_witness:
  "\<exists>ws self'. compile_air_to_spirv Dev RAW_BITCODE_MAGIC new_jit_context = Inr (Some ws, self') \<and>
     concat (map u32_to_le_bytes ws) = RAW_BITCODE_MAGIC \<and> hd ws \<noteq> 0x07230203"
proof -
  have "compile_air_to_spirv Dev RAW_BITCODE_MAGIC new_jit_context = Inr (Some [0xDEC04342], new_jit_context)"
    by code_simp
  with compile_is_not_spirv [OF this] show ?thesis by (auto simp: RAW_BITCODE_MAGIC_def)
qed

end
