(* ===== verification/ShaderPipeline.thy ===== *)
theory ShaderPipeline
  imports AirFormat Transforms
begin

text \<open>
  From the document to the compiler: a module written in the full format goes through \<^verbatim>\<open>parse\<close>, the tag scan, the
  metadata pass and \<^verbatim>\<open>compile_air_to_spirv\<close>. A name in a blob lies in the bytes of the module as it is, since blobs
  are aligned; so the scan of the bytes, which knows nothing of records, finds the tags that are in blobs.
\<close>

section \<open>Blobs in the bytes of a module\<close>

definition aligned_in :: "nat \<Rightarrow> bool list \<Rightarrow> bool list \<Rightarrow> bool" where
  "aligned_in pos bs xs \<longleftrightarrow> (\<exists>pre post. bs = pre @ xs @ post \<and> (pos + length pre) mod 32 = 0)"

lemma aligned_shift: "aligned_in (pos + length before) bs xs \<Longrightarrow> aligned_in pos (before @ bs @ behind) xs"
proof -
  assume "aligned_in (pos + length before) bs xs"
  then obtain pre post where "bs = pre @ xs @ post" "(pos + length before + length pre) mod 32 = 0"
    by (auto simp: aligned_in_def)
  then show ?thesis unfolding aligned_in_def
    by (intro exI [of _ "before @ pre"] exI [of _ "post @ behind"]) (simp add: add.assoc)
qed

lemmas aligned_before = aligned_shift [where behind = "[]", simplified]
lemmas aligned_behind = aligned_shift [where before = "[]", simplified]

lemma blob_in_fields:
  "fits es vals blob \<Longrightarrow> blob \<noteq> [] \<Longrightarrow> aligned_in pos (put_fields pos es vals blob) (bits_of blob)"
proof (induction es arbitrary: pos vals)
  case (Cons e es)
  have scalar: ?case
    if "fits es (tl vals) blob"
      "put_fields pos (e # es) vals blob =
        put_field e (hd vals) @ put_fields (pos + length (put_field e (hd vals))) es (tl vals) blob"
    unfolding that(2) by (intro aligned_before Cons.IH that(1) Cons.prems(2))
  show ?case
  proof (cases e)
    case Blob
    let ?h = "put_vbr 6 (of_nat (length blob))"
    have "(pos + length (?h @ pad (pos + length ?h))) mod 32 = 0"
      using pad_aligned [of "pos + length ?h"] by (simp add: add.assoc)
    then have "aligned_in pos ((?h @ pad (pos + length ?h)) @ bits_of blob @ more) (bits_of blob)" for more
      unfolding aligned_in_def by (intro exI conjI) (rule refl)
    then show ?thesis using Blob by (simp add: Let_def)
  next
    case Array
    with Cons.prems show ?thesis by simp
  qed (rule scalar; use Cons.prems in \<open>simp del: put_vbr.simps\<close>)+
qed simp

lemma blob_in_items:
  "check_items bid w loc target t items = Some t' \<Longrightarrow>
    rc \<in> set (records_of items) \<union> set (blocks_records (blocks_of items)) \<Longrightarrow> rec_blob rc \<noteq> [] \<Longrightarrow>
    aligned_in pos (emit_items (unat w) pos items) (bits_of (rec_blob rc))"
proof (induction bid w loc target t items arbitrary: t' pos rule: check_items.induct)
  case (2 bid w loc target t d items)
  then have "aligned_in pos (emit_items (unat w) pos items) (bits_of (rec_blob rc))" for pos
    by (cases "bid = BLOCKINFO_BLOCK_ID") (auto split: if_splits)
  then show ?case unfolding emit_items.simps Let_def by (rule aligned_before)
next
  case (3 bid w loc target t rc' items)
  then have "wf_record rc'" by (auto split: if_splits)
  with 3 have "aligned_in pos (emit_items (unat w) pos items) (bits_of (rec_blob rc))" for pos
    by (auto simp: wf_record_def)
  then show ?case unfolding emit_items.simps Let_def by (rule aligned_before)
next
  case (4 bid w loc target t d rc' items)
  then have ok: "in_force w loc rc' d" "fits (ops d) (fields_of rc') (rec_blob rc')"
    "check_items bid w loc target t items = Some t'" by (auto split: if_splits)
  show ?case
  proof (cases "rc = rc'")
    case True
    with blob_in_fields [OF ok(2)] 4(4)
    have "aligned_in (pos + length (put (unat w) (rec_abbrev_id rc')))
        (put_fields (pos + unat w) (ops d) (fields_of rc') (rec_blob rc')) (bits_of (rec_blob rc))" by simp
    then show ?thesis unfolding emit_items.simps Let_def by (rule aligned_behind [OF aligned_before])
  next
    case False
    with 4 ok have "aligned_in pos (emit_items (unat w) pos items) (bits_of (rec_blob rc))" for pos by auto
    then show ?thesis unfolding emit_items.simps Let_def by (rule aligned_before)
  qed
next
  case (5 bid w loc target t sub width content items)
  then obtain t1 where width: "2 \<le> width \<and> width \<le> 64"
    and t1: "check_items sub width (registered t sub) None t content = Some t1"
    and rest: "check_items bid w loc target t1 items = Some t'"
    by (auto split: if_splits option.splits)
  from 5(4) consider "rc \<in> set (records_of content) \<union> set (blocks_records (blocks_of content))"
    | "rc \<in> set (records_of items) \<union> set (blocks_records (blocks_of items))" by auto
  then show ?case
  proof cases
    case 1
    then have "aligned_in pos (emit_items (unat width) pos content) (bits_of (rec_blob rc))" for pos
      using 5(1) [OF width t1 _ 5(5)] by blast
    then have "aligned_in pos (body pos sub width content) (bits_of (rec_blob rc))" for pos
      unfolding body_def Let_def append_assoc
      by (intro aligned_before [of _ "block_header _ _ _"] aligned_before [of _ "put 32 _"]) (simp add: aligned_behind)
    then have "aligned_in (pos + length (put (unat w) ENTER_SUBBLOCK)) (body (pos + unat w) sub width content)
        (bits_of (rec_blob rc))" by simp
    then show ?thesis
      unfolding emit_nested Let_def by (rule aligned_behind [OF aligned_before])
  next
    case 2
    then have "aligned_in pos (emit_items (unat w) pos items) (bits_of (rec_blob rc))" for pos
      using 5(2) [OF width t1 rest _ 5(5)] by blast
    then show ?thesis unfolding emit_nested Let_def by (rule aligned_before)
  qed
qed simp

lemma check_module_items: "check_module t items \<Longrightarrow> check_items bid 2 loc target t items \<noteq> None"
  by (induction t items rule: check_module.induct) (auto split: option.splits)

lemma blob_in_module:
  "check_module t items \<Longrightarrow> rc \<in> set (blocks_records (blocks_of items)) \<Longrightarrow> rec_blob rc \<noteq> [] \<Longrightarrow>
    aligned_in pos (emit_items 2 pos items) (bits_of (rec_blob rc))"
proof -
  assume "check_module t items" and rc: "rc \<in> set (blocks_records (blocks_of items))" "rec_blob rc \<noteq> []"
  from check_module_items [OF this(1)] obtain t' where "check_items 0 2 [] None t items = Some t'" by blast
  from blob_in_items [OF this _ rc(2)] rc(1) show ?thesis by simp
qed

lemma bits_of_inj: "bits_of xs = bits_of ys \<Longrightarrow> xs = ys"
proof (induction xs arbitrary: ys)
  case Nil
  then show ?case by (cases ys) (simp_all add: bits_of_def)
next
  case (Cons x xs)
  then obtain y zs where ys: "ys = y # zs" by (cases ys) (simp_all add: bits_of_def)
  with Cons.prems have "map (bit x) [0..<8] @ bits_of xs = map (bit y) [0..<8] @ bits_of zs"
    by (simp only: bits_of_def list.map concat.simps)
  then have "map (bit x) [0..<8] = map (bit y) [0..<8] \<and> bits_of xs = bits_of zs"
    by (subst (asm) append_eq_append_conv) (simp_all only: length_map simp_thms)
  then have bits: "map (bit x) [0..<8] = map (bit y) [0..<8]" and "bits_of xs = bits_of zs" by blast+
  moreover have "x = y"
  proof (rule bit_word_eqI)
    fix n assume "n < LENGTH(8)"
    with bits show "bit x n \<longleftrightarrow> bit y n" by (simp add: map_eq_conv)
  qed
  ultimately show ?case using Cons.IH ys by blast
qed

lemma aligned_bytes:
  assumes "aligned_in 0 bs (bits_of blob)" and "length bs mod 8 = 0"
  shows "sublist blob (bytes_of bs)"
proof -
  obtain pre post where bs: "bs = pre @ bits_of blob @ post" and "length pre mod 32 = 0"
    using assms(1) by (auto simp: aligned_in_def)
  then have pre: "length pre mod 8 = 0" by presburger
  then have post: "length post mod 8 = 0" using assms(2) bs by simp presburger
  have "bits_of (bytes_of pre @ blob @ bytes_of post) = bs"
    by (simp only: bits_of_append bits_of_bytes_of [OF pre] bits_of_bytes_of [OF post] bs)
  then have "bytes_of bs = bytes_of pre @ blob @ bytes_of post"
    by (intro bits_of_inj) (simp only: bits_of_bytes_of [OF assms(2)])
  then show ?thesis by simp
qed

lemma blob_detected:
  assumes "check_module Map.empty items" and "rc \<in> set (blocks_records (blocks_of items))"
    and "(tag, f) \<in> set TAGS" "sublist tag (rec_blob rc)"
  shows "f \<in> set (scan_known_air_tags (bytes_of (emit_items 2 0 items)))"
proof -
  have "rec_blob rc \<noteq> []" using assms(3,4) by (auto simp: TAGS_def ascii_def)
  moreover have "length (emit_items 2 0 items) mod 32 = 0" using emit_module_aligned [OF assms(1), of 0 2] by simp
  then have "length (emit_items 2 0 items) mod 8 = 0" by presburger
  ultimately have "sublist (rec_blob rc) (bytes_of (emit_items 2 0 items))"
    using blob_in_module [OF assms(1,2)] by (intro aligned_bytes)
  with assms(4) have "sublist tag (bytes_of (emit_items 2 0 items))" by (rule sublist_order.order_trans)
  then show ?thesis using assms(3) unfolding scan_raw by force
qed

lemma binding_names_set: "set (binding_names rs) = {n. \<exists>rc\<in>set rs. binding_name rc = Some n}"
  by (induction rs) (auto split: option.splits)

lemma name_bound:
  assumes "rc \<in> set rs" "sublist (ascii ''air.argument_buffer'') (rec_blob rc)" "valid_utf8 (rec_blob rc)"
  shows "rec_blob rc \<in> set (binding_names rs)"
proof -
  have "sublist (ascii ''argument_buffer'') (ascii ''air.argument_buffer'')"
    by code_simp
  then have "sublist (ascii ''argument_buffer'') (rec_blob rc)" using assms(2) by (rule sublist_order.order_trans)
  moreover from this have "rec_blob rc \<noteq> []" by (auto simp: ascii_def)
  ultimately have "binding_name rc = Some (rec_blob rc)" using assms(3) by (simp add: binding_name_def)
  with assms(1) show ?thesis unfolding binding_names_set by blast
qed

text \<open>The parser sees every blob as it is, whatever it makes of characters of six bits.\<close>

lemma seen_blobs:
  "map rec_blob (records_of (map seen items)) = map rec_blob (records_of items)"
  by (induction items rule: records_of.induct) simp_all

lemma seen_blocks_blobs:
  "map rec_blob (blocks_records (blocks_of (map seen items))) = map rec_blob (blocks_records (blocks_of items))"
  by (induction items rule: blocks_of.induct) (simp_all add: seen_blobs)

lemma binding_names_blobs: "map rec_blob rs = map rec_blob ss \<Longrightarrow> binding_names rs = binding_names ss"
proof (induction rs arbitrary: ss)
  case (Cons rc rs)
  then obtain sc ss' where "ss = sc # ss'" "rec_blob rc = rec_blob sc" "map rec_blob rs = map rec_blob ss'"
    by (auto simp: Cons_eq_map_conv)
  with Cons.IH show ?case by (simp add: binding_name_def)
qed simp

section \<open>Properties\<close>

text \<open>
  C5: From the bytes to the bindings. Take a module of the full format in which the blob of some record, at any
  depth, contains the tag of argument buffers. Then the metadata pass gives a binding to every record whose blob is a
  name, numbered from the counter in the order of the records, the tagged one among them if it is valid UTF-8;
  compiling the module moves the counter on by the number of names, and returns the words of the module itself. (The
  blocks parsed are those of the document, but for undecoded characters of six bits, which no name depends on.)
\<close>

theorem compile_document:
  assumes "check_module Map.empty items"
    and "rc \<in> set (blocks_records (blocks_of items))" "sublist (ascii ''air.argument_buffer'') (rec_blob rc)"
    and "p = Release \<or> unat (binding_counter (transformer ctx)) +
      length (binding_names (blocks_records (blocks_of items))) < 2 ^ 32"
  shows "\<exists>m result. parse p (emit_module items) = Inr m \<and> blocks m = blocks_of (map seen items) \<and>
      transform_module p m (transformer ctx) = Inr (result, \<lparr>binding_counter =
        binding_counter (transformer ctx) + of_nat (length (binding_names (blocks_records (blocks_of items))))\<rparr>) \<and>
      binding_map result =
        bind_from (binding_counter (transformer ctx)) (binding_names (blocks_records (blocks_of items))) Map.empty \<and>
      (valid_utf8 (rec_blob rc) \<longrightarrow> rec_blob rc \<in> dom (binding_map result)) \<and>
      compile_air_to_spirv p (emit_module items) ctx = Inr (Some (le_words (emit_module items)),
        ctx\<lparr>transformer := \<lparr>binding_counter =
          binding_counter (transformer ctx) + of_nat (length (binding_names (blocks_records (blocks_of items))))\<rparr>\<rparr>)"
proof -
  let ?m = "\<lparr>wrapper = None, detected_features = scan_known_air_tags (bytes_of (emit_items 2 0 items)),
    blocks = blocks_of (map seen items)\<rparr>"
  let ?t = "transformer ctx" and ?names = "binding_names (blocks_records (blocks_of items))"
  note parsed = parse_checked [OF assms(1), of p]
  have "(ascii ''air.argument_buffer'', ArgumentBufferUsage) \<in> set TAGS" by (simp add: TAGS_def)
  from blob_detected [OF assms(1,2) this assms(3)] have names: "module_names ?m = ?names"
    using binding_names_blobs [OF seen_blocks_blobs] by (simp add: module_names_def)
  obtain result where pass: "transform_module p ?m ?t = Inr (result, \<lparr>binding_counter = binding_counter ?t + of_nat (length ?names)\<rparr>)"
    and map: "binding_map result = bind_from (binding_counter ?t) ?names Map.empty" "transformed_spirv_patches result = []"
    using transform_module_spec [of p ?t ?m] assms(4) names by simp
  have "rec_blob rc \<in> dom (binding_map result)" if "valid_utf8 (rec_blob rc)"
    using name_bound [OF assms(2,3) that] by (simp add: map bind_from_dom)
  moreover have "compile_air_to_spirv p (emit_module items) ctx = Inr (Some (le_words (emit_module items)),
      ctx\<lparr>transformer := \<lparr>binding_counter = binding_counter ?t + of_nat (length ?names)\<rparr>\<rparr>)"
    using pass map by (simp add: compile_air_to_spirv_def Let_def parsed)
  ultimately show ?thesis using parsed pass map by (intro exI [of _ ?m] exI [of _ result]) simp
qed

theorem compile_document_witness:
  "\<exists>ws. compile_air_to_spirv Dev (emit_module sample_document) new_jit_context =
     Inr (Some ws, \<lparr>transformer = \<lparr>binding_counter = 2\<rparr>\<rparr>)"
proof -
  let ?rc = "\<lparr>rec_abbrev_id = 4, rec_code = 7, rec_operands = [2], rec_blob = ascii ''air.argument_buffer''\<rparr>"
  have names: "binding_names (blocks_records (blocks_of sample_document)) = [ascii ''air.argument_buffer'', ascii ''my_buffer_index'']"
    by code_simp
  have "?rc \<in> set (blocks_records (blocks_of sample_document))" by (simp add: sample_document_def)
  from compile_document [OF sample_document_ok this, of Dev new_jit_context] show ?thesis
    by (simp add: names new_jit_context_def new_transformer_def) blast
qed

end
