(* ===== verification/AirSafety.thy ===== *)
theory AirSafety
  imports AirTags
begin

text \<open>
  When the AIR parser can crash. In a release build, on a body whose length is a multiple of four
  bytes, the only panic left is the capacity overflow of a vector sized by an operand count of the
  input; a body that is not such a multiple lets \<^verbatim>\<open>align32\<close> move the cursor past the end,
  and the next look at the bits left underflows (theory \<^verbatim>\<open>Truncation\<close> has the modules this happens to).
\<close>

section \<open>Word-aligned bodies in a release build\<close>

definition word_aligned :: "reader \<Rightarrow> bool" where
  "word_aligned r \<longleftrightarrow> in_bounds r \<and> length (rdata r) mod 4 = 0"

definition only_capacity :: "air_error fault \<Rightarrow> bool" where
  "only_capacity e \<longleftrightarrow> (\<forall>c. e = Panic c \<longrightarrow> c = CapacityOverflow)"

lemma only_capacity_simps [simp]:
  "only_capacity (Error e)" "only_capacity OutOfFuel"
  "only_capacity (Panic c) \<longleftrightarrow> c = CapacityOverflow"
  by (simp_all add: only_capacity_def)

locale release_op =
  fixes rop :: "reader \<Rightarrow> (air_error, 'a \<times> reader) outcome"
  assumes safe: "word_aligned r \<Longrightarrow> wp (rop r) (\<lambda>(x, r'). word_aligned r') only_capacity"
begin

lemma step:
  assumes "word_aligned r" and "\<And>x r'. rop r = Inr (x, r') \<Longrightarrow> word_aligned r' \<Longrightarrow> Q (x, r')"
  shows "wp (rop r) Q only_capacity"
  using safe [OF assms(1)] assms(2) by (auto intro: wp_mono)

lemma rep_safe: "word_aligned r \<Longrightarrow> wp (rep_read n rop r) (\<lambda>(xs, r'). word_aligned r') only_capacity"
proof (induction n arbitrary: r)
  case 0
  then show ?case by simp
next
  case (Suc n)
  then show ?case by (auto intro!: step wp_mono [OF Suc.IH])
qed

lemma rep_step:
  assumes "word_aligned r"
    and "\<And>xs r'. rep_read n rop r = Inr (xs, r') \<Longrightarrow> word_aligned r' \<Longrightarrow> Q (xs, r')"
  shows "wp (rep_read n rop r) Q only_capacity"
  using rep_safe [OF assms(1)] assms(2) by (auto intro: wp_mono)

end

lemma round_up_32:
  assumes "a \<le> 32 * k"
  shows "a + (32 - a mod 32) \<le> 32 * k \<or> a mod 32 = (0 :: nat)"
proof (cases "a mod 32 = 0")
  case False
  have "a = 32 * (a div 32) + a mod 32" by simp
  with assms False have "a div 32 < k" by linarith
  then have "32 * (a div 32) + 32 \<le> 32 * k" by simp
  moreover have "a + (32 - a mod 32) = 32 * (a div 32) + 32"
    using \<open>a = 32 * (a div 32) + a mod 32\<close> mod_less_divisor [of 32 a] by linarith
  ultimately show ?thesis by simp
qed simp

lemma word_aligned_align32 [simp]:
  assumes "word_aligned r"
  shows "word_aligned (align32 r)"
proof -
  obtain k where k: "length (rdata r) = 4 * k"
    using assms by (auto simp: word_aligned_def mod_0_imp_dvd elim!: dvdE)
  with assms have "bit_pos r \<le> 32 * k" by (simp add: word_aligned_def in_bounds_def)
  from round_up_32 [OF this] show ?thesis
    using assms k by (auto simp: word_aligned_def in_bounds_def align32_def Let_def)
qed

lemma word_aligned_remaining:
  assumes "word_aligned r" and "Q (int (8 * length (rdata r) - bit_pos r))"
  shows "wp (bits_remaining p r) Q E"
  using assms by (simp add: bits_remaining_def word_aligned_def in_bounds_def mult.commute of_nat_diff)

interpretation r_read: release_op "read Release w" for w
  by unfold_locales
    (auto simp: wp_def word_aligned_def only_capacity_def read_safe read_in_bounds_after
      split: sum.splits dest: read_advances)

interpretation r_vbr: release_op "read_vbr Release w" for w
  by unfold_locales
    (auto simp: wp_def word_aligned_def only_capacity_def read_vbr_release read_vbr_in_bounds_after
      split: sum.splits dest: read_vbr_forward simp: forward_def)

interpretation r_abbrev_op: release_op "read_abbrev_op Release"
  by unfold_locales (auto simp: read_abbrev_op_def intro!: r_read.step r_vbr.step)

interpretation r_abbrev_def: release_op "read_abbrev_def Release"
  by unfold_locales (auto simp: read_abbrev_def_def intro!: r_vbr.step r_abbrev_op.rep_step)

interpretation r_element: release_op "read_element Release e" for e
  by unfold_locales
    (auto simp: read_element_def split: abbrev_op.split intro!: r_read.step r_vbr.step)

interpretation r_byte: release_op "read_byte Release"
  by unfold_locales (auto simp: read_byte_def intro!: r_read.step)

lemma read_ops_release:
  "word_aligned r \<Longrightarrow> p = Release \<Longrightarrow>
     wp (read_ops p os vals blob r) (\<lambda>(x, r'). word_aligned r') only_capacity"
proof (induction p os vals blob r rule: read_ops.induct)
  case (7 p elem_op os vals blob r)
  show ?case
    using 7(2) unfolding 7(3)
    by (auto intro!: r_vbr.step r_element.rep_step 7(1) [unfolded 7(3), OF _ refl _ refl])
next
  case (8 p os vals blob r)
  show ?case
    using 8(2) unfolding 8(3)
    by (auto intro!: r_vbr.step r_byte.rep_step 8(1) [unfolded 8(3), OF _ refl _ _ refl])
qed (fastforce intro!: r_read.step r_vbr.step elim!: wp_mono)+

interpretation r_ops: release_op "read_ops Release os vals blob" for os vals blob
  by unfold_locales (simp add: read_ops_release)

interpretation r_abbrev_rec: release_op "read_abbreviated_record Release d" for d
  by unfold_locales (auto simp: read_abbreviated_record_def Let_def intro!: r_ops.step)

interpretation r_unabbrev_rec: release_op "read_unabbrev_record Release"
  by unfold_locales (auto simp: read_unabbrev_record_def intro!: r_vbr.step r_vbr.rep_step)

interpretation r_header: release_op "read_block_header Release"
  by unfold_locales (auto simp: read_block_header_def intro!: r_vbr.step r_read.step)

interpretation r_entry: release_op "parse_entry Release bid abbrev_id st table" for bid abbrev_id st table
  by unfold_locales
    (auto simp: parse_entry_def Let_def split: option.split
      intro!: r_abbrev_def.step r_unabbrev_rec.step r_abbrev_rec.step)

lemma parse_loop_release:
  "word_aligned r \<Longrightarrow>
     wp (parse_loop fuel Release bid width st table r) (\<lambda>(x, r'). word_aligned r') only_capacity"
proof (induction fuel arbitrary: bid width st table r)
  case 0
  then show ?case by simp
next
  case (Suc fuel)
  note IH = wp_mono [OF Suc.IH]
  from Suc.prems show ?case
    by (auto intro!: word_aligned_remaining r_read.step r_header.step r_entry.step IH)
qed

lemma parse_top_release:
  "word_aligned r \<Longrightarrow> wp (parse_top fuel Release top_level table r) (\<lambda>_. True) only_capacity"
proof (induction fuel arbitrary: top_level table r)
  case 0
  then show ?case by simp
next
  case (Suc fuel)
  from Suc.prems show ?case
    by (auto simp: parse_block_def intro!: word_aligned_remaining r_read.step r_header.step
        wp_mono [OF parse_loop_release] Suc.IH)
qed

lemma parse_blocks_release:
  assumes "locate_bitstream data = Inr (bitstream, wr)" and "length bitstream mod 4 = 0"
    and "parse_blocks Release data = Inl (Panic c)"
  shows "c = CapacityOverflow"
proof -
  let ?body = "drop 4 bitstream"
  have "length ?body mod 4 = 0" using assms(2) by (simp, presburger)
  then have "word_aligned (new_reader ?body)"
    by (simp add: word_aligned_def in_bounds_def new_reader_def)
  from wp_fault [OF parse_top_release [OF this]] assms(1,3) show ?thesis
    by (fastforce simp: parse_blocks_def Let_def elim!: bnd_InlE split: if_splits)
qed

section \<open>Bodies that are not word aligned\<close>

definition underflow_panic :: "profile \<Rightarrow> panic_reason" where
  "underflow_panic p = (case p of Dev \<Rightarrow> ArithOverflow | Release \<Rightarrow> IndexOutOfBounds)"

text \<open>
  Once the cursor is past the end (by at most 31 bits, which is what \<^verbatim>\<open>align32\<close> adds), looking
  at the bits left underflows: the development build panics there, the release build believes in about
  \<open>2 ^ 64\<close> bits and panics when it indexes the slice.
\<close>

lemma bits_remaining_past_end:
  assumes "8 * length (rdata r) < bit_pos r"
  shows "bits_remaining p r = (case p of Dev \<Rightarrow> Inl (Panic ArithOverflow)
    | Release \<Rightarrow> Inr (2 ^ 64 + int (8 * length (rdata r)) - int (bit_pos r)))"
  using assms by (cases p) (simp_all add: bits_remaining_def usize_sub_def mult.commute)

lemma read_past_end:
  assumes "8 * length (rdata r) < bit_pos r" and "bit_pos r < 8 * length (rdata r) + 32"
    and "w \<noteq> 0"
  shows "read p w r = Inl (Panic (underflow_panic p))"
proof (cases p)
  case Dev
  then show ?thesis
    using assms by (simp add: read_def bits_remaining_past_end underflow_panic_def)
next
  case Release
  have "uint w < 2 ^ 32" using uint_lt2p [of w] by simp
  then have "\<not> 2 ^ 64 + int (8 * length (rdata r)) - int (bit_pos r) < uint w"
    using assms(2) by simp
  moreover have "length (rdata r) \<le> bit_pos r div 8" using assms(1) by simp
  moreover obtain k where "unat w = Suc k"
    using assms(3) by (metis gr0_implies_Suc unat_gt_0)
  ultimately show ?thesis
    using Release assms by (simp add: read_def bits_remaining_past_end underflow_panic_def)
qed

lemma parse_top_past_end:
  assumes "8 * length (rdata r) < bit_pos r" and "bit_pos r < 8 * length (rdata r) + 32"
  shows "parse_top (Suc fuel) p top_level table r = Inl (Panic (underflow_panic p))"
  using assms
  by (cases p) (simp_all add: bits_remaining_past_end read_past_end underflow_panic_def)

section \<open>Counts that the input chooses\<close>

text \<open>
  A record announces its operand count; from \<open>2 ^ 60\<close> operands on, the vector allocated for them
  exceeds \<^verbatim>\<open>isize::MAX\<close> bytes before any operand is read.
\<close>

lemma unabbrev_record_capacity:
  assumes "stream r = put_vbr 6 code @ put_vbr 6 n @ rest" and "2 ^ 60 \<le> uint n"
  shows "read_unabbrev_record p r = Inl (Panic CapacityOverflow)"
proof -
  note code = read_vbr_put [of r 6 code "put_vbr 6 n @ rest" p]
  let ?r = "r\<lparr>bit_pos := bit_pos r + length (put_vbr 6 code)\<rparr>"
  have "stream ?r = put_vbr 6 n @ rest"
    using assms(1) by (simp add: stream_advance)
  then have "read_vbr p 6 ?r = Inr (n, ?r\<lparr>bit_pos := bit_pos ?r + length (put_vbr 6 n)\<rparr>)"
    using read_vbr_put [of ?r 6 n rest p] by simp
  then show ?thesis
    using code assms by (simp add: read_unabbrev_record_def capacity_ok_def)
qed

section \<open>Properties\<close>

text \<open>
  C6: In a release build, on an input whose bitstream is a whole number of 32-bit words (as LLVM writes
  them), \<^verbatim>\<open>parse\<close> returns a module or an error, and the only panic is the capacity overflow of
  a vector sized by a count the input announces.
\<close>

theorem parse_release_safe:
  assumes "locate_bitstream data = Inr (bitstream, wr)" and "length bitstream mod 4 = 0"
    and "parse Release data = Inl (Panic c)"
  shows "c = CapacityOverflow"
proof -
  have "parse_blocks Release data = Inl (Panic c)"
    using assms(3) by (auto simp: parse_def elim!: bnd_InlE)
  then show ?thesis by (rule parse_blocks_release [OF assms(1,2)])
qed

text \<open>A module of one block with one record that announces \<open>2 ^ 60\<close> operands.\<close>

definition huge_module :: "u8 list" where
  "huge_module = RAW_BITCODE_MAGIC @ [0x21, 0x0C, 0, 0, 0, 0, 0, 0, 11, 64, 16, 4, 65, 16, 4, 65, 16, 4, 3, 0]"

lemma parse_huge_module: "parse Release huge_module = Inl (Panic CapacityOverflow)"
proof -
  let ?body = "drop 4 huge_module"
  let ?r = "\<lambda>n. \<lparr>rdata = ?body, bit_pos = n\<rparr>"
  have len: "length huge_module = 24" and loc: "locate_bitstream huge_module = Inr (huge_module, None)"
    by code_simp+
  have top: "bits_remaining Release (?r 0) = Inr 160" "read Release 2 (?r 0) = Inr (1, ?r 2)"
    "read_block_header Release (?r 2) = Inr ((8, 3), ?r 64)"
    "bits_remaining Release (?r 64) = Inr 96" "read Release 3 (?r 64) = Inr (3, ?r 67)"
    by code_simp+
  have "stream (?r 67) = put_vbr 6 1 @ put_vbr 6 (2 ^ 60) @ drop 84 (stream (?r 67))"
    by code_simp
  then have entry: "read_unabbrev_record Release (?r 67) = Inl (Panic CapacityOverflow)"
    by (rule unabbrev_record_capacity) simp
  have fuel: "parse_fuel ?body = Suc (Suc 160)" by (simp add: parse_fuel_def len)
  have "parse_block (Suc n) Release 8 3 Map.empty (?r 64) = Inl (Panic CapacityOverflow)" for n
    by (simp add: parse_block_def top entry parse_entry_def bitstream_ids)
  then have "parse_top (Suc (Suc n)) Release [] Map.empty (?r 0) = Inl (Panic CapacityOverflow)" for n
    using top by (simp add: ENTER_SUBBLOCK_def)
  then have "parse_top (parse_fuel ?body) Release [] Map.empty (new_reader ?body) = Inl (Panic CapacityOverflow)"
    unfolding fuel new_reader_def .
  then show ?thesis by (simp add: parse_def parse_blocks_def loc len Let_def)
qed

theorem parse_release_safe_witness: "\<exists>c. parse Release huge_module = Inl (Panic c) \<and> c = CapacityOverflow"
proof -
  have "locate_bitstream huge_module = Inr (huge_module, None)" and "length huge_module mod 4 = 0"
    by code_simp+
  from parse_release_safe [OF this parse_huge_module] parse_huge_module show ?thesis by blast
qed

text \<open>
  A record that announces \<open>2 ^ 60\<close> operands or more panics with a capacity overflow before an
  operand is read, however short the input is.
\<close>

theorem record_count_panics:
  assumes "stream r = put_vbr 6 code @ put_vbr 6 n @ rest" and "2 ^ 60 \<le> uint n"
  shows "read_unabbrev_record p r = Inl (Panic CapacityOverflow)"
  using assms by (rule unabbrev_record_capacity)

theorem record_count_panics_witness:
  "read_unabbrev_record Dev (new_reader [1, 8, 130, 32, 8, 130, 32, 8, 130, 96, 0])
     = Inl (Panic CapacityOverflow)"
proof -
  let ?r = "new_reader [1, 8, 130, 32, 8, 130, 32, 8, 130, 96, 0]"
  have "stream ?r = put_vbr 6 1 @ put_vbr 6 (2 ^ 60) @ [False, False, False, False]" by code_simp
  then show ?thesis by (rule record_count_panics) simp
qed

text \<open>
  An abbreviated array whose element is a literal takes no input per element: \<open>n\<close> values are
  appended for the few bits that announce \<open>n\<close>, up to \<open>2 ^ 64 - 1\<close> of them.
\<close>

theorem literal_array_free:
  assumes "stream r = put_vbr 6 n @ rest"
  shows "read_ops p [Array, Literal v] vals blob r =
    Inr ((vals @ replicate (unat n) v, blob), r\<lparr>bit_pos := bit_pos r + length (put_vbr 6 n)\<rparr>)"
proof -
  have rep: "rep_read k (read_element p (Literal v)) s = Inr (replicate k v, s)" for k s
    by (induction k) (simp_all add: read_element_def)
  show ?thesis
    using read_vbr_put [of r 6 n rest p] assms by (simp add: rep)
qed

theorem literal_array_free_witness:
  "read_ops Dev [Array, Literal 7] [] [] (new_reader [32, 8, 130, 1]) =
     Inr ((replicate 1048576 7, []), \<lparr>rdata = [32, 8, 130, 1], bit_pos = 30\<rparr>)"
proof -
  have "stream (new_reader [32, 8, 130, 1]) = put_vbr 6 (2 ^ 20) @ [False, False]"
    and "length (put_vbr 6 (2 ^ 20)) = 30" by code_simp+
  from literal_array_free [OF this(1), of Dev 7 "[]" "[]"] this(2)
  show ?thesis by (simp add: new_reader_def del: read_ops.simps)
qed

end
