(* ===== verification/Truncation.thy ===== *)
theory Truncation
  imports AirFormat AirSafety
begin

text \<open>
  Modules that end early: the writer of theory \<^verbatim>\<open>AirFormat\<close> pads the last block to a word; a body cut within
  that padding holds every block in full, and still crashes the parser.
\<close>

text \<open>Where the \<^verbatim>\<open>END_BLOCK\<close> of the last block of a module ends, in bits.\<close>

definition last_end :: "item list \<Rightarrow> u64 \<Rightarrow> u32 \<Rightarrow> item list \<Rightarrow> nat" where
  "last_end front bid width content =
     (let pos = length (emit_items 2 0 front) + 2 in pos + length (open_body pos bid width 0 content))"

lemma length_open_body: "length (open_body pos bid width len content) = length (open_body pos bid width 0 content)"
  by (simp add: open_body_def Let_def)

lemma module_ends:
  "\<exists>len. emit_items 2 0 (front @ [Nested bid width content]) = emit_items 2 0 front @ put 2 ENTER_SUBBLOCK @
     open_body (length (emit_items 2 0 front) + 2) bid width len content @ pad (last_end front bid width content)"
proof -
  let ?pos = "length (emit_items 2 0 front) + 2"
  obtain len where "body ?pos bid width content =
      open_body ?pos bid width len content @ pad (?pos + length (open_body ?pos bid width len content))"
    using body_open by blast
  then show ?thesis
    unfolding emit_items_append emit_nested last_end_def Let_def length_open_body [of _ _ _ len]
    by (intro exI [of _ len]) simp
qed

lemma pad_short: "length (pad n) < 32"
  by (simp add: pad_def)

text \<open>The last block is read to its end; then the cursor jumps past the end of what is there.\<close>

lemma parse_top_short:
  assumes "check_module t [Nested bid width content]"
    and str: "stream r = put 2 ENTER_SUBBLOCK @ open_body (bit_pos r + 2) bid width len content @ rest"
    and "in_bounds r" "length (stream r) < fuel"
    and short: "length rest < length (pad (bit_pos r + 2 + length (open_body (bit_pos r + 2) bid width len content)))"
  shows "parse_top fuel p acc t r = Inl (Panic (underflow_panic p))"
proof -
  obtain t' where width: "2 \<le> unat width" "unat width \<le> 64"
    and t': "check_items bid width (registered t bid) None t content = Some t'"
    using assms(1) word_range [of width] by (auto split: option.splits)
  let ?o = "open_body (bit_pos r + 2) bid width len content"
  have str: "stream r = put (unat (2 :: u32)) ENTER_SUBBLOCK @ ?o @ rest" using str by simp
  note id = id_round(1,3) [OF str, simplified, OF id_fits(2) [of 2], simplified, of p]
  have str1: "stream (skip 2 r) = open_body (bit_pos (skip 2 r)) bid width len content @ rest"
    using stream_skip [OF str] by simp
  have o: "32 \<le> length ?o" by (simp add: open_body_def Let_def)
  then obtain fuel1 where fuel1: "fuel = Suc (Suc fuel1)" using assms(4) unfolding str
    by (cases fuel; cases "fuel - 1") simp_all
  have left: "length (stream (skip 2 r)) < Suc fuel1" using assms(4) by (simp add: fuel1 str str1)
  from block_open_skip [OF reads_checked [OF t' width, of p] width str1 left] obtain r1 where
    block: "read_block_header p (skip 2 r) = Inr ((bid, width), r1)"
    "parse_block (Suc fuel1) p bid width t r1 =
      Inr ((BitstreamBlock bid width (records_of (map seen content)) (blocks_of (map seen content)), t'),
        align32 (skip (length ?o) (skip 2 r)))" by auto
  let ?r = "skip (length ?o) (skip 2 r)"
  have "in_bounds ?r" using in_bounds_skip [OF str1 in_bounds_skip [OF str assms(3), simplified]] by simp
  moreover have "length (stream ?r) = length rest" using stream_skip [OF str1] by simp
  ultimately have "8 * length (rdata ?r) = bit_pos ?r + length rest" by (simp add: length_stream in_bounds_def)
  then have "8 * length (rdata (align32 ?r)) < bit_pos (align32 ?r)"
    "bit_pos (align32 ?r) < 8 * length (rdata (align32 ?r)) + 32"
    using short pad_short [of "bit_pos ?r"] unfolding align32_skip [of ?r] by (simp_all add: skip_def add.assoc)
  then have "parse_top (Suc fuel1) p acc' t' (align32 ?r) = Inl (Panic (underflow_panic p))" for acc'
    by (rule parse_top_past_end)
  then show ?thesis using id block o by (simp add: fuel1 del: skip_simps(4) parse_top.simps(2)) (simp del: skip_simps(4))
qed

text \<open>
  C37: A module whose body ends behind the \<^verbatim>\<open>END_BLOCK\<close> of its last block, but before the word is full,
  makes the parser panic in both profiles, whatever its blocks hold: the cursor is moved past the end, the count of the
  bits left underflows, and a development build panics on that, a release build on the index it believes to be
  valid. With the padding the same module parses.
\<close>

theorem parse_misaligned_panics:
  assumes "check_module Map.empty (front @ [Nested bid width content])"
    and "last_end front bid width content \<le> 8 * n"
    and "8 * n < length (emit_items 2 0 (front @ [Nested bid width content]))"
  shows "parse p (take (4 + n) (emit_module (front @ [Nested bid width content]))) = Inl (Panic (underflow_panic p)) \<and>
    (\<exists>m. parse p (emit_module (front @ [Nested bid width content])) = Inr m)"
proof
  let ?items = "front @ [Nested bid width content]"
  let ?f = "emit_items 2 0 front" and ?body = "take n (bytes_of (emit_items 2 0 ?items))"
  have "length (emit_items 2 0 ?items) mod 32 = 0" using emit_module_aligned [OF assms(1), of 0 2] by simp
  then have "length (emit_items 2 0 ?items) mod 8 = 0" by presburger
  note whole = bits_of_bytes_of [OF this]
  obtain len where ends: "emit_items 2 0 ?items = ?f @ put 2 ENTER_SUBBLOCK @
      open_body (length ?f + 2) bid width len content @ pad (last_end front bid width content)"
    using module_ends by blast
  let ?o = "open_body (length ?f + 2) bid width len content"
  let ?rest = "take (8 * n - last_end front bid width content) (pad (last_end front bid width content))"
  have last: "last_end front bid width content = length ?f + 2 + length ?o"
    by (simp add: last_end_def Let_def length_open_body [of _ _ _ len])
  have "stream (new_reader ?body) = take (8 * n) (emit_items 2 0 ?items)"
    by (simp only: stream_def new_reader_def reader.simps bits_of_take whole drop_0)
  also have "\<dots> = ?f @ put 2 ENTER_SUBBLOCK @ ?o @ ?rest"
    unfolding ends using assms(2) last by simp
  finally have str: "stream (new_reader ?body) = emit_items 2 (bit_pos (new_reader ?body)) front @
      (put 2 ENTER_SUBBLOCK @ ?o @ ?rest)" by (simp add: new_reader_def)
  have bounds: "in_bounds (new_reader ?body)" by (simp add: new_reader_def in_bounds_def)
  have "length (stream (new_reader ?body)) < parse_fuel ?body"
    by (simp only: length_stream) (simp add: new_reader_def parse_fuel_def)
  from parse_top_front [OF assms(1) str bounds this, of p "[]"] obtain fuel' t' where
    front: "parse_top (parse_fuel ?body) p [] Map.empty (new_reader ?body) =
        parse_top fuel' p (blocks_of (map seen front)) t' (skip (length ?f) (new_reader ?body))"
      "check_module t' [Nested bid width content]" "length (put 2 ENTER_SUBBLOCK @ ?o @ ?rest) < fuel'"
    by (auto simp: new_reader_def)
  let ?r = "skip (length ?f) (new_reader ?body)"
  have pos: "bit_pos ?r = length ?f" by (simp add: new_reader_def)
  have str': "stream ?r = put 2 ENTER_SUBBLOCK @ open_body (bit_pos ?r + 2) bid width len content @ ?rest"
    using stream_skip [OF str] by (simp add: pos new_reader_def)
  have "length ?rest < length (pad (last_end front bid width content))"
    using assms(2,3) last unfolding ends by simp
  then have "length ?rest < length (pad (bit_pos ?r + 2 + length (open_body (bit_pos ?r + 2) bid width len content)))"
    by (simp only: pos last)
  moreover have "in_bounds ?r" using in_bounds_skip [OF str bounds] by (simp add: new_reader_def)
  moreover have "length (stream ?r) < fuel'" using front(3) by (simp only: str' pos)
  ultimately have "parse_top fuel' p (blocks_of (map seen front)) t' ?r = Inl (Panic (underflow_panic p))"
    by (intro parse_top_short [OF front(2) str'])
  with front(1) have "parse_blocks p (RAW_BITCODE_MAGIC @ ?body) = Inl (Panic (underflow_panic p))"
    by (simp add: parse_blocks_def locate_bitstream_def RAW_BITCODE_MAGIC_def Let_def)
  moreover have "length RAW_BITCODE_MAGIC = 4" by (simp add: RAW_BITCODE_MAGIC_def)
  then have "take (4 + n) (emit_module ?items) = RAW_BITCODE_MAGIC @ ?body" by (simp add: emit_module_def)
  ultimately show "parse p (take (4 + n) (emit_module ?items)) = Inl (Panic (underflow_panic p))"
    by (simp add: parse_def)
  show "\<exists>m. parse p (emit_module ?items) = Inr m" using parse_checked [OF assms(1), of p] by blast
qed

theorem parse_misaligned_panics_witness:
  "parse Dev [0x42, 0x43, 0xC0, 0xDE, 0x21, 0x0C, 0, 0, 1, 0, 0, 0, 0] = Inl (Panic ArithOverflow)"
proof -
  have "check_module Map.empty ([] @ [Nested 8 3 []])" by simp
  moreover have "last_end [] 8 3 [] \<le> 8 * 9" "8 * 9 < length (emit_items 2 0 ([] @ [Nested 8 3 []]))"
    "take (4 + 9) (emit_module ([] @ [Nested 8 3 []])) = [0x42, 0x43, 0xC0, 0xDE, 0x21, 0x0C, 0, 0, 1, 0, 0, 0, 0]"
    by code_simp+
  ultimately show ?thesis
    using parse_misaligned_panics [of "[]" 8 3 "[]" 9 Dev] by (simp add: underflow_panic_def)
qed

end
