(* ===== verification/Monad.thy ===== *)
theory Monad
  imports Prelude
begin

text \<open>
  State-passing computations that may fail: what a Rust method on \<^verbatim>\<open>&mut self\<close> is. A
  computation that fails keeps the state it has reached, since nothing rolls back on an early
  return. The rules for \<open>wps\<close>, the weakest precondition with one postcondition for the value and one
  for the fault, execute a method symbolically.
\<close>

type_synonym ('s, 'e, 'a) smonad = "'s \<Rightarrow> ('e, 'a) outcome \<times> 's"

definition sret :: "'a \<Rightarrow> ('s, 'e, 'a) smonad" where
  "sret x = (\<lambda>s. (Inr x, s))"

definition sfail :: "'e fault \<Rightarrow> ('s, 'e, 'a) smonad" where
  "sfail e = (\<lambda>s. (Inl e, s))"

definition sbind :: "('s, 'e, 'a) smonad \<Rightarrow> ('a \<Rightarrow> ('s, 'e, 'b) smonad) \<Rightarrow> ('s, 'e, 'b) smonad" where
  "sbind m f = (\<lambda>s. case m s of (Inl e, s') \<Rightarrow> (Inl e, s') | (Inr x, s') \<Rightarrow> f x s')"

definition sget :: "('s \<Rightarrow> 'a) \<Rightarrow> ('s, 'e, 'a) smonad" where
  "sget f = (\<lambda>s. (Inr (f s), s))"

definition supd :: "('s \<Rightarrow> 's) \<Rightarrow> ('s, 'e, unit) smonad" where
  "supd f = (\<lambda>s. (Inr (), f s))"

text \<open>A computation without effect.\<close>

definition slift :: "('e, 'a) outcome \<Rightarrow> ('s, 'e, 'a) smonad" where
  "slift m = (\<lambda>s. (m, s))"

text \<open>The conversion of the error by \<^verbatim>\<open>?\<close>, and a result kept as a value.\<close>

definition map_fault :: "('e \<Rightarrow> 'f) \<Rightarrow> 'e fault \<Rightarrow> 'f fault" where
  "map_fault g e = (case e of Error r \<Rightarrow> Error (g r) | Panic p \<Rightarrow> Panic p | OutOfFuel \<Rightarrow> OutOfFuel)"

definition qmark :: "('e \<Rightarrow> 'f) \<Rightarrow> ('s, 'e, 'a) smonad \<Rightarrow> ('s, 'f, 'a) smonad" where
  "qmark g m = (\<lambda>s. case m s of (Inl e, s') \<Rightarrow> (Inl (map_fault g e), s') | (Inr x, s') \<Rightarrow> (Inr x, s'))"

definition attempt :: "('s, 'e, 'a) smonad \<Rightarrow> ('s, 'f, 'e + 'a) smonad" where
  "attempt m = (\<lambda>s. case m s of
     (Inl (Error r), s') \<Rightarrow> (Inr (Inl r), s')
   | (Inl (Panic p), s') \<Rightarrow> (Inl (Panic p), s')
   | (Inl OutOfFuel, s') \<Rightarrow> (Inl OutOfFuel, s')
   | (Inr x, s') \<Rightarrow> (Inr (Inr x), s'))"

lemma map_fault_simps [simp]:
  "map_fault g (Error r) = Error (g r)" "map_fault g (Panic p) = Panic p"
  "map_fault g OutOfFuel = OutOfFuel"
  by (simp_all add: map_fault_def)

lemma map_fault_panic [simp]: "map_fault g e = Panic p \<longleftrightarrow> e = Panic p"
  by (cases e) simp_all

text \<open>A \<^verbatim>\<open>for\<close> loop that collects the values of its rounds and stops at the first fault.\<close>

primrec scollect :: "('a \<Rightarrow> ('s, 'e, 'b) smonad) \<Rightarrow> 'a list \<Rightarrow> ('s, 'e, 'b list) smonad" where
  "scollect f [] = sret []"
| "scollect f (x # xs) = sbind (f x) (\<lambda>y. sbind (scollect f xs) (\<lambda>ys. sret (y # ys)))"

primrec seach :: "('a \<Rightarrow> ('s, 'e, unit) smonad) \<Rightarrow> 'a list \<Rightarrow> ('s, 'e, unit) smonad" where
  "seach f [] = sret ()"
| "seach f (x # xs) = sbind (f x) (\<lambda>_. seach f xs)"

section \<open>Weakest preconditions\<close>

definition wps :: "('s, 'e, 'a) smonad \<Rightarrow> ('a \<Rightarrow> 's \<Rightarrow> bool) \<Rightarrow> ('e fault \<Rightarrow> 's \<Rightarrow> bool) \<Rightarrow> 's \<Rightarrow> bool" where
  "wps m Q E s = (case m s of (Inl e, s') \<Rightarrow> E e s' | (Inr x, s') \<Rightarrow> Q x s')"

lemma wps_sret [simp]: "wps (sret x) Q E = Q x"
  by (simp add: fun_eq_iff wps_def sret_def)

lemma wps_sfail [simp]: "wps (sfail e) Q E = E e"
  by (simp add: fun_eq_iff wps_def sfail_def)

lemma wps_sget [simp]: "wps (sget f) Q E = (\<lambda>s. Q (f s) s)"
  by (simp add: fun_eq_iff wps_def sget_def)

lemma wps_supd [simp]: "wps (supd f) Q E = (\<lambda>s. Q () (f s))"
  by (simp add: fun_eq_iff wps_def supd_def)

lemma wps_slift [simp]: "wps (slift m) Q E = (case m of Inl e \<Rightarrow> E e | Inr x \<Rightarrow> Q x)"
  by (simp add: fun_eq_iff wps_def slift_def split: sum.split)

lemma wps_sbind [simp]: "wps (sbind m f) Q E = wps m (\<lambda>x. wps (f x) Q E) E"
  by (auto simp: fun_eq_iff wps_def sbind_def split: prod.split sum.split)

lemma wps_qmark [simp]: "wps (qmark g m) Q E = wps m Q (\<lambda>e. E (map_fault g e))"
  by (auto simp: fun_eq_iff wps_def qmark_def split: prod.split sum.split)

lemma wps_attempt [simp]:
  "wps (attempt m) Q E =
     wps m (\<lambda>x. Q (Inr x))
       (\<lambda>e. case e of Error r \<Rightarrow> Q (Inl r) | Panic p \<Rightarrow> E (Panic p) | OutOfFuel \<Rightarrow> E OutOfFuel)"
  by (auto simp: fun_eq_iff wps_def attempt_def split: prod.split sum.split fault.split)

lemma wps_if: "wps (if b then m else n) Q E = (if b then wps m Q E else wps n Q E)"
  by simp

lemma wps_mono:
  assumes "wps m Q E s" and "\<And>x s'. Q x s' \<Longrightarrow> Q' x s'" and "\<And>e s'. E e s' \<Longrightarrow> E' e s'"
  shows "wps m Q' E' s"
  using assms by (auto simp: wps_def split: prod.splits sum.splits)

lemma wps_value: "wps m Q E s \<Longrightarrow> m s = (Inr x, s') \<Longrightarrow> Q x s'"
  by (simp add: wps_def)

lemma wps_faultD: "wps m Q E s \<Longrightarrow> m s = (Inl e, s') \<Longrightarrow> E e s'"
  by (simp add: wps_def)

lemma wps_run: "wps m (\<lambda>x s'. m s = (Inr x, s')) (\<lambda>e s'. m s = (Inl e, s')) s"
  by (auto simp: wps_def split: prod.split sum.split)

lemma wps_total:
  assumes "wps m Q (\<lambda>_ _. False) s"
  obtains x s' where "m s = (Inr x, s')" and "Q x s'"
  using assms by (auto simp: wps_def split: prod.splits sum.splits)

lemma sbind_run:
  "m s = (Inr x, s') \<Longrightarrow> sbind m f s = f x s'"
  "m s = (Inl e, s') \<Longrightarrow> sbind m f s = (Inl e, s')"
  by (simp_all add: sbind_def)

text \<open>Running a computation, for the ones that do not branch on what they call.\<close>

lemma run_simps:
  "sret x s = (Inr x, s)" "sfail e s = (Inl e, s)" "sget f s = (Inr (f s), s)" "supd g s = (Inr (), g s)"
  by (simp_all add: sret_def sfail_def sget_def supd_def)

lemma run_sbind:
  "sbind (sret x) k1 s = k1 x s" "sbind (sget f) k2 s = k2 (f s) s" "sbind (supd g) k3 s = k3 () (g s)"
  "sbind (sfail e) k4 s = (Inl e, s)" "sbind (sbind m k5) k6 = sbind m (\<lambda>x. sbind (k5 x) k6)"
  by (auto simp: fun_eq_iff sbind_def run_simps split: prod.split sum.split)

text \<open>
  Evaluation on a concrete state: \<open>simp add: eval_rules cong: sbind_weak_cong\<close>. The congruence rule
  keeps the simplifier out of the statements that are not reached yet.
\<close>

lemma sbind_weak_cong: "m = m' \<Longrightarrow> sbind m f = sbind m' f"
  by simp

lemma qmark_run:
  "m s = (Inr x, s') \<Longrightarrow> qmark g m s = (Inr x, s')"
  "m s = (Inl e, s') \<Longrightarrow> qmark g m s = (Inl (map_fault g e), s')"
  by (simp_all add: qmark_def)

lemma attempt_run:
  "m s = (Inr x, s') \<Longrightarrow> attempt m s = (Inr (Inr x), s')"
  "m s = (Inl (Error r), s') \<Longrightarrow> attempt m s = (Inr (Inl r), s')"
  "m s = (Inl (Panic p), s') \<Longrightarrow> attempt m s = (Inl (Panic p), s')"
  by (simp_all add: attempt_def)

lemma slift_run: "slift m s = (m, s)"
  by (simp add: slift_def)

lemmas eval_rules = sbind_run run_simps run_sbind(1-4) qmark_run attempt_run slift_run

text \<open>Loops: an invariant indexed by what is done and what is left.\<close>

lemma wps_scollect:
  assumes "I [] xs s"
    and "\<And>ys x zs s. xs = map fst ys @ x # zs \<Longrightarrow> I ys (x # zs) s \<Longrightarrow>
      wps (f x) (\<lambda>y. I (ys @ [(x, y)]) zs) E s"
    and "\<And>ys s. xs = map fst ys \<Longrightarrow> I ys [] s \<Longrightarrow> Q (map snd ys) s"
  shows "wps (scollect f xs) Q E s"
proof -
  have "wps (scollect f zs) (\<lambda>vs. Q (map snd ys @ vs)) E s"
    if "xs = map fst ys @ zs" "I ys zs s" for ys zs s
    using that
  proof (induction zs arbitrary: ys s)
    case Nil
    then show ?case using assms(3) by simp
  next
    case (Cons z zs)
    have "wps (f z) (\<lambda>y. I (ys @ [(z, y)]) zs) E s" using assms(2) Cons.prems by blast
    then have "wps (f z) (\<lambda>y. wps (scollect f zs) (\<lambda>vs. Q (map snd (ys @ [(z, y)]) @ vs)) E) E s"
    proof (rule wps_mono)
      show "wps (scollect f zs) (\<lambda>vs. Q (map snd (ys @ [(z, y)]) @ vs)) E s'"
        if "I (ys @ [(z, y)]) zs s'" for y s'
        by (rule Cons.IH) (use Cons.prems(1) that in simp_all)
    qed
    then show ?case by simp
  qed
  from this [of "[]" xs s] assms(1) show ?thesis by simp
qed

lemma wps_seach:
  assumes "I xs s"
    and "\<And>x zs s. x \<in> set xs \<Longrightarrow> I (x # zs) s \<Longrightarrow> wps (f x) (\<lambda>_. I zs) E s"
    and "\<And>s. I [] s \<Longrightarrow> Q () s"
  shows "wps (seach f xs) Q E s"
proof -
  have "wps (seach f zs) Q E s" if "set zs \<subseteq> set xs" "I zs s" for zs s
    using that
  proof (induction zs arbitrary: s)
    case (Cons z zs)
    have "wps (f z) (\<lambda>_. I zs) E s" using assms(2) Cons.prems by simp
    then have "wps (f z) (\<lambda>_. wps (seach f zs) Q E) E s"
      by (rule wps_mono) (use Cons in simp_all)
    then show ?case by simp
  qed (use assms(3) in simp)
  then show ?thesis using assms(1) by blast
qed

section \<open>What a computation does to every state\<close>

text \<open>
  \<open>stable R np m\<close>: the state after \<open>m\<close>, value or fault, is related to the state before it, and if \<open>np\<close>
  then \<open>m\<close> does not panic. For a preorder \<open>R\<close> this is composed along the program text.
\<close>

definition stable :: "('s \<Rightarrow> 's \<Rightarrow> bool) \<Rightarrow> bool \<Rightarrow> ('s, 'e, 'a) smonad \<Rightarrow> bool" where
  "stable R np m \<longleftrightarrow> (\<forall>s. wps m (\<lambda>_. R s) (\<lambda>e s'. R s s' \<and> (np \<longrightarrow> \<not> is_panic e)) s)"

lemma is_panic_map_fault [simp]: "is_panic (map_fault g e) \<longleftrightarrow> is_panic e"
  by (cases e) simp_all

lemma stable_run:
  assumes "stable R np m" and "m s = (r, s')"
  shows "R s s'" and "np \<Longrightarrow> r = Inl e \<Longrightarrow> \<not> is_panic e"
proof -
  have "wps m (\<lambda>_. R s) (\<lambda>e s'. R s s' \<and> (np \<longrightarrow> \<not> is_panic e)) s"
    using assms(1) by (simp add: stable_def)
  with assms(2) show "R s s'" and "np \<Longrightarrow> r = Inl e \<Longrightarrow> \<not> is_panic e"
    by (auto simp: wps_def split: sum.splits)
qed

lemma stable_attempt: "stable R np m \<Longrightarrow> stable R np (attempt m)"
  unfolding stable_def wps_attempt
  by (intro allI, erule allE, erule wps_mono) (auto split: fault.split)

lemma stable_qmark: "stable R np m \<Longrightarrow> stable R np (qmark g m)"
  by (simp add: stable_def)

locale preorder_on_states =
  fixes R :: "'s \<Rightarrow> 's \<Rightarrow> bool"
  assumes R_refl: "R s s"
    and R_trans: "R s t \<Longrightarrow> R t u \<Longrightarrow> R s u"
begin

lemma stable_pure:
  "stable R np (sret x)" "stable R np (sget f)"
  "(np \<Longrightarrow> \<not> is_panic e) \<Longrightarrow> stable R np (sfail e)"
  by (simp_all add: stable_def R_refl)

lemma stable_slift: "(\<And>e. np \<Longrightarrow> m = Inl e \<Longrightarrow> \<not> is_panic e) \<Longrightarrow> stable R np (slift m)"
  by (cases m) (simp_all add: stable_def R_refl)

lemma stable_supd: "(\<And>s. R s (f s)) \<Longrightarrow> stable R np (supd f)"
  by (simp add: stable_def)

lemma stable_sbind:
  assumes "stable R np m" and "\<And>x. stable R np (f x)"
  shows "stable R np (sbind m f)"
  unfolding stable_def
proof
  fix s
  have "wps m (\<lambda>_. R s) (\<lambda>e s'. R s s' \<and> (np \<longrightarrow> \<not> is_panic e)) s"
    using assms(1) by (simp add: stable_def)
  then show "wps (sbind m f) (\<lambda>_. R s) (\<lambda>e s'. R s s' \<and> (np \<longrightarrow> \<not> is_panic e)) s"
    unfolding wps_sbind
  proof (rule wps_mono)
    fix x t
    assume "R s t"
    moreover have "wps (f x) (\<lambda>_. R t) (\<lambda>e s'. R t s' \<and> (np \<longrightarrow> \<not> is_panic e)) t"
      using assms(2) by (simp add: stable_def)
    ultimately show "wps (f x) (\<lambda>_. R s) (\<lambda>e s'. R s s' \<and> (np \<longrightarrow> \<not> is_panic e)) t"
      by (elim wps_mono) (auto intro: R_trans)
  qed simp
qed

lemma stable_if: "(b \<Longrightarrow> stable R np m) \<Longrightarrow> (\<not> b \<Longrightarrow> stable R np n) \<Longrightarrow> stable R np (if b then m else n)"
  by simp

lemma stable_scollect: "(\<And>x. stable R np (f x)) \<Longrightarrow> stable R np (scollect f xs)"
  by (induction xs) (auto intro!: stable_pure stable_sbind)

lemma stable_seach: "(\<And>x. stable R np (f x)) \<Longrightarrow> stable R np (seach f xs)"
  by (induction xs) (auto intro!: stable_pure stable_sbind)

lemmas stable_intros = stable_pure stable_slift stable_supd stable_sbind stable_scollect stable_seach
  stable_attempt stable_qmark

end

end
