(* ===== verification/Vk.thy ===== *)
theory Vk
  imports Monad
begin

text \<open>
  The Vulkan interface the backend calls through \<^verbatim>\<open>ash\<close>. The loader and the driver are not
  code of the repository, so their answers are the functions of a record \<open>driver\<close>, arguments of every
  definition that calls them; each answer may depend on everything that happened before. The state
  is the history of the calls, newest first, with their results. From it \<open>live\<close> computes the
  multiset of handles that exist, and \<open>sound\<close> says that only existing handles were released.
\<close>

section \<open>Types of the interface\<close>

text \<open>\<^verbatim>\<open>vk::Result\<close>: the codes the backend tests for, and any other.\<close>

datatype vk_result =
    NOT_READY | TIMEOUT | SUBOPTIMAL_KHR | ERROR_OUT_OF_DATE_KHR | ERROR_DEVICE_LOST
  | OtherResult int

type_synonym 'a vkr = "vk_result + 'a"

text \<open>\<^verbatim>\<open>contains\<close> of the flag types.\<close>

definition contains_flags :: "u32 \<Rightarrow> u32 \<Rightarrow> bool" where
  "contains_flags flags wanted \<longleftrightarrow> flags AND wanted = wanted"

type_synonym handle = u64

datatype format = UNDEFINED | B8G8R8A8_UNORM | B8G8R8A8_SRGB | OtherFormat int
datatype color_space = SRGB_NONLINEAR | OtherColorSpace int
datatype present_mode = IMMEDIATE | MAILBOX | FIFO | FIFO_RELAXED | OtherPresentMode int

record extent2d =
  ewidth :: u32
  eheight :: u32

record surface_caps =
  caps_min_image_count :: u32
  caps_max_image_count :: u32
  caps_current_extent :: extent2d
  caps_min_image_extent :: extent2d
  caps_max_image_extent :: extent2d
  caps_current_transform :: u32

record surface_format =
  sf_format :: format
  sf_color_space :: color_space

record swapchain_info =
  sci_surface :: handle
  sci_min_image_count :: u32
  sci_format :: format
  sci_color_space :: color_space
  sci_extent :: extent2d
  sci_array_layers :: u32
  sci_transform :: u32
  sci_present_mode :: present_mode
  sci_clipped :: bool
  sci_old_swapchain :: handle

datatype load_op = LOAD_CLEAR | LOAD_DONT_CARE
datatype store_op = STORE_STORE | STORE_DONT_CARE
datatype image_layout = LAYOUT_UNDEFINED | LAYOUT_PRESENT_SRC | LAYOUT_COLOR_ATTACHMENT

record attachment_description =
  att_format :: format
  att_load :: load_op
  att_store :: store_op
  att_stencil_load :: load_op
  att_stencil_store :: store_op
  att_initial_layout :: image_layout
  att_final_layout :: image_layout

datatype image_usage = SAMPLED | TRANSFER_DST | COLOR_ATTACHMENT | OtherUsage int

datatype external_source = NoImport | ImportFd int | ExternalFd | ImportIOSurface u64

record image_info =
  ii_next :: external_source
  ii_format :: format
  ii_extent :: extent2d
  ii_usage :: "image_usage set"

record memory_info =
  mi_next :: external_source
  mi_size :: u64
  mi_type_index :: u32

datatype buffer_usage = VERTEX_BUFFER | INDEX_BUFFER | BUFFER_TRANSFER_DST

text \<open>\<^verbatim>\<open>None\<close> stands for the names the copy in \<^verbatim>\<open>swapchain.rs\<close> uses without declaring.\<close>

datatype create_info =
    SwapchainInfo swapchain_info
  | ImageViewInfo (view_image: handle) (view_format: format)
  | RenderPassInfo "attachment_description option"
  | FramebufferInfo (fb_render_pass: handle) (fb_attachments: "handle list") (fb_extent: extent2d)
  | SemaphoreInfo
  | FenceInfo (signaled: bool)
  | ImageInfo image_info
  | MemoryInfo memory_info
  | BufferInfo (buffer_size: u64) (buffer_usages: "buffer_usage set")
  | CommandPoolInfo (pool_reset: bool) (pool_family: u32)
  | DeviceInfo (di_physical_device: handle) (di_families: "u32 list") (di_extensions: "string list")
      (di_features: "bool \<times> bool")

datatype res_kind =
    KSwapchain | KImageView | KRenderPass | KFramebuffer | KSemaphore | KFence | KImage | KMemory
  | KCommandPool | KDevice | KInstance | KSurface | KCommandBuffer | KIOSurface | KBuffer

fun kind_of :: "create_info \<Rightarrow> res_kind" where
  "kind_of (SwapchainInfo _) = KSwapchain"
| "kind_of (ImageViewInfo _ _) = KImageView"
| "kind_of (RenderPassInfo _) = KRenderPass"
| "kind_of (FramebufferInfo _ _ _) = KFramebuffer"
| "kind_of SemaphoreInfo = KSemaphore"
| "kind_of (FenceInfo _) = KFence"
| "kind_of (ImageInfo _) = KImage"
| "kind_of (MemoryInfo _) = KMemory"
| "kind_of (BufferInfo _ _) = KBuffer"
| "kind_of (CommandPoolInfo _ _) = KCommandPool"
| "kind_of (DeviceInfo _ _ _ _) = KDevice"

section \<open>Calls and the history\<close>

record submit_info =
  si_wait :: handle
  si_command_buffer :: handle
  si_signal :: handle

record present_info =
  pi_wait :: handle
  pi_swapchain :: handle
  pi_image_index :: u32

text \<open>The commands the framework shims record into a command buffer.\<close>

datatype command =
    BindVertexBuffers u32 "handle list" "u64 list"
  | BindIndexBuffer handle u64
  | DrawIndexed u32 u32 u32 u32 u32
  | Draw u32 u32 u32 u32

datatype vk_event =
    ECreate create_info "handle vkr"
  | EAllocCommandBuffers handle u32 "handle list vkr"
  | EAcquireRef res_kind handle
  | EDestroy res_kind handle
  | EFreeCommandBuffers handle "handle list"
  | EBind handle handle "unit vkr"
  | EQuery
  | EWaitIdle "unit vkr"
  | EWaitFence handle u64 "unit vkr"
  | EResetFence handle "unit vkr"
  | EFenceStatus handle "bool vkr"
  | EAcquire handle u64 handle "(u32 \<times> bool) vkr"
  | ESubmit handle submit_info handle "unit vkr"
  | EPresent handle present_info "bool vkr"
  | ESubmitEmpty handle handle "unit vkr" \<comment> \<open>a default \<^verbatim>\<open>vk::SubmitInfo\<close>\<close>
  | ECommand handle command
  | EMap handle u64 u64 "unit vkr"
  | EWrite handle u64 "u8 list"
  | EUnmap handle

type_synonym history = "vk_event list"

record vk_world =
  history :: history

record driver =
  d_create :: "history \<Rightarrow> create_info \<Rightarrow> handle vkr"
  d_alloc_command_buffers :: "history \<Rightarrow> handle \<Rightarrow> u32 \<Rightarrow> handle list vkr"
  d_wait_idle :: "history \<Rightarrow> unit vkr"
  d_surface_caps :: "history \<Rightarrow> handle \<Rightarrow> surface_caps vkr"
  d_surface_formats :: "history \<Rightarrow> handle \<Rightarrow> surface_format list vkr"
  d_present_modes :: "history \<Rightarrow> handle \<Rightarrow> present_mode list vkr"
  d_swapchain_images :: "history \<Rightarrow> handle \<Rightarrow> handle list vkr"
  d_wait_fence :: "history \<Rightarrow> handle \<Rightarrow> u64 \<Rightarrow> unit vkr"
  d_reset_fence :: "history \<Rightarrow> handle \<Rightarrow> unit vkr"
  d_fence_status :: "history \<Rightarrow> handle \<Rightarrow> bool vkr"
  d_acquire :: "history \<Rightarrow> handle \<Rightarrow> u64 \<Rightarrow> handle \<Rightarrow> (u32 \<times> bool) vkr"
  d_submit :: "history \<Rightarrow> submit_info \<Rightarrow> unit vkr"
  d_present :: "history \<Rightarrow> present_info \<Rightarrow> bool vkr"
  d_bind_image_memory :: "history \<Rightarrow> handle \<Rightarrow> handle \<Rightarrow> unit vkr"
  d_memory_requirements :: "history \<Rightarrow> handle \<Rightarrow> u64 \<times> u32"
  d_buffer_requirements :: "history \<Rightarrow> handle \<Rightarrow> u64 \<times> u32"
  d_bind_buffer_memory :: "history \<Rightarrow> handle \<Rightarrow> handle \<Rightarrow> unit vkr"
  d_map_memory :: "history \<Rightarrow> handle \<Rightarrow> u64 \<Rightarrow> u64 \<Rightarrow> unit vkr"
  d_submit_empty :: "history \<Rightarrow> handle \<Rightarrow> handle \<Rightarrow> unit vkr"

type_synonym ('s, 'a) vk = "('s vk_world_scheme, vk_result, 'a) smonad"

abbreviation record_event :: "vk_event \<Rightarrow> 's vk_world_scheme \<Rightarrow> 's vk_world_scheme" where
  "record_event ev s \<equiv> s\<lparr>history := ev # history s\<rparr>"

text \<open>A call with a result, and one that cannot fail.\<close>

definition vk_call :: "(history \<Rightarrow> 'a vkr) \<Rightarrow> ('a vkr \<Rightarrow> vk_event) \<Rightarrow> ('s, 'a) vk" where
  "vk_call reply ev = (\<lambda>s.
     (case reply (history s) of
        Inl r \<Rightarrow> (Inl (Error r), record_event (ev (Inl r)) s)
      | Inr x \<Rightarrow> (Inr x, record_event (ev (Inr x)) s)))"

definition vk_do :: "vk_event \<Rightarrow> ('s vk_world_scheme, 'e, unit) smonad" where
  "vk_do ev = supd (record_event ev)"

definition create :: "driver \<Rightarrow> create_info \<Rightarrow> ('s, handle) vk" where
  "create d ci = vk_call (\<lambda>h. d_create d h ci) (ECreate ci)"

definition query :: "(history \<Rightarrow> 'a vkr) \<Rightarrow> ('s, 'a) vk" where
  "query f = vk_call f (\<lambda>_. EQuery)"

section \<open>The ledger\<close>

type_synonym ledger = "(res_kind \<times> handle) multiset"

fun gained :: "vk_event \<Rightarrow> ledger" where
  "gained (ECreate ci (Inr x)) = {#(kind_of ci, x)#}"
| "gained (EAllocCommandBuffers pool n (Inr xs)) = image_mset (Pair KCommandBuffer) (mset xs)"
| "gained (EAcquireRef k x) = {#(k, x)#}"
| "gained _ = {#}"

fun lost :: "vk_event \<Rightarrow> ledger" where
  "lost (EDestroy k x) = {#(k, x)#}"
| "lost (EFreeCommandBuffers pool xs) = image_mset (Pair KCommandBuffer) (mset xs)"
| "lost _ = {#}"

primrec live :: "history \<Rightarrow> ledger" where
  "live [] = {#}"
| "live (ev # h) = live h + gained ev - lost ev"

primrec sound :: "history \<Rightarrow> bool" where
  "sound [] = True"
| "sound (ev # h) \<longleftrightarrow> sound h \<and> lost ev \<subseteq># live h"

text \<open>What exists is what \<open>own\<close> holds: the released handles existed, and nothing else is left.\<close>

definition holds :: "ledger \<Rightarrow> history \<Rightarrow> bool" where
  "holds own h \<longleftrightarrow> sound h \<and> live h = own"

definition handles :: "res_kind \<Rightarrow> handle list \<Rightarrow> ledger" where
  "handles k xs = image_mset (Pair k) (mset xs)"

lemma handles_simps [simp]:
  "handles k [] = {#}" "handles k (x # xs) = add_mset (k, x) (handles k xs)"
  "handles k (xs @ ys) = handles k xs + handles k ys"
  by (simp_all add: handles_def)

lemma handles_kinds: "fst ` set_mset (handles k xs) \<subseteq> {k}"
  by (auto simp: handles_def)

lemma holds_neutral [simp]:
  "gained ev = {#} \<Longrightarrow> lost ev = {#} \<Longrightarrow> holds own (ev # h) \<longleftrightarrow> holds own h"
  by (simp add: holds_def)

lemma holds_gained [ledger]:
  "holds own h \<Longrightarrow> lost ev = {#} \<Longrightarrow> holds (own + gained ev) (ev # h)"
  by (auto simp: holds_def)

lemma holds_lost [ledger]:
  "holds (own + lost ev) h \<Longrightarrow> gained ev = {#} \<Longrightarrow> holds own (ev # h)"
  by (auto simp: holds_def)

lemma holds_create [simp]:
  "holds (add_mset (k, x) own) (ECreate ci (Inr x) # h) \<longleftrightarrow> holds own h" if "k = kind_of ci"
  using that by (auto simp: holds_def)

lemma holds_destroy [simp]:
  "holds own (EDestroy k x # h) \<longleftrightarrow> holds (add_mset (k, x) own) h"
  by (auto simp: holds_def)

text \<open>Releasing one handle after the other.\<close>

lemma holds_destroys:
  "holds own (rev (map (EDestroy k) xs) @ h) \<longleftrightarrow> holds (own + handles k xs) h"
  by (induction xs arbitrary: own h) (simp_all add: ac_simps)

lemma holds_free:
  "holds own (EFreeCommandBuffers pool xs # h) \<longleftrightarrow> holds (own + handles KCommandBuffer xs) h"
  by (auto simp: holds_def handles_def)

section \<open>Rules for the calls\<close>

lemma wps_vk_do [simp]: "wps (vk_do ev) Q E = (\<lambda>s. Q () (record_event ev s))"
  by (simp add: vk_do_def)

lemma run_vk_do:
  "sbind (vk_do ev) k s = k () (record_event ev s)" "vk_do ev s = (Inr (), record_event ev s)"
  by (simp_all add: vk_do_def run_sbind run_simps)

lemma vk_call_run:
  "vk_call reply ev s = (case reply (history s) of
     Inl r \<Rightarrow> (Inl (Error r), record_event (ev (Inl r)) s)
   | Inr x \<Rightarrow> (Inr x, record_event (ev (Inr x)) s))"
  by (simp add: vk_call_def)

lemma attempt_vk_call_run:
  "sbind (attempt (vk_call reply ev)) k s =
     (let r = reply (history s) in k r (record_event (ev r) s))"
  by (simp add: sbind_def attempt_def vk_call_def Let_def split: sum.split)

lemmas vk_eval = run_vk_do vk_call_run attempt_vk_call_run create_def query_def Let_def

lemma wps_vk_call:
  assumes "\<And>x. reply (history s) = Inr x \<Longrightarrow> Q x (record_event (ev (Inr x)) s)"
    and "\<And>r. reply (history s) = Inl r \<Longrightarrow> E (Error r) (record_event (ev (Inl r)) s)"
  shows "wps (vk_call reply ev) Q E s"
  using assms by (auto simp: wps_def vk_call_def split: sum.split)

lemma wps_query:
  assumes "\<And>x. f (history s) = Inr x \<Longrightarrow> Q x (record_event EQuery s)"
    and "\<And>r. f (history s) = Inl r \<Longrightarrow> E (Error r) (record_event EQuery s)"
  shows "wps (query f) Q E s"
  unfolding query_def by (rule wps_vk_call) (use assms in auto)

text \<open>
  What the Vulkan specification and \<^verbatim>\<open>ash\<close> promise: a successful creation returns a handle that
  is not null; as many command buffers are allocated as were asked for; the number of swapchain
  images is a \<^verbatim>\<open>u32\<close>.
\<close>

definition nonnull_handles :: "driver \<Rightarrow> bool" where
  "nonnull_handles d \<longleftrightarrow> (\<forall>h ci x. d_create d h ci = Inr x \<longrightarrow> x \<noteq> 0)"

lemma nonnullD: "nonnull_handles d \<Longrightarrow> d_create d h ci \<noteq> Inr 0"
  by (auto simp: nonnull_handles_def)

definition exact_counts :: "driver \<Rightarrow> bool" where
  "exact_counts d \<longleftrightarrow>
     (\<forall>h pool n xs. d_alloc_command_buffers d h pool n = Inr xs \<longrightarrow> length xs = unat n) \<and>
     (\<forall>h sc imgs. d_swapchain_images d h sc = Inr imgs \<longrightarrow> length imgs < 2 ^ 32)"

lemma wps_create:
  assumes "\<And>x. d_create d (history s) ci = Inr x \<Longrightarrow> Q x (record_event (ECreate ci (Inr x)) s)"
    and "\<And>r. d_create d (history s) ci = Inl r \<Longrightarrow> E (Error r) (record_event (ECreate ci (Inl r)) s)"
  shows "wps (create d ci) Q E s"
  unfolding create_def by (rule wps_vk_call) (use assms in auto)

text \<open>A loop that creates one object per element; a fault loses the handles created so far.\<close>

lemma wps_creates:
  assumes "holds own (history s)" and "\<And>x. kind_of (ci x) = k" and "nonnull_handles d"
    and "\<And>ys h. length ys = length xs \<Longrightarrow> 0 \<notin> set ys \<Longrightarrow> holds (own + handles k ys) h \<Longrightarrow>
      Q ys (s\<lparr>history := h\<rparr>)"
    and "\<And>ys h r. holds (own + handles k ys) h \<Longrightarrow> E (Error (g r)) (s\<lparr>history := h\<rparr>)"
  shows "wps (scollect (\<lambda>x. qmark g (create d (ci x))) (xs :: 'x list)) Q E s"
proof (rule wps_scollect [where I = "\<lambda>ys zs s'. \<exists>h. s' = s\<lparr>history := h\<rparr> \<and> length ys + length zs = length xs
    \<and> 0 \<notin> set (map snd ys) \<and> holds (own + handles k (map snd ys)) h"])
  show "\<exists>h. s = s\<lparr>history := h\<rparr> \<and> length [] + length xs = length xs \<and> 0 \<notin> set (map snd [])
      \<and> holds (own + handles k (map snd [])) h"
    using assms(1) by (intro exI [of _ "history s"]) simp
next
  fix ys :: "('x \<times> handle) list" and x :: 'x and zs s'
  assume "\<exists>h. s' = s\<lparr>history := h\<rparr> \<and> length ys + length (x # zs) = length xs
    \<and> 0 \<notin> set (map snd ys) \<and> holds (own + handles k (map snd ys)) h"
  then obtain h where h: "s' = s\<lparr>history := h\<rparr>" "length ys + length (x # zs) = length xs"
    "0 \<notin> set (map snd ys)" "holds (own + handles k (map snd ys)) h" by blast
  show "wps (qmark g (create d (ci x))) (\<lambda>y s'. \<exists>h. s' = s\<lparr>history := h\<rparr>
      \<and> length (ys @ [(x, y)]) + length zs = length xs \<and> 0 \<notin> set (map snd (ys @ [(x, y)]))
      \<and> holds (own + handles k (map snd (ys @ [(x, y)]))) h) E s'"
    using assms(2,3,5) h
    by (auto simp: nonnull_handles_def intro!: wps_create) (intro exI conjI, rule refl, simp)
next
  fix ys :: "('x \<times> handle) list" and s'
  assume "\<exists>h. s' = s\<lparr>history := h\<rparr> \<and> length ys + length [] = length xs
    \<and> 0 \<notin> set (map snd ys) \<and> holds (own + handles k (map snd ys)) h"
  then show "Q (map snd ys) s'" using assms(4) by force
qed

section \<open>What a computation adds to the history\<close>

definition extends :: "vk_event set \<Rightarrow> 's vk_world_scheme \<Rightarrow> 's vk_world_scheme \<Rightarrow> bool" where
  "extends S s s' \<longleftrightarrow> (\<exists>es. history s' = es @ history s \<and> set es \<subseteq> S)"

interpretation ext: preorder_on_states "extends S" for S
  by unfold_locales (auto simp: extends_def)

lemma extends_event: "ev \<in> S \<Longrightarrow> extends S s (record_event ev s)"
  unfolding extends_def by (intro exI [of _ "[ev]"]) simp

lemma stable_vk_call:
  assumes "\<And>r. ev r \<in> S"
  shows "stable (extends S) np (vk_call reply ev)"
  unfolding stable_def using assms by (auto intro!: wps_vk_call extends_event)

lemma stable_vk_do: "ev \<in> S \<Longrightarrow> stable (extends S) np (vk_do ev)"
  by (simp add: stable_def extends_event)

lemma stable_create: "(\<And>r. ECreate ci r \<in> S) \<Longrightarrow> stable (extends S) np (create d ci)"
  unfolding create_def by (rule stable_vk_call)

lemma stable_query: "EQuery \<in> S \<Longrightarrow> stable (extends S) np (query f)"
  unfolding query_def by (rule stable_vk_call)

lemma extends_same_history: "history s' = history s \<Longrightarrow> extends S s s'"
  by (simp add: extends_def)

lemmas ext_intros = stable_vk_call stable_vk_do stable_create stable_query extends_same_history

lemma stable_extends_mono: "stable (extends S) np m \<Longrightarrow> S \<subseteq> T \<Longrightarrow> stable (extends T) np m"
  unfolding stable_def extends_def by (fastforce elim!: wps_mono)

lemma extends_history:
  assumes "stable (extends S) np m"
  shows "\<exists>es. history (snd (m s)) = es @ history s"
  using stable_run(1) [OF assms, of s "fst (m s)" "snd (m s)"] by (auto simp: extends_def)

end
