(* ===== verification/PendingResize.thy ===== *)
theory PendingResize
  imports Prelude
begin

text \<open>
  The resize mailbox of \<^verbatim>\<open>src/vulkan_backend/state_machine.rs\<close> (and, word for word, of
  \<^verbatim>\<open>swapchain.rs\<close>): the window thread posts a size with \<^verbatim>\<open>request\<close>, the render
  thread collects it with \<^verbatim>\<open>take\<close>. First the two operations as functions, with the contract
  the render contexts rely on as a locale; then the same operations as sequences of atomic accesses
  that interleave.
\<close>

record pending_resize =
  flag :: bool
  width :: u32
  height :: u32

definition default_pending_resize :: pending_resize where
  "default_pending_resize = \<lparr>flag = False, width = 0, height = 0\<rparr>"

definition request :: "u32 \<Rightarrow> u32 \<Rightarrow> pending_resize \<Rightarrow> pending_resize" where
  "request w h m = m\<lparr>width := w, height := h, flag := True\<rparr>"

definition take_resize :: "pending_resize \<Rightarrow> (u32 \<times> u32) option \<times> pending_resize" where
  "take_resize m =
     (if flag m then (Some (width m, height m), m\<lparr>flag := False\<rparr>) else (None, m\<lparr>flag := False\<rparr>))"

section \<open>The contract\<close>

locale resize_mailbox =
  fixes post :: "u32 \<Rightarrow> u32 \<Rightarrow> 'm \<Rightarrow> 'm"
    and collect :: "'m \<Rightarrow> (u32 \<times> u32) option \<times> 'm"
    and fresh :: 'm
  assumes collect_fresh: "fst (collect fresh) = None"
    and collect_post: "fst (collect (post w h m)) = Some (w, h)"
    and collect_empties: "fst (collect (snd (collect m))) = None"
    and collect_none: "fst (collect m) = None \<Longrightarrow> snd (collect m) = m"
begin

text \<open>Any number of posts, then one collection: the last size, once.\<close>

definition posts :: "(u32 \<times> u32) list \<Rightarrow> 'm \<Rightarrow> 'm" where
  "posts sizes m = fold (\<lambda>(w, h). post w h) sizes m"

lemma posts_last:
  "sizes \<noteq> [] \<Longrightarrow> fst (collect (posts sizes m)) = Some (last sizes)"
  by (induction sizes rule: rev_induct) (auto simp: posts_def collect_post split: prod.split)

lemma posts_once:
  "fst (collect (snd (collect (posts sizes m)))) = None"
  by (rule collect_empties)

lemma collect_idem: "snd (collect (snd (collect m))) = snd (collect m)"
  by (rule collect_none) (rule collect_empties)

end

interpretation mailbox: resize_mailbox request take_resize default_pending_resize
  by unfold_locales (auto simp: request_def take_resize_def default_pending_resize_def)

section \<open>Interleavings\<close>

text \<open>
  The atomic accesses of one posting thread and one collecting thread (\<^verbatim>\<open>tick\<close> takes
  \<^verbatim>\<open>&mut self\<close>, so there is one collector). The flag is stored with release and swapped with
  acquire-release ordering after the size is stored, so what the collector reads behind the swap is at
  least as new as the values stored before the flag it saw; the model takes the accesses in one
  total order. \<open>last_posted\<close> and \<open>last_taken\<close> are for the statements only.
\<close>

datatype post_pc = PIdle | PWidth u32 u32 | PHeight u32 u32 | PFlag u32 u32
datatype take_pc = TIdle | TWidth | THeight u32

record threads =
  mem :: pending_resize
  poster :: post_pc
  taker :: take_pc
  last_posted :: "(u32 \<times> u32) option"
  last_taken :: "(u32 \<times> u32) option"

definition threads_init :: threads where
  "threads_init = \<lparr>mem = default_pending_resize, poster = PIdle, taker = TIdle,
     last_posted = None, last_taken = None\<rparr>"

inductive step :: "threads \<Rightarrow> threads \<Rightarrow> bool" where
  post_call: "poster s = PIdle \<Longrightarrow> step s (s\<lparr>poster := PWidth w h\<rparr>)"
| post_width: "poster s = PWidth w h \<Longrightarrow>
    step s (s\<lparr>mem := (mem s)\<lparr>width := w\<rparr>, poster := PHeight w h\<rparr>)"
| post_height: "poster s = PHeight w h \<Longrightarrow>
    step s (s\<lparr>mem := (mem s)\<lparr>height := h\<rparr>, poster := PFlag w h\<rparr>)"
| post_flag: "poster s = PFlag w h \<Longrightarrow>
    step s (s\<lparr>mem := (mem s)\<lparr>flag := True\<rparr>, poster := PIdle, last_posted := Some (w, h)\<rparr>)"
| take_swap: "taker s = TIdle \<Longrightarrow> flag (mem s) \<Longrightarrow>
    step s (s\<lparr>mem := (mem s)\<lparr>flag := False\<rparr>, taker := TWidth\<rparr>)"
| take_none: "taker s = TIdle \<Longrightarrow> \<not> flag (mem s) \<Longrightarrow> step s s"
| take_width: "taker s = TWidth \<Longrightarrow> step s (s\<lparr>taker := THeight (width (mem s))\<rparr>)"
| take_height: "taker s = THeight w \<Longrightarrow>
    step s (s\<lparr>taker := TIdle, last_taken := Some (w, height (mem s))\<rparr>)"

inductive_cases stepE: "step s s'"

inductive reachable :: "threads \<Rightarrow> bool" where
  reach_init: "reachable threads_init"
| reach_step: "reachable s \<Longrightarrow> step s s' \<Longrightarrow> reachable s'"

text \<open>
  Between two requests the last posted size is in memory, and it is still to be collected (the flag is
  set, or the collector is behind its swap and has read nothing older), or it was the last one taken.
\<close>

definition posted_kept :: "threads \<Rightarrow> bool" where
  "posted_kept s \<longleftrightarrow>
     (case last_posted s of
        None \<Rightarrow> poster s = PIdle \<longrightarrow> \<not> flag (mem s) \<and> taker s = TIdle
      | Some (w, h) \<Rightarrow> poster s = PIdle \<longrightarrow>
          width (mem s) = w \<and> height (mem s) = h \<and>
          (flag (mem s) \<or>
           (case taker s of TIdle \<Rightarrow> last_taken s = Some (w, h) | TWidth \<Rightarrow> True | THeight w' \<Rightarrow> w' = w)))"

text \<open>What holds while a request is under way.\<close>

definition posting_ok :: "threads \<Rightarrow> bool" where
  "posting_ok s \<longleftrightarrow>
     (case poster s of
        PHeight w h \<Rightarrow> width (mem s) = w
      | PFlag w h \<Rightarrow> width (mem s) = w \<and> height (mem s) = h
      | _ \<Rightarrow> True) \<and>
     (last_posted s = None \<longrightarrow> \<not> flag (mem s) \<and> taker s = TIdle)"

lemma reachable_kept: "reachable s \<Longrightarrow> posted_kept s \<and> posting_ok s"
proof (induction rule: reachable.induct)
  case reach_init
  then show ?case
    by (simp add: posted_kept_def posting_ok_def threads_init_def default_pending_resize_def)
next
  case (reach_step s s')
  from reach_step.hyps(2) reach_step.IH show ?case
    by cases (auto simp: posted_kept_def posting_ok_def split: option.splits post_pc.splits
        take_pc.splits prod.splits)
qed

text \<open>The two loads are not one access: a request in between mixes two sizes.\<close>

definition torn :: threads where
  "torn = \<lparr>mem = \<lparr>flag = False, width = 1920, height = 1080\<rparr>, poster = PFlag 1920 1080, taker = TIdle,
     last_posted = Some (800, 600), last_taken = Some (800, 1080)\<rparr>"

lemma run_step: "reachable s \<Longrightarrow> step s s' \<Longrightarrow> s' = t \<Longrightarrow> reachable t"
  using reach_step by blast

lemma reachable_torn: "reachable torn"
proof -
  let ?s = "\<lambda>w h f pc tk lp lt. \<lparr>mem = \<lparr>flag = f, width = w, height = h\<rparr>, poster = pc, taker = tk,
    last_posted = lp, last_taken = lt\<rparr>"
  have "reachable (?s 0 0 False PIdle TIdle None None)"
    using reach_init by (simp add: threads_init_def default_pending_resize_def)
  then have "reachable (?s 0 0 False (PWidth 800 600) TIdle None None)"
    by (rule run_step) (rule post_call [of _ 800 600], simp_all)
  then have "reachable (?s 800 0 False (PHeight 800 600) TIdle None None)"
    by (rule run_step) (rule post_width, simp_all)
  then have "reachable (?s 800 600 False (PFlag 800 600) TIdle None None)"
    by (rule run_step) (rule post_height, simp_all)
  then have "reachable (?s 800 600 True PIdle TIdle (Some (800, 600)) None)"
    by (rule run_step) (rule post_flag, simp_all)
  then have "reachable (?s 800 600 False PIdle TWidth (Some (800, 600)) None)"
    by (rule run_step) (rule take_swap, simp_all)
  then have "reachable (?s 800 600 False PIdle (THeight 800) (Some (800, 600)) None)"
    by (rule run_step) (rule take_width, simp_all)
  then have "reachable (?s 800 600 False (PWidth 1920 1080) (THeight 800) (Some (800, 600)) None)"
    by (rule run_step) (rule post_call [of _ 1920 1080], simp_all)
  then have "reachable (?s 1920 600 False (PHeight 1920 1080) (THeight 800) (Some (800, 600)) None)"
    by (rule run_step) (rule post_width, simp_all)
  then have "reachable (?s 1920 1080 False (PFlag 1920 1080) (THeight 800) (Some (800, 600)) None)"
    by (rule run_step) (rule post_height, simp_all)
  then have "reachable (?s 1920 1080 False (PFlag 1920 1080) TIdle (Some (800, 600)) (Some (800, 1080)))"
    by (rule run_step) (rule take_height, simp_all)
  then show ?thesis by (simp add: torn_def)
qed

lemma reachable_quiet:
  "reachable \<lparr>mem = \<lparr>flag = False, width = 800, height = 600\<rparr>, poster = PIdle, taker = TIdle,
     last_posted = Some (800, 600), last_taken = Some (800, 600)\<rparr>"
proof -
  let ?s = "\<lambda>w h f pc tk lp lt. \<lparr>mem = \<lparr>flag = f, width = w, height = h\<rparr>, poster = pc, taker = tk,
    last_posted = lp, last_taken = lt\<rparr>"
  have "reachable (?s 0 0 False PIdle TIdle None None)"
    using reach_init by (simp add: threads_init_def default_pending_resize_def)
  then have "reachable (?s 0 0 False (PWidth 800 600) TIdle None None)"
    by (rule run_step) (rule post_call [of _ 800 600], simp_all)
  then have "reachable (?s 800 0 False (PHeight 800 600) TIdle None None)"
    by (rule run_step) (rule post_width, simp_all)
  then have "reachable (?s 800 600 False (PFlag 800 600) TIdle None None)"
    by (rule run_step) (rule post_height, simp_all)
  then have "reachable (?s 800 600 True PIdle TIdle (Some (800, 600)) None)"
    by (rule run_step) (rule post_flag, simp_all)
  then have "reachable (?s 800 600 False PIdle TWidth (Some (800, 600)) None)"
    by (rule run_step) (rule take_swap, simp_all)
  then have "reachable (?s 800 600 False PIdle (THeight 800) (Some (800, 600)) None)"
    by (rule run_step) (rule take_width, simp_all)
  then show ?thesis by (rule run_step) (rule take_height, simp_all)
qed

section \<open>Properties\<close>

text \<open>
  C17: No resize is lost under any interleaving of the poster's and the collector's atomic accesses: when
  both are between calls and the flag is clear, the last size collected is the last size posted.
\<close>

theorem no_lost_resize:
  assumes "reachable s" and "last_posted s = Some sz" and "poster s = PIdle"
    and "\<not> flag (mem s)" and "taker s = TIdle"
  shows "last_taken s = Some sz"
  using reachable_kept [OF assms(1)] assms(2-) by (cases sz) (auto simp: posted_kept_def)

theorem no_lost_resize_witness:
  "\<exists>s. reachable s \<and> last_posted s = Some (800, 600) \<and> last_taken s = Some (800, 600)"
  using no_lost_resize [OF reachable_quiet] reachable_quiet by fastforce

text \<open>
  The two loads of \<^verbatim>\<open>take\<close> are not one access: it can return the width of one request
  and the height of the next, a size that was never posted.
\<close>

theorem torn_resize:
  "\<exists>s. reachable s \<and> last_posted s = Some (800, 600) \<and> poster s = PFlag 1920 1080 \<and>
     last_taken s = Some (800, 1080)"
  using reachable_torn by (intro exI [of _ torn]) (simp add: torn_def)

end
