(* ===== verification/RenderContext.thy ===== *)
theory RenderContext
  imports Vk PendingResize
begin

text \<open>
  What the two versions of the window render context share
  (\<^verbatim>\<open>src/vulkan_backend/state_machine.rs\<close> and \<^verbatim>\<open>swapchain.rs\<close>): their
  structures, the release of the swapchain resources, the choices made from the surface's
  capabilities, and the creation steps. The versions themselves are theories
  \<^verbatim>\<open>StateMachine\<close> and \<^verbatim>\<open>Swapchain\<close>.
\<close>

section \<open>Structures\<close>

definition MAX_FRAMES_IN_FLIGHT :: nat where
  "MAX_FRAMES_IN_FLIGHT = 3"

datatype swapchain_error = VkError vk_result | NoSurfaceFormats | NoPresentModes | ZeroExtent

datatype window_render_state = Uninitialized | Ready | Recreating | Lost

record shared_device =
  sd_instance :: handle
  sd_physical_device :: handle
  sd_device :: handle
  sd_graphics_queue :: handle
  sd_graphics_queue_family :: u32
  sd_transfer_queue :: handle
  sd_transfer_queue_family :: u32
  sd_command_pool :: handle

record frame_sync =
  image_available :: handle
  render_finished :: handle
  in_flight :: handle

record acquired =
  aq_image_index :: u32
  aq_command_buffer :: handle
  aq_framebuffer :: handle
  aq_render_pass :: handle
  aq_extent :: extent2d

datatype tick_outcome = Recreated | Acquired acquired

text \<open>The context; the history of the driver calls is the base of the record. The monitor is left out.\<close>

record window_ctx = vk_world +
  shared :: shared_device
  surface :: handle
  swapchain :: handle
  images :: "handle list"
  image_views :: "handle list"
  framebuffers :: "handle list"
  render_pass :: handle
  command_buffers :: "handle list"
  frames :: "frame_sync list"
  extent :: extent2d
  wformat :: format
  current_frame :: nat
  state :: window_render_state
  pending_resize :: pending_resize

type_synonym 'a win = "(window_ctx, swapchain_error, 'a) smonad"

text \<open>The \<^verbatim>\<open>Self\<close> literal of \<^verbatim>\<open>new\<close>.\<close>

definition initial_ctx :: "history \<Rightarrow> shared_device \<Rightarrow> handle \<Rightarrow> u32 \<Rightarrow> u32 \<Rightarrow> window_ctx" where
  "initial_ctx h sd surf w h' =
     \<lparr>history = h, shared = sd, surface = surf, swapchain = 0, images = [], image_views = [],
      framebuffers = [], render_pass = 0, command_buffers = [], frames = [],
      extent = \<lparr>ewidth = w, eheight = h'\<rparr>, wformat = UNDEFINED, current_frame = 0,
      state = Uninitialized, pending_resize = default_pending_resize\<rparr>"

section \<open>Releasing\<close>

text \<open>
  \<^verbatim>\<open>destroy_swapchain_resources\<close> as \<^verbatim>\<open>swapchain.rs\<close> has it; the other version
  first waits for the device.
\<close>

definition release_swapchain_resources :: "unit win" where
  "release_swapchain_resources =
     sbind (sget (\<lambda>c. (command_buffers c, sd_command_pool (shared c)))) (\<lambda>(cbs, pool).
     sbind (if cbs \<noteq> []
            then sbind (vk_do (EFreeCommandBuffers pool cbs)) (\<lambda>_.
                 supd (\<lambda>c. c\<lparr>command_buffers := []\<rparr>))
            else sret ()) (\<lambda>_.
     sbind (sget framebuffers) (\<lambda>fbs.
     sbind (seach (\<lambda>fb. vk_do (EDestroy KFramebuffer fb)) fbs) (\<lambda>_.
     sbind (supd (\<lambda>c. c\<lparr>framebuffers := []\<rparr>)) (\<lambda>_.
     sbind (sget render_pass) (\<lambda>rp.
     sbind (if rp \<noteq> 0
            then sbind (vk_do (EDestroy KRenderPass rp)) (\<lambda>_. supd (\<lambda>c. c\<lparr>render_pass := 0\<rparr>))
            else sret ()) (\<lambda>_.
     sbind (sget image_views) (\<lambda>views.
     sbind (seach (\<lambda>view. vk_do (EDestroy KImageView view)) views) (\<lambda>_.
     sbind (supd (\<lambda>c. c\<lparr>image_views := []\<rparr>)) (\<lambda>_.
     supd (\<lambda>c. c\<lparr>images := []\<rparr>)))))))))))"

definition wait_idle :: "driver \<Rightarrow> ('s, unit) vk" where
  "wait_idle d = vk_call (d_wait_idle d) EWaitIdle"

definition destroy_frame :: "frame_sync \<Rightarrow> unit win" where
  "destroy_frame frame =
     sbind (vk_do (EDestroy KSemaphore (image_available frame))) (\<lambda>_.
     sbind (vk_do (EDestroy KSemaphore (render_finished frame))) (\<lambda>_.
     vk_do (EDestroy KFence (in_flight frame))))"

text \<open>\<^verbatim>\<open>Drop for WindowRenderContext\<close>, over its \<^verbatim>\<open>destroy_swapchain_resources\<close>.\<close>

definition drop_ctx :: "driver \<Rightarrow> unit win \<Rightarrow> unit win" where
  "drop_ctx d destroy =
     sbind (attempt (wait_idle d)) (\<lambda>_ :: unit vkr.
     sbind destroy (\<lambda>_.
     sbind (sget swapchain) (\<lambda>sc.
     sbind (if sc \<noteq> 0 then vk_do (EDestroy KSwapchain sc) else sret ()) (\<lambda>_.
     sbind (sget frames) (\<lambda>fs.
     sbind (seach destroy_frame fs) (\<lambda>_.
     sbind (sget surface) (\<lambda>surf.
     vk_do (EDestroy KSurface surf))))))))"

section \<open>Choices\<close>

text \<open>\<^verbatim>\<open>Ord::clamp\<close> asserts that its bounds are in order.\<close>

definition clamp :: "u32 \<Rightarrow> u32 \<Rightarrow> u32 \<Rightarrow> ('e, u32) outcome" where
  "clamp x lo hi =
     (if hi < lo then Inl (Panic Unwrapped)
      else Inr (if x < lo then lo else if hi < x then hi else x))"

definition choose_surface_format :: "surface_format list \<Rightarrow> ('e, surface_format) outcome" where
  "choose_surface_format formats =
     (case find (\<lambda>f. sf_format f = B8G8R8A8_SRGB \<and> sf_color_space f = SRGB_NONLINEAR) formats of
        Some f \<Rightarrow> Inr f
      | None \<Rightarrow>
          (case find (\<lambda>f. sf_format f = B8G8R8A8_UNORM) formats of
             Some f \<Rightarrow> Inr f
           | None \<Rightarrow> index formats 0))"

definition choose_extent :: "surface_caps \<Rightarrow> u32 \<Rightarrow> u32 \<Rightarrow> ('e, extent2d) outcome" where
  "choose_extent caps want_w want_h =
     (if ewidth (caps_current_extent caps) \<noteq> 0xFFFFFFFF then Inr (caps_current_extent caps)
      else
        bnd (clamp want_w (ewidth (caps_min_image_extent caps)) (ewidth (caps_max_image_extent caps))) (\<lambda>w.
        bnd (clamp want_h (eheight (caps_min_image_extent caps)) (eheight (caps_max_image_extent caps))) (\<lambda>h.
        Inr \<lparr>ewidth = w, eheight = h\<rparr>)))"

section \<open>Creation steps\<close>

definition swapchain_info_of :: "handle \<Rightarrow> surface_caps \<Rightarrow> surface_format \<Rightarrow> present_mode \<Rightarrow> extent2d
    \<Rightarrow> u32 \<Rightarrow> handle \<Rightarrow> swapchain_info" where
  "swapchain_info_of surf caps chosen mode ext image_count old =
     \<lparr>sci_surface = surf, sci_min_image_count = image_count, sci_format = sf_format chosen,
      sci_color_space = sf_color_space chosen, sci_extent = ext, sci_array_layers = 1,
      sci_transform = caps_current_transform caps, sci_present_mode = mode, sci_clipped = True,
      sci_old_swapchain = old\<rparr>"

text \<open>The new swapchain takes the place of the old one, which is destroyed once it is replaced.\<close>

definition replace_swapchain :: "driver \<Rightarrow> surface_caps \<Rightarrow> surface_format \<Rightarrow> present_mode \<Rightarrow> extent2d
    \<Rightarrow> u32 \<Rightarrow> unit win" where
  "replace_swapchain d caps chosen mode ext image_count =
     sbind (sget swapchain) (\<lambda>old.
     sbind (sget surface) (\<lambda>surf.
     sbind (qmark VkError (create d (SwapchainInfo
       (swapchain_info_of surf caps chosen mode ext image_count old)))) (\<lambda>new.
     sbind (if old \<noteq> 0 then vk_do (EDestroy KSwapchain old) else sret ()) (\<lambda>_.
     supd (\<lambda>c. c\<lparr>swapchain := new, extent := ext, wformat := sf_format chosen\<rparr>)))))"

definition create_views :: "driver \<Rightarrow> unit win" where
  "create_views d =
     sbind (sget swapchain) (\<lambda>sc.
     sbind (qmark VkError (query (\<lambda>h. d_swapchain_images d h sc))) (\<lambda>imgs.
     sbind (supd (\<lambda>c. c\<lparr>images := imgs\<rparr>)) (\<lambda>_.
     sbind (sget wformat) (\<lambda>fmt.
     sbind (scollect (\<lambda>image. qmark VkError (create d (ImageViewInfo image fmt))) imgs) (\<lambda>views.
     supd (\<lambda>c. c\<lparr>image_views := views\<rparr>))))))"

definition create_render_pass :: "driver \<Rightarrow> attachment_description option \<Rightarrow> unit win" where
  "create_render_pass d att =
     sbind (qmark VkError (create d (RenderPassInfo att))) (\<lambda>rp.
     supd (\<lambda>c. c\<lparr>render_pass := rp\<rparr>))"

definition create_framebuffers :: "driver \<Rightarrow> extent2d \<Rightarrow> unit win" where
  "create_framebuffers d ext =
     sbind (sget (\<lambda>c. (image_views c, render_pass c))) (\<lambda>(views, rp).
     sbind (scollect (\<lambda>view. qmark VkError (create d (FramebufferInfo rp [view] ext))) views) (\<lambda>fbs.
     supd (\<lambda>c. c\<lparr>framebuffers := fbs\<rparr>)))"

definition alloc_command_buffers :: "driver \<Rightarrow> handle \<Rightarrow> u32 \<Rightarrow> ('s, handle list) vk" where
  "alloc_command_buffers d pool n =
     vk_call (\<lambda>h. d_alloc_command_buffers d h pool n) (EAllocCommandBuffers pool n)"

definition allocate_commands :: "driver \<Rightarrow> unit win" where
  "allocate_commands d =
     sbind (sget (\<lambda>c. (sd_command_pool (shared c), images c))) (\<lambda>(pool, imgs).
     sbind (qmark VkError (alloc_command_buffers d pool (of_nat (length imgs)))) (\<lambda>cbs.
     supd (\<lambda>c. c\<lparr>command_buffers := cbs\<rparr>)))"

definition create_frame :: "driver \<Rightarrow> frame_sync win" where
  "create_frame d =
     sbind (qmark VkError (create d SemaphoreInfo)) (\<lambda>available.
     sbind (qmark VkError (create d SemaphoreInfo)) (\<lambda>finished.
     sbind (qmark VkError (create d (FenceInfo True))) (\<lambda>fence.
     sret \<lparr>image_available = available, render_finished = finished, in_flight = fence\<rparr>)))"

definition ensure_frames :: "driver \<Rightarrow> unit win" where
  "ensure_frames d =
     sbind (sget frames) (\<lambda>fs.
     if fs = [] then
       sbind (scollect (\<lambda>_. create_frame d) [0..<MAX_FRAMES_IN_FLIGHT]) (\<lambda>fs.
       supd (\<lambda>c. c\<lparr>frames := fs\<rparr>))
     else sret ())"

section \<open>What a context owns\<close>

definition opt_handle :: "res_kind \<Rightarrow> handle \<Rightarrow> ledger" where
  "opt_handle k x = (if x = 0 then {#} else {#(k, x)#})"

definition frame_ledger :: "frame_sync \<Rightarrow> ledger" where
  "frame_ledger f = {#(KSemaphore, image_available f), (KSemaphore, render_finished f), (KFence, in_flight f)#}"

definition frames_ledger :: "frame_sync list \<Rightarrow> ledger" where
  "frames_ledger fs = sum_list (map frame_ledger fs)"

text \<open>What \<open>release_swapchain_resources\<close> releases, and the rest.\<close>

definition transient :: "window_ctx \<Rightarrow> ledger" where
  "transient c = handles KImageView (image_views c) + handles KFramebuffer (framebuffers c)
     + opt_handle KRenderPass (render_pass c) + handles KCommandBuffer (command_buffers c)"

definition permanent :: "window_ctx \<Rightarrow> ledger" where
  "permanent c = {#(KSurface, surface c)#} + opt_handle KSwapchain (swapchain c) + frames_ledger (frames c)"

definition owned :: "window_ctx \<Rightarrow> ledger" where
  "owned c = permanent c + transient c"

lemma opt_handle_simps [simp]: "opt_handle k 0 = {#}" "x \<noteq> 0 \<Longrightarrow> opt_handle k x = {#(k, x)#}"
  by (simp_all add: opt_handle_def)

lemma frames_ledger_simps [simp]:
  "frames_ledger [] = {#}" "frames_ledger (f # fs) = frame_ledger f + frames_ledger fs"
  by (simp_all add: frames_ledger_def)

lemma owned_history [simp]:
  "transient (c\<lparr>history := h\<rparr>) = transient c" "permanent (c\<lparr>history := h\<rparr>) = permanent c"
  by (simp_all add: transient_def permanent_def)

section \<open>Releasing keeps the books\<close>

lemma seach_destroys:
  "seach (\<lambda>x. vk_do (EDestroy k x)) xs s
     = (Inr (), s\<lparr>history := rev (map (EDestroy k) xs) @ history s\<rparr>)"
  by (induction xs arbitrary: s) (simp_all add: sret_def sbind_def vk_do_def supd_def)

definition release_events :: "window_ctx \<Rightarrow> history" where
  "release_events c =
     rev (map (EDestroy KImageView) (image_views c)) @
     (if render_pass c \<noteq> 0 then [EDestroy KRenderPass (render_pass c)] else []) @
     rev (map (EDestroy KFramebuffer) (framebuffers c)) @
     (if command_buffers c \<noteq> []
      then [EFreeCommandBuffers (sd_command_pool (shared c)) (command_buffers c)] else [])"

definition released :: "window_ctx \<Rightarrow> window_ctx" where
  "released c = c\<lparr>images := [], image_views := [], framebuffers := [], render_pass := 0,
     command_buffers := []\<rparr>"

lemma release_run:
  "release_swapchain_resources c = (Inr (), (released c)\<lparr>history := release_events c @ history c\<rparr>)"
  by (cases c) (simp add: release_swapchain_resources_def release_events_def released_def
      sbind_run(1) [OF seach_destroys] run_sbind run_simps run_vk_do)

lemma holds_release:
  "holds own (release_events c @ h) \<longleftrightarrow> holds (own + transient c) h"
  by (auto simp: release_events_def holds_destroys holds_free transient_def opt_handle_def ac_simps)

lemma wps_release:
  assumes "holds (own + transient c) (history c)"
    and "\<And>h. holds own h \<Longrightarrow> Q () ((released c)\<lparr>history := h\<rparr>)"
  shows "wps release_swapchain_resources Q E c"
  using assms by (simp add: wps_def release_run holds_release)

lemma wps_wait_idle:
  assumes "\<And>h r. holds own h \<Longrightarrow> Q r (s\<lparr>history := h\<rparr>)" and "holds own (history s)"
  shows "wps (attempt (wait_idle d)) Q E s"
  unfolding wait_idle_def wps_attempt by (rule wps_vk_call) (use assms in simp_all)

lemma holds_destroy_frames:
  "holds own (concat (map (\<lambda>f. [EDestroy KFence (in_flight f), EDestroy KSemaphore (render_finished f),
     EDestroy KSemaphore (image_available f)]) fs) @ h) \<longleftrightarrow> holds (own + frames_ledger fs) h"
  by (induction fs arbitrary: own) (simp_all add: frame_ledger_def ac_simps)

lemma seach_destroy_frame:
  "seach destroy_frame fs c = (Inr (), c\<lparr>history := concat (map (\<lambda>f. [EDestroy KFence (in_flight f),
     EDestroy KSemaphore (render_finished f), EDestroy KSemaphore (image_available f)]) (rev fs)) @ history c\<rparr>)"
  by (induction fs arbitrary: c) (simp_all add: destroy_frame_def sret_def sbind_def vk_do_def supd_def)

lemma frames_ledger_rev [simp]: "frames_ledger (rev fs) = frames_ledger fs"
  by (induction fs) (simp_all add: frames_ledger_def)

lemma wps_destroy_frames:
  assumes "holds (own + frames_ledger fs) (history c)" and "\<And>h. holds own h \<Longrightarrow> Q () (c\<lparr>history := h\<rparr>)"
  shows "wps (seach destroy_frame fs) Q E c"
  using assms by (simp add: wps_def seach_destroy_frame holds_destroy_frames)

text \<open>Dropping a context releases everything it owns.\<close>

lemma wps_drop:
  assumes destroy: "\<And>own c Q. holds (own + transient c) (history c) \<Longrightarrow>
      (\<And>h. holds own h \<Longrightarrow> Q () ((released c)\<lparr>history := h\<rparr>)) \<Longrightarrow> wps destroy Q E c"
    and "holds (rest + owned c) (history c)"
    and "\<And>h. holds rest h \<Longrightarrow> Q () ((released c)\<lparr>history := h\<rparr>)"
  shows "wps (drop_ctx d destroy) Q E c"
proof -
  have "wps destroy (\<lambda>_. wps (sbind (sget swapchain) (\<lambda>sc.
      sbind (if sc \<noteq> 0 then vk_do (EDestroy KSwapchain sc) else sret ()) (\<lambda>_.
      sbind (sget frames) (\<lambda>fs. sbind (seach destroy_frame fs) (\<lambda>_.
      sbind (sget surface) (\<lambda>surf. vk_do (EDestroy KSurface surf))))))) Q E) E (c\<lparr>history := h\<rparr>)"
    if "holds (rest + owned c) h" for h
  proof (rule destroy)
    show "holds ((rest + permanent c) + transient (c\<lparr>history := h\<rparr>)) (history (c\<lparr>history := h\<rparr>))"
      using that by (simp add: owned_def ac_simps)
    fix h'
    assume h': "holds (rest + permanent c) h'"
    let ?c = "(released (c\<lparr>history := h\<rparr>))\<lparr>history := h'\<rparr>"
    show "wps (sbind (sget swapchain) (\<lambda>sc.
      sbind (if sc \<noteq> 0 then vk_do (EDestroy KSwapchain sc) else sret ()) (\<lambda>_.
      sbind (sget frames) (\<lambda>fs. sbind (seach destroy_frame fs) (\<lambda>_.
      sbind (sget surface) (\<lambda>surf. vk_do (EDestroy KSurface surf))))))) Q E ?c"
      using h' assms(3)
      by (auto simp: permanent_def released_def opt_handle_def ac_simps add_mset_commute
          intro!: wps_destroy_frames [where own = "add_mset (KSurface, surface c) rest"])
  qed
  then show ?thesis
    using assms(2) unfolding drop_ctx_def
    by (simp only: wps_sbind) (rule wps_wait_idle, simp_all)
qed

section \<open>The creation steps keep the books\<close>

text \<open>
  Each rule says which objects are added to \<open>own\<close>, what exists when a step succeeds, and what has been
  created and is referred to by nothing when it fails.
\<close>

lemma wps_replace_swapchain:
  assumes "holds (own + opt_handle KSwapchain (swapchain c)) (history c)" and "nonnull_handles d"
    and "\<And>h new. new \<noteq> 0 \<Longrightarrow> holds (own + opt_handle KSwapchain new) h \<Longrightarrow>
      Q () (c\<lparr>history := h, swapchain := new, extent := ext, wformat := sf_format chosen\<rparr>)"
    and "\<And>h r. holds (own + opt_handle KSwapchain (swapchain c)) h \<Longrightarrow>
      E (Error (VkError r)) (c\<lparr>history := h\<rparr>)"
  shows "wps (replace_swapchain d caps chosen mode ext image_count) Q E c"
  unfolding replace_swapchain_def
  using assms(1,2)
  by (auto simp: opt_handle_def add_mset_commute intro!: wps_create assms(3,4)
      split: if_splits) (simp_all add: nonnullD)

lemma wps_create_views:
  assumes "holds own (history c)" and "nonnull_handles d" and "exact_counts d"
    and "\<And>h imgs views. length views = length imgs \<Longrightarrow> length imgs < 2 ^ 32 \<Longrightarrow>
      holds (own + handles KImageView views) h \<Longrightarrow> Q () (c\<lparr>images := imgs, history := h, image_views := views\<rparr>)"
    and "\<And>h r. holds own h \<Longrightarrow> E (Error (VkError r)) (c\<lparr>history := h\<rparr>)"
    and "\<And>h r imgs vs. holds (own + handles KImageView vs) h \<Longrightarrow>
      E (Error (VkError r)) (c\<lparr>images := imgs, history := h\<rparr>)"
  shows "wps (create_views d) Q E c"
  unfolding create_views_def
  using assms(1,3)
  by (auto simp: exact_counts_def intro!: wps_query wps_creates [OF _ _ assms(2)] assms(4-))

lemma wps_create_render_pass:
  assumes "holds own (history c)" and "nonnull_handles d"
    and "\<And>h rp. rp \<noteq> 0 \<Longrightarrow> holds (own + opt_handle KRenderPass rp) h \<Longrightarrow>
      Q () (c\<lparr>history := h, render_pass := rp\<rparr>)"
    and "\<And>h r. holds own h \<Longrightarrow> E (Error (VkError r)) (c\<lparr>history := h\<rparr>)"
  shows "wps (create_render_pass d att) Q E c"
  unfolding create_render_pass_def
  using assms(1,2) by (auto simp: opt_handle_def intro!: wps_create assms(3,4)) (simp_all add: nonnullD)

lemma wps_create_framebuffers:
  assumes "holds own (history c)" and "nonnull_handles d"
    and "\<And>h fbs. length fbs = length (image_views c) \<Longrightarrow> holds (own + handles KFramebuffer fbs) h \<Longrightarrow>
      Q () (c\<lparr>history := h, framebuffers := fbs\<rparr>)"
    and "\<And>h r fbs. holds (own + handles KFramebuffer fbs) h \<Longrightarrow> E (Error (VkError r)) (c\<lparr>history := h\<rparr>)"
  shows "wps (create_framebuffers d ext) Q E c"
  unfolding create_framebuffers_def
  using assms(1) by (auto intro!: wps_creates [OF _ _ assms(2)] assms(3,4))

lemma unat_of_nat_len: "n < 2 ^ 32 \<Longrightarrow> unat (of_nat n :: u32) = n"
  by (simp add: unat_of_nat)

lemma wps_allocate_commands:
  assumes "holds own (history c)" and "exact_counts d" and "length (images c) < 2 ^ 32"
    and "\<And>h cbs. length cbs = length (images c) \<Longrightarrow> holds (own + handles KCommandBuffer cbs) h \<Longrightarrow>
      Q () (c\<lparr>history := h, command_buffers := cbs\<rparr>)"
    and "\<And>h r. holds own h \<Longrightarrow> E (Error (VkError r)) (c\<lparr>history := h\<rparr>)"
  shows "wps (allocate_commands d) Q E c"
  unfolding allocate_commands_def alloc_command_buffers_def
  using assms(1-3)
  by (auto simp: exact_counts_def unat_of_nat_len holds_def handles_def intro!: wps_vk_call assms(4,5))

lemma wps_create_frame:
  assumes "holds own (history c)" and "nonnull_handles d"
    and "\<And>h f. holds (own + frame_ledger f) h \<Longrightarrow> Q f (c\<lparr>history := h\<rparr>)"
    and "\<And>h r K. fst ` set_mset K \<subseteq> {KSemaphore, KFence} \<Longrightarrow> holds (own + K) h \<Longrightarrow>
      E (Error (VkError r)) (c\<lparr>history := h\<rparr>)"
  shows "wps (create_frame d) Q E c"
  unfolding create_frame_def
proof (simp, intro wps_create, goal_cases)
  case (1 x y z)
  show ?case using assms(1) 
    by (simp, intro assms(3)) (simp add: frame_ledger_def holds_def add_mset_commute del: holds_create)
next
  case (2 x y r)
  have "holds (own + {#(KSemaphore, y), (KSemaphore, x)#})
      (ECreate SemaphoreInfo (Inr y) # ECreate SemaphoreInfo (Inr x) # history c)"
    using assms(1) by (simp add: holds_def del: holds_create)
  then show ?case by (simp add: assms(4) [of "{#(KSemaphore, y), (KSemaphore, x)#}"])
next
  case (3 x r)
  show ?case using assms(1) by (simp, intro assms(4) [of "{#(KSemaphore, x)#}"]) simp_all
next
  case (4 r)
  show ?case using assms(1) by (simp, intro assms(4) [of "{#}"]) simp_all
qed

lemma frames_ledger_kinds: "fst ` set_mset (frames_ledger fs) \<subseteq> {KSemaphore, KFence}"
  by (induction fs) (auto simp: frame_ledger_def)

lemma frames_ledger_append [simp]: "frames_ledger (fs @ gs) = frames_ledger fs + frames_ledger gs"
  by (simp add: frames_ledger_def)

lemma wps_ensure_frames:
  assumes "holds own (history c)" and "nonnull_handles d"
    and "frames c \<noteq> [] \<Longrightarrow> Q () c"
    and "\<And>h fs. frames c = [] \<Longrightarrow> length fs = MAX_FRAMES_IN_FLIGHT \<Longrightarrow> holds (own + frames_ledger fs) h \<Longrightarrow>
      Q () (c\<lparr>history := h, frames := fs\<rparr>)"
    and "\<And>h r K. frames c = [] \<Longrightarrow> fst ` set_mset K \<subseteq> {KSemaphore, KFence} \<Longrightarrow> holds (own + K) h \<Longrightarrow>
      E (Error (VkError r)) (c\<lparr>history := h\<rparr>)"
  shows "wps (ensure_frames d) Q E c"
proof (cases "frames c = []")
  case True
  let ?I = "\<lambda>(ys :: (nat \<times> frame_sync) list) (zs :: nat list) s. \<exists>h. s = c\<lparr>history := h\<rparr> \<and>
    holds (own + frames_ledger (map snd ys)) h \<and> length ys + length zs = MAX_FRAMES_IN_FLIGHT"
  have "wps (scollect (\<lambda>_. create_frame d) [0..<MAX_FRAMES_IN_FLIGHT])
      (\<lambda>fs s. Q () (s\<lparr>frames := fs\<rparr>)) E c"
  proof (rule wps_scollect [where I = ?I])
    show "?I [] [0..<MAX_FRAMES_IN_FLIGHT] c"
      using assms(1) by (intro exI [of _ "history c"]) simp
  next
    fix ys i zs s
    assume "?I ys (i # zs) s"
    then obtain h where h: "s = c\<lparr>history := h\<rparr>" "holds (own + frames_ledger (map snd ys)) h"
      "length ys + length (i # zs) = MAX_FRAMES_IN_FLIGHT" by blast
    show "wps (create_frame d) (\<lambda>f. ?I (ys @ [(i, f)]) zs) E s"
    proof (rule wps_create_frame [OF _ assms(2)])
      show "holds (own + frames_ledger (map snd ys)) (history s)" using h by simp
    next
      fix h' f
      assume "holds (own + frames_ledger (map snd ys) + frame_ledger f) h'"
      then show "?I (ys @ [(i, f)]) zs (s\<lparr>history := h'\<rparr>)"
        using h by (intro exI [of _ h']) (simp add: ac_simps)
    next
      fix h' r K
      assume "fst ` set_mset K \<subseteq> {KSemaphore, KFence}"
        "holds (own + frames_ledger (map snd ys) + K) h'"
      then show "E (Error (VkError r)) (s\<lparr>history := h'\<rparr>)"
        using assms(5) [OF True, of "frames_ledger (map snd ys) + K" h'] frames_ledger_kinds h(1)
        by (simp add: image_Un ac_simps)
    qed
  next
    fix ys s
    assume "?I ys [] s"
    then show "Q () (s\<lparr>frames := map snd ys\<rparr>)"
      using assms(4) [OF True, of "map snd ys"] by auto
  qed
  then show ?thesis using True by (simp add: ensure_frames_def)
next
  case False
  then show ?thesis using assms(3) by (simp add: ensure_frames_def)
qed

section \<open>Building a swapchain\<close>

text \<open>
  The two halves of \<^verbatim>\<open>build_swapchain\<close> behind the release. The versions differ in the present
  mode they pick and the image count they ask for (\<open>pick\<close>, \<open>counts\<close>), and in what they say about the
  attachment of the render pass (\<open>att\<close>).
\<close>

definition negotiate :: "driver \<Rightarrow> (present_mode list \<Rightarrow> present_mode)
    \<Rightarrow> (surface_caps \<Rightarrow> present_mode \<Rightarrow> (swapchain_error, u32) outcome) \<Rightarrow> u32 \<Rightarrow> u32
    \<Rightarrow> (surface_caps \<times> surface_format \<times> present_mode \<times> extent2d \<times> u32) win" where
  "negotiate d pick counts want_w want_h =
     sbind (sget surface) (\<lambda>surf.
     sbind (qmark VkError (query (\<lambda>h. d_surface_caps d h surf))) (\<lambda>caps.
     sbind (qmark VkError (query (\<lambda>h. d_surface_formats d h surf))) (\<lambda>formats.
     if formats = [] then sfail (Error NoSurfaceFormats)
     else
       sbind (slift (choose_surface_format formats)) (\<lambda>chosen.
       sbind (qmark VkError (query (\<lambda>h. d_present_modes d h surf))) (\<lambda>modes.
       if modes = [] then sfail (Error NoPresentModes)
       else
         sbind (slift (choose_extent caps want_w want_h)) (\<lambda>ext.
         if ewidth ext = 0 \<or> eheight ext = 0 then sfail (Error ZeroExtent)
         else
           sbind (slift (counts caps (pick modes))) (\<lambda>image_count.
           sret (caps, chosen, pick modes, ext, image_count))))))))"

definition assemble :: "driver \<Rightarrow> (format \<Rightarrow> attachment_description option)
    \<Rightarrow> surface_caps \<times> surface_format \<times> present_mode \<times> extent2d \<times> u32 \<Rightarrow> unit win" where
  "assemble d att = (\<lambda>(caps, chosen, mode, ext, image_count).
     sbind (replace_swapchain d caps chosen mode ext image_count) (\<lambda>_.
     sbind (create_views d) (\<lambda>_.
     sbind (create_render_pass d (att (sf_format chosen))) (\<lambda>_.
     sbind (create_framebuffers d ext) (\<lambda>_.
     sbind (allocate_commands d) (\<lambda>_.
     ensure_frames d))))))"

text \<open>
  \<open>books L c\<close>: everything that exists is owned by the context, but for \<open>L\<close>. \<open>complete c\<close>: the context
  can be drawn with. \<open>kept c c'\<close>: what no build changes. \<open>leak K\<close>: the kinds of handle a failed build
  may lose.
\<close>

definition books :: "ledger \<Rightarrow> window_ctx \<Rightarrow> bool" where
  "books L c \<longleftrightarrow> holds (owned c + L) (history c)"

definition complete :: "window_ctx \<Rightarrow> bool" where
  "complete c \<longleftrightarrow> swapchain c \<noteq> 0 \<and> render_pass c \<noteq> 0 \<and> length (image_views c) = length (images c) \<and>
     length (framebuffers c) = length (images c) \<and> length (command_buffers c) = length (images c) \<and>
     frames c \<noteq> [] \<and> ewidth (extent c) \<noteq> 0 \<and> eheight (extent c) \<noteq> 0"

definition kept :: "window_ctx \<Rightarrow> window_ctx \<Rightarrow> bool" where
  "kept c c' \<longleftrightarrow> shared c' = shared c \<and> surface c' = surface c \<and> current_frame c' = current_frame c \<and>
     state c' = state c \<and> pending_resize c' = pending_resize c \<and>
     (frames c \<noteq> [] \<longrightarrow> frames c' = frames c) \<and>
     (frames c = [] \<longrightarrow> length (frames c') \<in> {0, MAX_FRAMES_IN_FLIGHT})"

definition leak :: "ledger \<Rightarrow> bool" where
  "leak K \<longleftrightarrow> fst ` set_mset K \<subseteq> {KImageView, KFramebuffer, KSemaphore, KFence}"

lemma leak_intros [intro, simp]:
  "leak {#}" "leak (handles KImageView xs)" "leak (handles KFramebuffer xs)"
  "leak K \<Longrightarrow> leak K' \<Longrightarrow> leak (K + K')"
  "fst ` set_mset K \<subseteq> {KSemaphore, KFence} \<Longrightarrow> leak K"
  by (auto simp: leak_def image_Un dest: subsetD [OF handles_kinds])
    (use handles_kinds in fastforce)+

lemma kept_refl [simp]: "kept c c"
  by (auto simp: kept_def)

lemma kept_history [simp]: "kept (c\<lparr>history := h\<rparr>) c' \<longleftrightarrow> kept c c'" "kept c (c'\<lparr>history := h\<rparr>) \<longleftrightarrow> kept c c'"
  by (auto simp: kept_def)

lemma kept_released [simp]: "kept (released c) c' \<longleftrightarrow> kept c c'" "kept c (released c') \<longleftrightarrow> kept c c'"
  by (auto simp: kept_def released_def)

lemma kept_trans: "kept a b \<Longrightarrow> kept b c \<Longrightarrow> kept a c"
  by (auto simp: kept_def)

lemma choose_surface_format_total: "formats \<noteq> [] \<Longrightarrow> \<exists>f \<in> set formats. choose_surface_format formats = Inr f"
  by (cases formats) (auto simp: choose_surface_format_def find_Some_iff nth_Cons'
      split: option.split if_splits)

text \<open>Where a panic of the negotiation comes from: the surface's own capabilities.\<close>

definition bad_caps :: "driver \<Rightarrow> (surface_caps \<Rightarrow> present_mode \<Rightarrow> (swapchain_error, u32) outcome)
    \<Rightarrow> handle \<Rightarrow> bool" where
  "bad_caps d counts surf \<longleftrightarrow> (\<exists>h caps want_w want_h mode e. d_surface_caps d h surf = Inr caps \<and> is_panic e \<and>
     (choose_extent caps want_w want_h = Inl e \<or> counts caps mode = Inl e))"

lemma choose_surface_format_no_fault: "formats \<noteq> [] \<Longrightarrow> choose_surface_format formats \<noteq> Inl e"
  by (cases formats) (auto simp: choose_surface_format_def split: option.split)

lemma bad_caps_intros:
  "d_surface_caps d h surf = Inr caps \<Longrightarrow> is_panic e \<Longrightarrow> choose_extent caps w w' = Inl e \<Longrightarrow> bad_caps d counts surf"
  "d_surface_caps d h surf = Inr caps \<Longrightarrow> is_panic e \<Longrightarrow> counts caps mode = Inl e \<Longrightarrow> bad_caps d counts surf"
  unfolding bad_caps_def by blast+

lemma wps_negotiate:
  assumes "holds own (history c)"
    and "\<And>h caps chosen mode ext n. holds own h \<Longrightarrow> ewidth ext \<noteq> 0 \<Longrightarrow> eheight ext \<noteq> 0 \<Longrightarrow>
      counts caps mode = Inr n \<Longrightarrow> Q (caps, chosen, mode, ext, n) (c\<lparr>history := h\<rparr>)"
    and "\<And>h e. holds own h \<Longrightarrow> (is_panic e \<Longrightarrow> bad_caps d counts (surface c)) \<Longrightarrow> E e (c\<lparr>history := h\<rparr>)"
  shows "wps (negotiate d pick counts want_w want_h) Q E c"
  unfolding negotiate_def
  using assms(1)
  by (auto simp: choose_surface_format_no_fault split: sum.split intro!: wps_query assms(2,3))
    (blast intro: bad_caps_intros)+

text \<open>The context after a build that succeeded, and after one that failed.\<close>

definition assembled :: "ledger \<Rightarrow> window_ctx \<Rightarrow> extent2d \<Rightarrow> window_ctx \<Rightarrow> bool" where
  "assembled L c ext c' \<longleftrightarrow> books L c' \<and> complete c' \<and> kept c c' \<and> extent c' = ext"

definition broken :: "ledger \<Rightarrow> window_ctx \<Rightarrow> window_ctx \<Rightarrow> bool" where
  "broken L c c' \<longleftrightarrow> (\<exists>K. leak K \<and> books (L + K) c') \<and> kept c c' \<and>
     (frames c \<noteq> [] \<longrightarrow> command_buffers c' = []) \<and> (swapchain c \<noteq> 0 \<longrightarrow> swapchain c' \<noteq> 0)"

lemma broken_books: "broken L c c' \<Longrightarrow> \<exists>K. leak K \<and> books (L + K) c'"
  by (simp add: broken_def)

lemma wps_assemble:
  assumes "holds (permanent c + L) (history c)" and "released c = c"
    and drv: "nonnull_handles d" "exact_counts d" and ext: "ewidth ext \<noteq> 0" "eheight ext \<noteq> 0"
    and Q: "\<And>c'. assembled L c ext c' \<Longrightarrow> Q () c'"
    and E: "\<And>e c'. broken L c c' \<Longrightarrow> E (Error (VkError e)) c'"
  shows "wps (assemble d att (caps, chosen, mode, ext, n)) Q E c"
proof -
  let ?own = "{#(KSurface, surface c)#} + frames_ledger (frames c) + L"
  have empty: "images c = []" "image_views c = []" "framebuffers c = []" "render_pass c = 0"
      "command_buffers c = []"
    using assms(2) by (cases c, simp add: released_def)+
  have own: "holds (?own + opt_handle KSwapchain (swapchain c)) (history c)"
    using assms(1) by (simp add: permanent_def ac_simps)
  have lose: "E (Error (VkError r)) c'"
    if "holds (?own + opt_handle KSwapchain (swapchain c') + X + K) (history c')" "leak K"
      "transient c' = X" "kept c c'" "frames c' = frames c" "frames c \<noteq> [] \<longrightarrow> command_buffers c' = []"
      "swapchain c \<noteq> 0 \<longrightarrow> swapchain c' \<noteq> 0"
    for r c' X K
  proof (rule E)
    have "books (L + K) c'"
      using that unfolding books_def owned_def permanent_def by (simp add: kept_def ac_simps)
    then show "broken L c c'" using that by (auto simp: broken_def)
  qed
  note parts = transient_def permanent_def kept_def empty
  show ?thesis
    unfolding assemble_def prod.case wps_sbind
  proof (rule wps_replace_swapchain [OF own drv(1)], goal_cases)
    case (1 h sc)
    let ?own1 = "?own + opt_handle KSwapchain sc"
    show ?case
    proof (rule wps_create_views [where own = ?own1, OF _ drv], goal_cases)
      case (2 h imgs views)
      note lens = 2(1,2)
      let ?own2 = "?own1 + handles KImageView views"
      show ?case
      proof (rule wps_create_render_pass [where own = ?own2, OF _ drv(1)], goal_cases)
        case (2 h rp)
        let ?own3 = "?own2 + opt_handle KRenderPass rp"
        show ?case
        proof (rule wps_create_framebuffers [where own = ?own3, OF _ drv(1)], goal_cases)
          case (2 h fbs)
          let ?own4 = "?own3 + handles KFramebuffer fbs"
          show ?case
          proof (rule wps_allocate_commands [where own = ?own4, OF _ drv(2)], goal_cases)
            case (3 h cbs)
            let ?own5 = "?own4 + handles KCommandBuffer cbs"
            let ?c = "c\<lparr>swapchain := sc, extent := ext, wformat := sf_format chosen, images := imgs,
              image_views := views, render_pass := rp, framebuffers := fbs, command_buffers := cbs\<rparr>"
            show ?case
            proof (rule wps_ensure_frames [where own = ?own5, OF _ drv(1)], goal_cases)
              case 2
              show ?case
                using 1(1) lens ext 3 2 \<open>rp \<noteq> 0\<close>
                  \<open>length fbs = length (image_views _)\<close>
                by (intro Q) (auto simp: assembled_def books_def owned_def complete_def parts
                    ac_simps add_mset_commute)
            next
              case (3 h fs)
              then show ?case
                using 1(1) lens ext \<open>length cbs = _\<close> \<open>rp \<noteq> 0\<close>
                  \<open>length fbs = length (image_views _)\<close>
                by (intro Q) (auto simp: assembled_def books_def owned_def complete_def parts
                    MAX_FRAMES_IN_FLIGHT_def ac_simps add_mset_commute)
            next
              case (4 h r K)
              then show ?case using 1(1)
                by (intro lose [where K = K]) (auto simp: parts ac_simps add_mset_commute)
            qed (use 3 in simp_all)
          next
            case (4 h r)
            then show ?case using 1(1) by (intro lose [where K = "{#}"]) (auto simp: parts ac_simps)
          qed (use 2 lens in simp_all)
        next
          case (3 h r fbs)
          then show ?case using 1(1)
            by (intro lose [where K = "handles KFramebuffer fbs"]) (auto simp: parts ac_simps)
        qed (use 2 in simp_all)
      next
        case (3 h r)
        then show ?case using 1(1) by (intro lose [where K = "{#}"]) (auto simp: parts ac_simps)
      qed (use 2 in simp_all)
    next
      case (3 h r)
      then show ?case using 1(1) by (intro lose [where K = "{#}"]) (auto simp: parts)
    next
      case (4 h r imgs vs)
      then show ?case using 1(1) by (intro lose [where K = "handles KImageView vs"]) (auto simp: parts)
    qed (use 1 in simp_all)
  next
    case (2 h r)
    then show ?case by (intro lose [where K = "{#}"]) (auto simp: parts)
  qed
qed

definition releases :: "unit win \<Rightarrow> bool" where
  "releases destroy \<longleftrightarrow> (\<forall>own c Q E. holds (own + transient c) (history c) \<longrightarrow>
     (\<forall>h. holds own h \<longrightarrow> Q () ((released c)\<lparr>history := h\<rparr>)) \<longrightarrow> wps destroy Q E c)"

lemma releases_release: "releases release_swapchain_resources"
  by (auto simp: releases_def intro!: wps_release)

lemma releasesD:
  assumes "releases destroy" and "holds (own + transient c) (history c)"
    and "\<And>h. holds own h \<Longrightarrow> Q () ((released c)\<lparr>history := h\<rparr>)"
  shows "wps destroy Q E c"
  using assms by (simp add: releases_def)

lemma released_simps [simp]:
  "transient (released c) = {#}" "permanent (released c) = permanent c" "released (released c) = released c"
  "history (released c) = history c" "command_buffers (released c) = []" "swapchain (released c) = swapchain c"
  "frames (released c) = frames c" "released (c\<lparr>history := h\<rparr>) = (released c)\<lparr>history := h\<rparr>"
  by (cases c, simp add: released_def transient_def permanent_def)+

lemma broken_released [simp]: "broken L ((released c)\<lparr>history := h\<rparr>) c' \<longleftrightarrow> broken L c c'"
  by (simp add: broken_def)

lemma assembled_released [simp]: "assembled L ((released c)\<lparr>history := h\<rparr>) ext c' \<longleftrightarrow> assembled L c ext c'"
  by (simp add: assembled_def)

lemma wps_build:
  assumes "releases destroy" and "books L c" and drv: "nonnull_handles d" "exact_counts d"
    and Q: "\<And>c'. assembled L c (extent c') c' \<Longrightarrow> Q () c'"
    and E: "\<And>e c'. broken L c c' \<Longrightarrow> (is_panic e \<Longrightarrow> bad_caps d counts (surface c)) \<Longrightarrow> E e c'"
  shows "wps (sbind destroy (\<lambda>_. sbind (negotiate d pick counts w h) (assemble d att))) Q E c"
  unfolding wps_sbind
proof (rule releasesD [OF assms(1), where own = "permanent c + L"])
  show "holds (permanent c + L + transient c) (history c)"
    using assms(2) by (simp add: books_def owned_def ac_simps)
  fix h1
  assume h1: "holds (permanent c + L) h1"
  show "wps (negotiate d pick counts w h) (\<lambda>x. wps (assemble d att x) Q E) E ((released c)\<lparr>history := h1\<rparr>)"
  proof (rule wps_negotiate [where own = "permanent c + L"], goal_cases)
    case 1
    then show ?case using h1 by simp
  next
    case (2 h2 caps chosen mode ext n)
    then show ?case
      by (intro wps_assemble drv Q E) (auto simp: assembled_def)
  next
    case (3 h2 e)
    then have "books (L + {#}) ((released c)\<lparr>history := h2\<rparr>)" by (simp add: books_def owned_def)
    then have "broken L c ((released c)\<lparr>history := h2\<rparr>)"
      unfolding broken_def by (auto intro!: exI [of _ "{#}"])
    then show ?case using E 3(2) by (simp add: released_def)
  qed
qed

section \<open>Frame calls\<close>

definition wait_fence :: "driver \<Rightarrow> handle \<Rightarrow> u64 \<Rightarrow> ('s, unit) vk" where
  "wait_fence d fence timeout = vk_call (\<lambda>h. d_wait_fence d h fence timeout) (EWaitFence fence timeout)"

definition reset_fence :: "driver \<Rightarrow> handle \<Rightarrow> ('s, unit) vk" where
  "reset_fence d fence = vk_call (\<lambda>h. d_reset_fence d h fence) (EResetFence fence)"

definition fence_status :: "driver \<Rightarrow> handle \<Rightarrow> ('s, bool) vk" where
  "fence_status d fence = vk_call (\<lambda>h. d_fence_status d h fence) (EFenceStatus fence)"

definition acquire_image :: "driver \<Rightarrow> handle \<Rightarrow> u64 \<Rightarrow> handle \<Rightarrow> ('s, u32 \<times> bool) vk" where
  "acquire_image d sc timeout semaphore =
     vk_call (\<lambda>h. d_acquire d h sc timeout semaphore) (EAcquire sc timeout semaphore)"

definition queue_submit :: "driver \<Rightarrow> handle \<Rightarrow> submit_info \<Rightarrow> handle \<Rightarrow> ('s, unit) vk" where
  "queue_submit d queue info fence = vk_call (\<lambda>h. d_submit d h info) (\<lambda>r. ESubmit queue info fence r)"

definition queue_present :: "driver \<Rightarrow> handle \<Rightarrow> present_info \<Rightarrow> ('s, bool) vk" where
  "queue_present d queue info = vk_call (\<lambda>h. d_present d h info) (EPresent queue info)"

definition current_sync :: "frame_sync win" where
  "current_sync = sbind (sget (\<lambda>c. (frames c, current_frame c))) (\<lambda>(fs, i). slift (index fs i))"

text \<open>The \<^verbatim>\<open>TickOutcome::Acquired\<close> literal, with its two index expressions.\<close>

definition acquired_at :: "u32 \<Rightarrow> tick_outcome win" where
  "acquired_at idx =
     sbind (sget (\<lambda>c. (command_buffers c, framebuffers c, render_pass c, extent c))) (\<lambda>(cbs, fbs, rp, ext).
     sbind (slift (index cbs (unat idx))) (\<lambda>cb.
     sbind (slift (index fbs (unat idx))) (\<lambda>fb.
     sret (Acquired \<lparr>aq_image_index = idx, aq_command_buffer = cb, aq_framebuffer = fb,
       aq_render_pass = rp, aq_extent = ext\<rparr>))))"

text \<open>\<^verbatim>\<open>submit_and_present\<close>, over the \<^verbatim>\<open>build_swapchain\<close> it calls.\<close>

definition submit_and_present_with :: "(u32 \<Rightarrow> u32 \<Rightarrow> unit win) \<Rightarrow> driver \<Rightarrow> u32 \<Rightarrow> unit win" where
  "submit_and_present_with build d image_index =
     sbind current_sync (\<lambda>frame.
     sbind (sget command_buffers) (\<lambda>cbs.
     sbind (slift (index cbs (unat image_index))) (\<lambda>cb.
     sbind (sget (\<lambda>c. sd_graphics_queue (shared c))) (\<lambda>queue.
     sbind (qmark VkError (queue_submit d queue
       \<lparr>si_wait = image_available frame, si_command_buffer = cb, si_signal = render_finished frame\<rparr>
       (in_flight frame))) (\<lambda>_.
     sbind (sget swapchain) (\<lambda>sc.
     sbind (attempt (queue_present d queue
       \<lparr>pi_wait = render_finished frame, pi_swapchain = sc, pi_image_index = image_index\<rparr>)) (\<lambda>result.
     sbind (supd (\<lambda>c. c\<lparr>current_frame := (current_frame c + 1) mod length (frames c)\<rparr>)) (\<lambda>_.
     case result of
       Inr _ \<Rightarrow> sret ()
     | Inl ERROR_OUT_OF_DATE_KHR \<Rightarrow>
         sbind (sget extent) (\<lambda>ext. build (ewidth ext) (eheight ext))
     | Inl SUBOPTIMAL_KHR \<Rightarrow>
         sbind (sget extent) (\<lambda>ext. build (ewidth ext) (eheight ext))
     | Inl e \<Rightarrow> sfail (Error (VkError e))))))))))"

text \<open>The three statements around a rebuild in \<^verbatim>\<open>tick\<close>.\<close>

definition rebuild_with :: "(u32 \<Rightarrow> u32 \<Rightarrow> unit win) \<Rightarrow> u32 \<Rightarrow> u32 \<Rightarrow> unit win" where
  "rebuild_with build w h =
     sbind (supd (\<lambda>c. c\<lparr>state := Recreating\<rparr>)) (\<lambda>_.
     sbind (build w h) (\<lambda>_.
     supd (\<lambda>c. c\<lparr>state := Ready\<rparr>)))"

text \<open>
  \<^verbatim>\<open>new\<close>: a context whose first build fails is dropped, the surface with it; a panic unwinds
  in a dev build and aborts in a release build (\<^verbatim>\<open>panic = "abort"\<close>).
\<close>

definition new_with :: "(u32 \<Rightarrow> u32 \<Rightarrow> unit win) \<Rightarrow> unit win \<Rightarrow> profile \<Rightarrow> history \<Rightarrow> shared_device
    \<Rightarrow> handle \<Rightarrow> u32 \<Rightarrow> u32 \<Rightarrow> (swapchain_error, window_ctx) outcome \<times> history" where
  "new_with build drop_it p hist sd surf w h =
     (case build w h (initial_ctx hist sd surf w h) of
        (Inr _, c) \<Rightarrow> (Inr (c\<lparr>state := Ready\<rparr>), history c)
      | (Inl e, c) \<Rightarrow>
          (Inl e, if p = Release \<and> is_panic e then history c else history (snd (drop_it c))))"

section \<open>Operations that keep the books\<close>

text \<open>
  \<open>keeps P m\<close>: \<open>m\<close> takes balanced books to balanced books and keeps the property \<open>P\<close> of the context; when
  it fails, the books are balanced but for a \<open>leak\<close>.
\<close>

definition keeps :: "(window_ctx \<Rightarrow> bool) \<Rightarrow> 'a win \<Rightarrow> bool" where
  "keeps P m \<longleftrightarrow> (\<forall>L c. books L c \<and> P c \<longrightarrow>
     wps m (\<lambda>_ c'. books L c' \<and> P c') (\<lambda>_ c'. \<exists>K. leak K \<and> books (L + K) c') c)"

definition silent :: "vk_event \<Rightarrow> bool" where
  "silent ev \<longleftrightarrow> gained ev = {#} \<and> lost ev = {#}"

lemma silent_simps [simp]:
  "silent (EWaitFence f t r)" "silent (EResetFence f r)" "silent (EFenceStatus f b)"
  "silent (EAcquire sc t s q)" "silent (ESubmit qu i f r)" "silent (EPresent qu pi b)" "silent EQuery"
  "silent (EWaitIdle r)"
  by (simp_all add: silent_def)

lemma books_silent [simp]: "silent ev \<Longrightarrow> books L (record_event ev c) \<longleftrightarrow> books L c"
  by (simp add: books_def owned_def silent_def)

lemma no_leak: "books L c \<Longrightarrow> \<exists>K. leak K \<and> books (L + K) c"
  by (rule exI [of _ "{#}"]) simp

lemma keeps_pure:
  "keeps P (sret x)" "keeps P (sget f)" "keeps P (sfail e)" "keeps P (slift m)"
  by (auto simp: keeps_def no_leak split: sum.split)

lemma keeps_supd:
  "(\<And>c. P c \<Longrightarrow> P (f c)) \<Longrightarrow> (\<And>c. owned (f c) = owned c) \<Longrightarrow> (\<And>c. history (f c) = history c) \<Longrightarrow>
     keeps P (supd f)"
  by (simp add: keeps_def books_def)

lemma keeps_sbind:
  assumes "keeps P m" and "\<And>x. keeps P (f x)"
  shows "keeps P (sbind m f)"
  unfolding keeps_def wps_sbind
proof (intro allI impI)
  fix L c
  assume "books L c \<and> P c"
  then have "wps m (\<lambda>_ c'. books L c' \<and> P c') (\<lambda>_ c'. \<exists>K. leak K \<and> books (L + K) c') c"
    using assms(1) by (simp add: keeps_def)
  then show "wps m (\<lambda>x. wps (f x) (\<lambda>_ c'. books L c' \<and> P c') (\<lambda>_ c'. \<exists>K. leak K \<and> books (L + K) c'))
      (\<lambda>_ c'. \<exists>K. leak K \<and> books (L + K) c') c"
    by (rule wps_mono) (use assms(2) in \<open>simp_all add: keeps_def\<close>)
qed

lemma keeps_call:
  assumes "\<And>r. silent (ev r)" and "\<And>c h. P (c\<lparr>history := h\<rparr>) = P c"
  shows "keeps P (qmark g (vk_call reply ev))" and "keeps P (attempt (vk_call reply ev))"
  using assms by (auto simp: keeps_def no_leak intro!: wps_vk_call)

lemma keeps_build:
  assumes "releases destroy" and drv: "nonnull_handles d" "exact_counts d"
    and "\<And>L c c'. P c \<Longrightarrow> assembled L c (extent c') c' \<Longrightarrow> P c'"
  shows "keeps P (sbind destroy (\<lambda>_. sbind (negotiate d pick counts w h) (assemble d att)))"
  unfolding keeps_def
  by (intro allI impI wps_build [OF assms(1) _ drv])
    (auto simp: assms(4) assembled_def dest: broken_books intro: assms(4))

lemma keeps_rebuild:
  assumes "keeps P (build w h)" and "\<And>c s. P (c\<lparr>state := s\<rparr>) = P c"
  shows "keeps P (rebuild_with build w h)"
  unfolding rebuild_with_def
  by (intro keeps_sbind assms(1) keeps_supd)
    (simp_all add: assms(2) owned_def permanent_def transient_def)

text \<open>A context that can be drawn with, ready for any number of frames.\<close>

definition good :: "window_ctx \<Rightarrow> bool" where
  "good c \<longleftrightarrow> complete c \<and> length (frames c) = MAX_FRAMES_IN_FLIGHT \<and> current_frame c < length (frames c)"

lemma good_updates [simp]:
  "good (c\<lparr>history := h\<rparr>) = good c" "good (c\<lparr>state := s\<rparr>) = good c" "good (c\<lparr>pending_resize := m\<rparr>) = good c"
  by (simp_all add: good_def complete_def)

lemma good_assembled: "good c \<Longrightarrow> assembled L c ext c' \<Longrightarrow> good c'"
  by (auto simp: good_def assembled_def kept_def complete_def)

lemma owned_updates [simp]:
  "owned (c\<lparr>state := s\<rparr>) = owned c" "owned (c\<lparr>pending_resize := m\<rparr>) = owned c"
  "owned (c\<lparr>current_frame := i\<rparr>) = owned c"
  by (simp_all add: owned_def permanent_def transient_def)

text \<open>What \<open>P\<close> must be insensitive to: \<open>good\<close> and \<open>\<lambda>_. True\<close> are.\<close>

definition steady :: "(window_ctx \<Rightarrow> bool) \<Rightarrow> bool" where
  "steady P \<longleftrightarrow> (\<forall>c h s m. P (c\<lparr>history := h\<rparr>) = P c \<and> P (c\<lparr>state := s\<rparr>) = P c \<and> P (c\<lparr>pending_resize := m\<rparr>) = P c) \<and>
     (\<forall>c. P c \<longrightarrow> P (c\<lparr>current_frame := (current_frame c + 1) mod length (frames c)\<rparr>)) \<and>
     (\<forall>L c ext c'. P c \<longrightarrow> assembled L c ext c' \<longrightarrow> P c')"

lemma steady_instances [simp]: "steady (\<lambda>_. True)" "steady good"
proof -
  show "steady good"
    by (auto simp: steady_def good_assembled) (auto simp: good_def complete_def MAX_FRAMES_IN_FLIGHT_def)
qed (simp add: steady_def)

lemma keeps_current_sync: "keeps P current_sync"
  by (auto simp: current_sync_def intro!: keeps_sbind keeps_pure split: prod.split)

lemma keeps_acquired_at: "keeps P (acquired_at idx)"
  by (auto simp: acquired_at_def intro!: keeps_sbind keeps_pure split: prod.split)

lemma keeps_frame_calls:
  assumes "steady P"
  shows "keeps P (qmark g (wait_fence d f t))" "keeps P (qmark g (reset_fence d f))"
    "keeps P (attempt (fence_status d f))" "keeps P (attempt (acquire_image d sc t s))"
    "keeps P (qmark g (queue_submit d q i f))" "keeps P (attempt (queue_present d q pi))"
  using assms unfolding wait_fence_def reset_fence_def fence_status_def acquire_image_def
    queue_submit_def queue_present_def
  by (auto simp: steady_def intro!: keeps_call)

lemma keeps_submit:
  assumes "steady P" and "\<And>w h. keeps P (build w h)"
  shows "keeps P (submit_and_present_with build d idx)"
  unfolding submit_and_present_with_def
  using assms(1)
  by (auto intro!: keeps_sbind keeps_pure keeps_current_sync keeps_frame_calls assms(2) keeps_supd
      split: sum.split vk_result.split simp: steady_def)

section \<open>The life of a context\<close>

text \<open>
  What a window owner does: any sequence of operations. An error is handed to the caller, who may go on;
  a panic ends the run.
\<close>

datatype win_op = OpTick | OpSubmit u32 | OpResize u32 u32

definition run_op :: "tick_outcome win \<Rightarrow> (u32 \<Rightarrow> unit win) \<Rightarrow> win_op \<Rightarrow> unit win" where
  "run_op tick submit op =
     (case op of
        OpTick \<Rightarrow> sbind tick (\<lambda>_. sret ())
      | OpSubmit idx \<Rightarrow> submit idx
      | OpResize w h \<Rightarrow> supd (\<lambda>c. c\<lparr>pending_resize := request w h (pending_resize c)\<rparr>))"

fun run_ops :: "tick_outcome win \<Rightarrow> (u32 \<Rightarrow> unit win) \<Rightarrow> win_op list \<Rightarrow> window_ctx \<Rightarrow> bool \<times> window_ctx" where
  "run_ops tick submit [] c = (True, c)"
| "run_ops tick submit (op # ops) c =
     (case run_op tick submit op c of
        (Inr _, c') \<Rightarrow> run_ops tick submit ops c'
      | (Inl e, c') \<Rightarrow> (False, if is_panic e then c' else snd (run_ops tick submit ops c')))"

lemma books_initial: "books L (initial_ctx h sd surf w h') \<longleftrightarrow> holds (L + {#(KSurface, surf)#}) h"
  by (simp add: books_def owned_def permanent_def transient_def initial_ctx_def)

locale render_backend =
  fixes build :: "driver \<Rightarrow> u32 \<Rightarrow> u32 \<Rightarrow> unit win"
    and destroy :: "driver \<Rightarrow> unit win"
    and tick :: "driver \<Rightarrow> tick_outcome win"
    and submit :: "driver \<Rightarrow> u32 \<Rightarrow> unit win"
  assumes destroy_releases: "releases (destroy d)"
    and build_assembles: "nonnull_handles d \<Longrightarrow> exact_counts d \<Longrightarrow> books L c \<Longrightarrow>
      wps (build d w h) (\<lambda>_ c'. assembled L c (extent c') c') (\<lambda>_ c'. broken L c c') c"
    and tick_keeps: "nonnull_handles d \<Longrightarrow> exact_counts d \<Longrightarrow> steady P \<Longrightarrow> keeps P (tick d)"
    and submit_keeps: "nonnull_handles d \<Longrightarrow> exact_counts d \<Longrightarrow> steady P \<Longrightarrow> keeps P (submit d idx)"
begin

lemma run_op_keeps:
  assumes "nonnull_handles d" "exact_counts d" "steady P"
  shows "keeps P (run_op (tick d) (submit d) op)"
  using assms
  by (cases op) (auto simp: run_op_def steady_def
      intro!: keeps_sbind tick_keeps submit_keeps keeps_pure keeps_supd)

lemma run_ops_books:
  assumes "nonnull_handles d" "exact_counts d" and "books L c"
    and "run_ops (tick d) (submit d) ops c = (ok, c')"
  shows "\<exists>K. leak K \<and> books (L + K) c' \<and> (ok \<longrightarrow> K = {#})"
  using assms(3,4)
proof (induction ops arbitrary: L c ok)
  case Nil
  then show ?case by (auto intro: exI [of _ "{#}"])
next
  case (Cons op ops)
  have k: "wps (run_op (tick d) (submit d) op) (\<lambda>_ c'. books L c') (\<lambda>_ c'. \<exists>K. leak K \<and> books (L + K) c') c"
    using run_op_keeps [OF assms(1,2), of "\<lambda>_. True" op] Cons.prems(1) by (simp add: keeps_def)
  obtain r c1 where step: "run_op (tick d) (submit d) op c = (r, c1)" by force
  show ?case
  proof (cases r)
    case (Inr u)
    then show ?thesis using Cons.IH [of L c1 ok] Cons.prems(2) step wps_value [OF k] by simp
  next
    case (Inl e)
    then obtain K where K: "leak K" "books (L + K) c1" using wps_faultD [OF k] step by auto
    show ?thesis
    proof (cases "is_panic e")
      case True
      then show ?thesis using K Inl step Cons.prems(2) by auto
    next
      case False
      then obtain ok1 where rest: "run_ops (tick d) (submit d) ops c1 = (ok1, c')" and "\<not> ok"
        using Inl step Cons.prems(2) by (cases "run_ops (tick d) (submit d) ops c1") auto
      from Cons.IH [OF K(2) rest] obtain K' where "leak K'" "books (L + K + K') c'" by blast
      then show ?thesis using K(1) \<open>\<not> ok\<close> by (intro exI [of _ "K + K'"]) (simp add: add.assoc)
    qed
  qed
qed

lemma drop_releases:
  assumes "books L c" and "drop_ctx d (destroy d) c = (r, c')"
  shows "r = Inr () \<and> holds L (history c')"
proof -
  have "wps (drop_ctx d (destroy d)) (\<lambda>_ c'. holds L (history c')) (\<lambda>_ _. False) c"
    using assms(1)
    by (intro wps_drop [where rest = L] releasesD [OF destroy_releases]) (auto simp: books_def ac_simps)
  with assms(2) show ?thesis by (cases r) (auto simp: wps_def)
qed

lemma new_books:
  assumes "nonnull_handles d" "exact_counts d" and "holds (L + {#(KSurface, surf)#}) hist"
    and "new_with (build d) (drop_ctx d (destroy d)) p hist sd surf w h = (Inr c, hist')"
  shows "books L c \<and> good c \<and> state c = Ready \<and> hist' = history c"
proof -
  let ?c = "initial_ctx hist sd surf w h"
  have "books L ?c" using assms(3) by (simp add: books_initial)
  note b = build_assembles [OF assms(1,2) this, of w h]
  from assms(4) obtain u c1 where run: "build d w h ?c = (Inr u, c1)" and c: "c = c1\<lparr>state := Ready\<rparr>"
    "hist' = history c1"
    by (auto simp: new_with_def split: prod.splits sum.splits)
  from wps_value [OF b run] have a: "assembled L ?c (extent c1) c1" .
  then have "length (frames c1) = MAX_FRAMES_IN_FLIGHT" "current_frame c1 = 0"
    by (auto simp: assembled_def kept_def complete_def initial_ctx_def)
  with a show ?thesis using c
    by (auto simp: assembled_def good_def complete_def books_def MAX_FRAMES_IN_FLIGHT_def)
qed

lemma new_failed:
  assumes "nonnull_handles d" "exact_counts d" and "holds (L + {#(KSurface, surf)#}) hist"
    and "new_with (build d) (drop_ctx d (destroy d)) p hist sd surf w h = (Inl e, hist')"
    and "p = Dev \<or> \<not> is_panic e"
  shows "\<exists>K. leak K \<and> holds (L + K) hist'"
proof -
  let ?c = "initial_ctx hist sd surf w h"
  have "books L ?c" using assms(3) by (simp add: books_initial)
  note b = build_assembles [OF assms(1,2) this, of w h]
  from assms(4,5) obtain c1 where run: "build d w h ?c = (Inl e, c1)"
    and h: "hist' = history (snd (drop_ctx d (destroy d) c1))"
    by (auto simp: new_with_def split: prod.splits sum.splits if_splits)
  from wps_faultD [OF b run] obtain K where K: "leak K" "books (L + K) c1" by (auto simp: broken_def)
  then show ?thesis using drop_releases [OF K(2)] h by (metis prod.collapse)
qed

text \<open>From \<^verbatim>\<open>new\<close> over any operations to the drop.\<close>

lemma lifetime:
  assumes "nonnull_handles d" "exact_counts d" and "holds (L + {#(KSurface, surf)#}) hist"
    and "new_with (build d) (drop_ctx d (destroy d)) p hist sd surf w h = (Inr c, hist')"
    and "run_ops (tick d) (submit d) ops c = (ok, c')"
    and "drop_ctx d (destroy d) c' = (r, c'')"
  shows "r = Inr () \<and> (\<exists>K. leak K \<and> holds (L + K) (history c'') \<and> (ok \<longrightarrow> K = {#}))"
proof -
  have "books L c" using new_books [OF assms(1-4)] by simp
  from run_ops_books [OF assms(1,2) this assms(5)]
  obtain K where K: "leak K" "books (L + K) c'" "ok \<longrightarrow> K = {#}" by blast
  with drop_releases [OF K(2) assms(6)] show ?thesis by blast
qed

text \<open>A context that is ready stays ready while its operations succeed.\<close>

lemma run_ops_good:
  assumes "nonnull_handles d" "exact_counts d" and "books L c" "good c"
    and "run_ops (tick d) (submit d) ops c = (True, c')"
  shows "books L c' \<and> good c'"
  using assms(3-)
proof (induction ops arbitrary: c)
  case (Cons op ops)
  have k: "wps (run_op (tick d) (submit d) op) (\<lambda>_ c'. books L c' \<and> good c')
      (\<lambda>_ c'. \<exists>K. leak K \<and> books (L + K) c') c"
    using run_op_keeps [OF assms(1,2), of good op] Cons.prems(1,2) by (simp add: keeps_def)
  from Cons.prems(3) obtain u c1 where "run_op (tick d) (submit d) op c = (Inr u, c1)"
    "run_ops (tick d) (submit d) ops c1 = (True, c')"
    by (auto split: prod.splits sum.splits)
  with wps_value [OF k] Cons.IH show ?case by blast
qed simp

end

section \<open>Runs that call nothing that branches\<close>

lemma current_sync_run:
  "current_frame c < length (frames c) \<Longrightarrow> current_sync c = (Inr (frames c ! current_frame c), c)"
  by (simp add: current_sync_def run_sbind slift_def)

lemma acquired_at_run:
  "acquired_at idx c =
     (if unat idx < length (command_buffers c) \<and> unat idx < length (framebuffers c)
      then (Inr (Acquired \<lparr>aq_image_index = idx, aq_command_buffer = command_buffers c ! unat idx,
              aq_framebuffer = framebuffers c ! unat idx, aq_render_pass = render_pass c,
              aq_extent = extent c\<rparr>), c)
      else (Inl (Panic IndexOutOfBounds), c))"
  by (auto simp: acquired_at_def run_sbind run_simps sbind_def slift_def index_def)

text \<open>The current frame, its synchronisation objects, and what the history says of them.\<close>

definition the_frame :: "window_ctx \<Rightarrow> frame_sync" where
  "the_frame c = frames c ! current_frame c"

text \<open>A fence that was reset and has not been handed to a submission since: nothing will signal it.\<close>

primrec fence_dead :: "handle \<Rightarrow> history \<Rightarrow> bool" where
  "fence_dead f [] = False"
| "fence_dead f (ev # h) =
     (case ev of
        EResetFence f' (Inr _) \<Rightarrow> f' = f \<or> fence_dead f h
      | ESubmit _ _ f' (Inr _) \<Rightarrow> f' \<noteq> f \<and> fence_dead f h
      | _ \<Rightarrow> fence_dead f h)"

text \<open>A submission that has not been waited for, by its fence or by waiting for the device.\<close>

primrec in_flight_work :: "handle \<Rightarrow> history \<Rightarrow> bool" where
  "in_flight_work f [] = False"
| "in_flight_work f (ev # h) =
     (case ev of
        ESubmit _ _ f' (Inr _) \<Rightarrow> f' = f \<or> in_flight_work f h
      | EWaitFence f' _ (Inr _) \<Rightarrow> f' \<noteq> f \<and> in_flight_work f h
      | EWaitIdle (Inr _) \<Rightarrow> False
      | _ \<Rightarrow> in_flight_work f h)"

text \<open>A semaphore that an acquire will signal and that no submission waits for.\<close>

primrec sem_pending :: "handle \<Rightarrow> history \<Rightarrow> bool" where
  "sem_pending s [] = False"
| "sem_pending s (ev # h) =
     (case ev of
        EAcquire _ _ s' (Inr _) \<Rightarrow> s' = s \<or> sem_pending s h
      | ESubmit _ i _ (Inr _) \<Rightarrow> si_wait i \<noteq> s \<and> sem_pending s h
      | EDestroy KSemaphore s' \<Rightarrow> s' \<noteq> s \<and> sem_pending s h
      | _ \<Rightarrow> sem_pending s h)"

text \<open>A build makes no frame call: it creates, releases, queries and waits for the device.\<close>

definition build_events :: "vk_event set" where
  "build_events = {ev. case ev of
     ECreate _ _ \<Rightarrow> True | EAllocCommandBuffers _ _ _ \<Rightarrow> True | EFreeCommandBuffers _ _ \<Rightarrow> True
   | EDestroy k _ \<Rightarrow> k \<in> {KImageView, KFramebuffer, KRenderPass, KSwapchain}
   | EQuery \<Rightarrow> True | EWaitIdle _ \<Rightarrow> True | _ \<Rightarrow> False}"

lemma build_events_simps [simp]:
  "ECreate ci r \<in> build_events" "EAllocCommandBuffers pool n q \<in> build_events"
  "EFreeCommandBuffers pool cbs \<in> build_events" "EQuery \<in> build_events" "EWaitIdle u \<in> build_events"
  "EDestroy k x \<in> build_events \<longleftrightarrow> k \<in> {KImageView, KFramebuffer, KRenderPass, KSwapchain}"
  by (simp_all add: build_events_def)

lemma sem_pending_build:
  "extends build_events s s' \<Longrightarrow> sem_pending x (history s) \<Longrightarrow> sem_pending x (history s')"
proof -
  have "sem_pending x h \<Longrightarrow> set es \<subseteq> build_events \<Longrightarrow> sem_pending x (es @ h)" for es h
    by (induction es) (auto simp: build_events_def split: vk_event.splits res_kind.splits)
  then show "extends build_events s s' \<Longrightarrow> sem_pending x (history s) \<Longrightarrow> sem_pending x (history s')"
    by (auto simp: extends_def)
qed

lemma release_calls: "stable (extends build_events) np release_swapchain_resources"
  unfolding release_swapchain_resources_def
  by (auto intro!: ext.stable_intros ext_intros split: prod.split)

lemma wait_idle_calls: "stable (extends build_events) np (wait_idle d)"
  unfolding wait_idle_def by (intro ext_intros) simp

lemma negotiate_calls: "stable (extends build_events) False (negotiate d pick counts w h)"
  unfolding negotiate_def
  by (auto intro!: ext.stable_intros ext_intros)

lemma create_frame_calls: "stable (extends build_events) False (create_frame d)"
  unfolding create_frame_def
  by (auto intro!: ext.stable_intros ext_intros)

lemma assemble_calls: "stable (extends build_events) False (assemble d att x)"
  unfolding assemble_def replace_swapchain_def create_views_def create_render_pass_def
    create_framebuffers_def allocate_commands_def alloc_command_buffers_def ensure_frames_def
  by (auto intro!: ext.stable_intros ext_intros create_frame_calls split: prod.split)

lemma build_calls:
  "stable (extends build_events) False destroy \<Longrightarrow>
     stable (extends build_events) False (sbind destroy (\<lambda>_. sbind (negotiate d pick counts w h) (assemble d att)))"
  by (intro ext.stable_sbind negotiate_calls assemble_calls)

text \<open>\<^verbatim>\<open>submit_and_present\<close> when the submission is refused, and when presenting succeeds.\<close>

definition submit_info_at :: "window_ctx \<Rightarrow> u32 \<Rightarrow> submit_info" where
  "submit_info_at c idx = \<lparr>si_wait = image_available (the_frame c),
     si_command_buffer = command_buffers c ! unat idx, si_signal = render_finished (the_frame c)\<rparr>"

definition present_info_at :: "window_ctx \<Rightarrow> u32 \<Rightarrow> present_info" where
  "present_info_at c idx = \<lparr>pi_wait = render_finished (the_frame c), pi_swapchain = swapchain c,
     pi_image_index = idx\<rparr>"

lemma submit_refused_run:
  assumes "current_frame c < length (frames c)" and "unat idx < length (command_buffers c)"
    and "\<And>i. d_submit d (history c) i = Inl r"
  shows "submit_and_present_with build d idx c = (Inl (Error (VkError r)),
    record_event (ESubmit (sd_graphics_queue (shared c)) (submit_info_at c idx) (in_flight (the_frame c)) (Inl r)) c)"
  using assms
  by (simp add: submit_and_present_with_def current_sync_run run_sbind run_simps
      slift_def sbind_def qmark_def queue_submit_def vk_call_def the_frame_def submit_info_at_def)

lemma submit_presented_run:
  assumes "current_frame c < length (frames c)" and "unat idx < length (command_buffers c)"
    and "\<And>h i. d_submit d h i = Inr ()" and "\<And>h i. d_present d h i = Inr b"
  shows "submit_and_present_with build d idx c = (Inr (),
      c\<lparr>history := EPresent (sd_graphics_queue (shared c)) (present_info_at c idx) (Inr b) #
          ESubmit (sd_graphics_queue (shared c)) (submit_info_at c idx) (in_flight (the_frame c)) (Inr ()) #
          history c,
        current_frame := (current_frame c + 1) mod length (frames c)\<rparr>)"
  using assms
  by (simp add: submit_and_present_with_def current_sync_run run_sbind run_simps
      slift_def sbind_def qmark_def attempt_def queue_submit_def queue_present_def vk_call_def the_frame_def
      submit_info_at_def present_info_at_def)

end
