(* ===== verification/DemoDriver.thy ===== *)
theory DemoDriver
  imports RenderContext
begin

text \<open>
  A driver to run the model on, within the contract the theorems assume. Its handles count the calls in the
  history, so no two live objects share one; the surface's capabilities and the answers to the
  frame calls are its parameters.
\<close>

primrec demo_handle :: "history \<Rightarrow> handle" where
  "demo_handle [] = 1"
| "demo_handle (ev # h) = demo_handle h + 2"

definition demo_driver :: "surface_caps vkr \<Rightarrow> (u32 \<times> bool) vkr \<Rightarrow> unit vkr \<Rightarrow> bool vkr \<Rightarrow> driver" where
  "demo_driver caps acquire submit present =
     \<lparr>d_create = (\<lambda>h ci. Inr (demo_handle h)),
      d_alloc_command_buffers = (\<lambda>h pool n. Inr (map (\<lambda>i. demo_handle h + of_nat i) [0..<unat n])),
      d_wait_idle = (\<lambda>h. Inr ()),
      d_surface_caps = (\<lambda>h surf. caps),
      d_surface_formats = (\<lambda>h surf. Inr [\<lparr>sf_format = B8G8R8A8_UNORM, sf_color_space = SRGB_NONLINEAR\<rparr>,
        \<lparr>sf_format = B8G8R8A8_SRGB, sf_color_space = SRGB_NONLINEAR\<rparr>]),
      d_present_modes = (\<lambda>h surf. Inr [FIFO, MAILBOX]),
      d_swapchain_images = (\<lambda>h sc. Inr [sc + 100, sc + 101, sc + 102]),
      d_wait_fence = (\<lambda>h f t. Inr ()),
      d_reset_fence = (\<lambda>h f. Inr ()),
      d_fence_status = (\<lambda>h f. Inr True),
      d_acquire = (\<lambda>h sc t s. acquire),
      d_submit = (\<lambda>h i. submit),
      d_present = (\<lambda>h i. present),
      d_bind_image_memory = (\<lambda>h image memory. Inr ()),
      d_memory_requirements = (\<lambda>h image. (4096, 5)),
      d_buffer_requirements = (\<lambda>h buffer. (256, 6)),
      d_bind_buffer_memory = (\<lambda>h buffer memory. Inr ()),
      d_map_memory = (\<lambda>h memory offset size. Inr ()),
      d_submit_empty = (\<lambda>h queue fence. Inr ())\<rparr>"

definition demo_caps :: "u32 \<Rightarrow> u32 \<Rightarrow> surface_caps" where
  "demo_caps w h =
     \<lparr>caps_min_image_count = 2, caps_max_image_count = 8,
      caps_current_extent = \<lparr>ewidth = w, eheight = h\<rparr>,
      caps_min_image_extent = \<lparr>ewidth = 1, eheight = 1\<rparr>,
      caps_max_image_extent = \<lparr>ewidth = 4096, eheight = 4096\<rparr>,
      caps_current_transform = 1\<rparr>"

definition demo_device :: shared_device where
  "demo_device = \<lparr>sd_instance = 11, sd_physical_device = 12, sd_device = 13, sd_graphics_queue = 14,
     sd_graphics_queue_family = 0, sd_transfer_queue = 14, sd_transfer_queue_family = 0, sd_command_pool = 15\<rparr>"

text \<open>The surface as the window system hands it over.\<close>

definition demo_start :: history where
  "demo_start = [EAcquireRef KSurface 10]"

lemma demo_conforms:
  "nonnull_handles (demo_driver caps acquire submit present)"
  "exact_counts (demo_driver caps acquire submit present)"
proof -
  have "odd (demo_handle h)" for h by (induction h) simp_all
  then have "demo_handle h \<noteq> 0" for h by (metis even_zero)
  then show "nonnull_handles (demo_driver caps acquire submit present)"
    by (auto simp: nonnull_handles_def demo_driver_def)
qed (simp add: exact_counts_def demo_driver_def)

lemma demo_start_holds: "holds ({#} + {#(KSurface, 10)#}) demo_start"
  by (simp add: holds_def demo_start_def)

text \<open>The surface of 640 by 480, an image ready, and every call granted.\<close>

definition steady_driver :: driver where
  "steady_driver = demo_driver (Inr (demo_caps 640 480)) (Inr (1, False)) (Inr ()) (Inr False)"

lemmas steady_conforms = demo_conforms [of "Inr (demo_caps 640 480)" "Inr (1, False)" "Inr ()" "Inr False",
    folded steady_driver_def]

lemma run_ops_step:
  "run_op tick submit op c = (Inr u, c') \<Longrightarrow> run_ops tick submit (op # ops) c = run_ops tick submit ops c'"
  by simp

text \<open>The definitions to evaluate a render context with.\<close>

lemmas context_eval = run_ops_step eval_rules vk_eval negotiate_def assemble_def replace_swapchain_def create_views_def
  create_render_pass_def create_framebuffers_def allocate_commands_def alloc_command_buffers_def
  ensure_frames_def create_frame_def wait_idle_def release_run released_def release_events_def
  initial_ctx_def new_with_def rebuild_with_def submit_and_present_with_def run_op_def
  wait_fence_def reset_fence_def fence_status_def acquire_image_def queue_submit_def queue_present_def
  current_sync_run acquired_at_run drop_ctx_def destroy_frame_def
  choose_surface_format_def choose_extent_def clamp_def rust_add_def MAX_FRAMES_IN_FLIGHT_def upt_rec
  swapchain_info_of_def take_resize_def request_def default_pending_resize_def index_def
  demo_driver_def demo_caps_def demo_start_def demo_device_def steady_driver_def

end
