(* ===== verification/StateMachine.thy ===== *)
theory StateMachine
  imports DemoDriver
begin

text \<open>
  The window render context of \<^verbatim>\<open>src/vulkan_backend/state_machine.rs\<close>: it waits for the
  device before it releases anything, prefers MAILBOX over FIFO, and asks for at most three images.
\<close>

section \<open>Operations\<close>

definition sm_destroy_swapchain_resources :: "driver \<Rightarrow> unit win" where
  "sm_destroy_swapchain_resources d =
     sbind (attempt (wait_idle d)) (\<lambda>_ :: unit vkr. release_swapchain_resources)"

definition sm_choose_present_mode :: "present_mode list \<Rightarrow> present_mode" where
  "sm_choose_present_mode modes =
     (case find (\<lambda>m. m = MAILBOX) modes of Some m \<Rightarrow> m | None \<Rightarrow> FIFO)"

definition sm_image_count :: "profile \<Rightarrow> surface_caps \<Rightarrow> ('e, u32) outcome" where
  "sm_image_count p caps =
     bnd (rust_add p (caps_min_image_count caps) 1) (\<lambda>image_count.
     let image_count = (if 0 < caps_max_image_count caps
                        then min image_count (caps_max_image_count caps) else image_count)
     in Inr (min image_count (of_nat MAX_FRAMES_IN_FLIGHT)))"

definition sm_attachment :: "format \<Rightarrow> attachment_description option" where
  "sm_attachment fmt = Some
     \<lparr>att_format = fmt, att_load = LOAD_CLEAR, att_store = STORE_STORE,
      att_stencil_load = LOAD_DONT_CARE, att_stencil_store = STORE_DONT_CARE,
      att_initial_layout = LAYOUT_UNDEFINED, att_final_layout = LAYOUT_PRESENT_SRC\<rparr>"

definition sm_build_swapchain :: "profile \<Rightarrow> driver \<Rightarrow> u32 \<Rightarrow> u32 \<Rightarrow> unit win" where
  "sm_build_swapchain p d want_w want_h =
     sbind (sm_destroy_swapchain_resources d) (\<lambda>_.
     sbind (negotiate d sm_choose_present_mode (\<lambda>caps _. sm_image_count p caps) want_w want_h)
       (assemble d sm_attachment))"

definition sm_new :: "profile \<Rightarrow> driver \<Rightarrow> history \<Rightarrow> shared_device \<Rightarrow> handle \<Rightarrow> u32 \<Rightarrow> u32
    \<Rightarrow> (swapchain_error, window_ctx) outcome \<times> history" where
  "sm_new p d = new_with (sm_build_swapchain p d) (drop_ctx d (sm_destroy_swapchain_resources d)) p"

definition sm_rebuild :: "profile \<Rightarrow> driver \<Rightarrow> u32 \<Rightarrow> u32 \<Rightarrow> tick_outcome win" where
  "sm_rebuild p d w h = sbind (rebuild_with (sm_build_swapchain p d) w h) (\<lambda>_. sret Recreated)"

definition sm_tick :: "profile \<Rightarrow> driver \<Rightarrow> tick_outcome win" where
  "sm_tick p d =
     sbind (sget (\<lambda>c. take_resize (pending_resize c))) (\<lambda>(requested, mailbox).
     sbind (supd (\<lambda>c. c\<lparr>pending_resize := mailbox\<rparr>)) (\<lambda>_.
     case requested of
       Some (w, h) \<Rightarrow> sm_rebuild p d w h
     | None \<Rightarrow>
         sbind current_sync (\<lambda>frame.
         sbind (qmark VkError (wait_fence d (in_flight frame) (- 1))) (\<lambda>_.
         sbind (sget swapchain) (\<lambda>sc.
         sbind (attempt (acquire_image d sc (- 1) (image_available frame))) (\<lambda>acquire.
         case acquire of
           Inr (idx, False) \<Rightarrow>
             sbind (qmark VkError (reset_fence d (in_flight frame))) (\<lambda>_. acquired_at idx)
         | Inr (_, True) \<Rightarrow>
             sbind (sget extent) (\<lambda>ext. sm_rebuild p d (ewidth ext) (eheight ext))
         | Inl ERROR_OUT_OF_DATE_KHR \<Rightarrow>
             sbind (sget extent) (\<lambda>ext. sm_rebuild p d (ewidth ext) (eheight ext))
         | Inl e \<Rightarrow> sfail (Error (VkError e))))))))"

definition sm_submit_and_present :: "profile \<Rightarrow> driver \<Rightarrow> u32 \<Rightarrow> unit win" where
  "sm_submit_and_present p d = submit_and_present_with (sm_build_swapchain p d) d"

definition sm_request_resize :: "u32 \<Rightarrow> u32 \<Rightarrow> unit win" where
  "sm_request_resize w h = supd (\<lambda>c. c\<lparr>pending_resize := request w h (pending_resize c)\<rparr>)"

definition sm_drop :: "driver \<Rightarrow> unit win" where
  "sm_drop d = drop_ctx d (sm_destroy_swapchain_resources d)"

section \<open>The books\<close>

lemma sm_destroy_releases: "releases (sm_destroy_swapchain_resources d)"
  unfolding releases_def sm_destroy_swapchain_resources_def wps_sbind
proof (intro allI impI)
  fix own c and Q :: "unit \<Rightarrow> window_ctx \<Rightarrow> bool" and E :: "swapchain_error fault \<Rightarrow> window_ctx \<Rightarrow> bool"
  assume own: "holds (own + transient c) (history c)"
    and Q: "\<forall>h. holds own h \<longrightarrow> Q () ((released c)\<lparr>history := h\<rparr>)"
  show "wps (attempt (wait_idle d)) (\<lambda>_ :: unit vkr. wps release_swapchain_resources Q E) E c"
    by (rule wps_wait_idle [OF _ own], rule wps_release [where own = own]) (use Q in simp_all)
qed

lemma sm_build_keeps:
  assumes "nonnull_handles d" "exact_counts d" and "steady P"
  shows "keeps P (sm_build_swapchain p d w h)"
  unfolding sm_build_swapchain_def
  by (rule keeps_build [OF sm_destroy_releases assms(1,2)]) (use assms(3) in \<open>auto simp: steady_def\<close>)

lemma sm_rebuild_keeps:
  assumes "nonnull_handles d" "exact_counts d" and "steady P"
  shows "keeps P (sm_rebuild p d w h)"
  unfolding sm_rebuild_def
  by (intro keeps_sbind keeps_pure keeps_rebuild sm_build_keeps assms)
    (use assms(3) in \<open>simp add: steady_def\<close>)

lemma sm_tick_keeps:
  assumes "nonnull_handles d" "exact_counts d" and "steady P"
  shows "keeps P (sm_tick p d)"
proof -
  have upd: "keeps P (supd (\<lambda>c. c\<lparr>pending_resize := m\<rparr>))" for m
    using assms(3) by (intro keeps_supd) (simp_all add: steady_def)
  show ?thesis
    unfolding sm_tick_def
    by (auto intro!: keeps_sbind keeps_pure upd sm_rebuild_keeps assms keeps_current_sync
        keeps_frame_calls [OF assms(3)] keeps_acquired_at
        split: prod.split option.split sum.split vk_result.split bool.split)
qed

interpretation sm: render_backend "sm_build_swapchain p" sm_destroy_swapchain_resources "sm_tick p"
  "sm_submit_and_present p" for p
proof
  fix d w h L c
  assume "nonnull_handles d" "exact_counts d" "books L c"
  then show "wps (sm_build_swapchain p d w h) (\<lambda>_ c'. assembled L c (extent c') c') (\<lambda>_ c'. broken L c c') c"
    unfolding sm_build_swapchain_def by (intro wps_build sm_destroy_releases)
next
  fix d and P :: "window_ctx \<Rightarrow> bool" and idx
  assume "nonnull_handles d" "exact_counts d" "steady P"
  then show "keeps P (sm_submit_and_present p d idx)"
    unfolding sm_submit_and_present_def by (intro keeps_submit sm_build_keeps)
qed (auto intro: sm_destroy_releases sm_tick_keeps)

section \<open>What the choices come to\<close>

lemma sm_image_count_value:
  assumes "unat (caps_min_image_count caps) + 1 < 2 ^ 32"
  shows "sm_image_count p caps = Inr
    (let wanted = caps_min_image_count caps + 1;
         capped = (if 0 < caps_max_image_count caps then min wanted (caps_max_image_count caps) else wanted)
     in min capped 3)"
  using assms
  by (simp add: sm_image_count_def rust_add_ok MAX_FRAMES_IN_FLIGHT_def Let_def)

lemma clamp_in_order: "lo \<le> hi \<Longrightarrow> clamp x lo hi = Inr (if x < lo then lo else if hi < x then hi else x)"
  by (simp add: clamp_def not_less)

text \<open>Capabilities as the specification has them: the extents in order, a count that can be raised.\<close>

definition sane_caps :: "profile \<Rightarrow> surface_caps \<Rightarrow> bool" where
  "sane_caps p caps \<longleftrightarrow>
     ewidth (caps_min_image_extent caps) \<le> ewidth (caps_max_image_extent caps) \<and>
     eheight (caps_min_image_extent caps) \<le> eheight (caps_max_image_extent caps) \<and>
     (p = Release \<or> unat (caps_min_image_count caps) + 1 < 2 ^ 32)"

lemma sane_caps_not_bad:
  assumes "\<And>h caps. d_surface_caps d h surf = Inr caps \<Longrightarrow> sane_caps p caps"
  shows "\<not> bad_caps d (\<lambda>caps _. sm_image_count p caps) surf"
proof
  assume "bad_caps d (\<lambda>caps _. sm_image_count p caps) surf"
  then obtain h caps w h' and e :: "swapchain_error fault" where caps: "d_surface_caps d h surf = Inr caps"
    and e: "choose_extent caps w h' = Inl e \<or> sm_image_count p caps = Inl e"
    unfolding bad_caps_def by blast
  from assms [OF caps] have "choose_extent caps w h' \<noteq> Inl e"
    by (auto simp: sane_caps_def choose_extent_def clamp_in_order)
  moreover from assms [OF caps] have "sm_image_count p caps \<noteq> Inl e"
    by (auto simp: sane_caps_def sm_image_count_def rust_add_ok Let_def)
  ultimately show False using e by blast
qed

section \<open>Ticks\<close>

lemma sm_destroy_run:
  "\<exists>w. sm_destroy_swapchain_resources d c
     = (Inr (), (released c)\<lparr>history := release_events c @ EWaitIdle w # history c\<rparr>) \<and> w = d_wait_idle d (history c)"
proof -
  have "release_events (c\<lparr>history := h\<rparr>) = release_events c" for h by (simp add: release_events_def)
  then show ?thesis
    by (auto simp: sm_destroy_swapchain_resources_def sbind_def attempt_def wait_idle_def vk_call_def
        release_run split: sum.split)
qed

lemma sm_build_calls: "stable (extends build_events) False (sm_build_swapchain p d w h)"
  unfolding sm_build_swapchain_def sm_destroy_swapchain_resources_def
  by (intro build_calls ext.stable_sbind stable_attempt wait_idle_calls release_calls)

lemma wps_True: "wps m (\<lambda>_ _. True) (\<lambda>_ _. True) s"
  by (simp add: wps_def split: prod.split sum.split)

lemma wps_sm_rebuild:
  assumes "nonnull_handles d" "exact_counts d" "books L c"
    and Q: "\<And>c'. assembled L c (extent c') c' \<Longrightarrow> Q Recreated (c'\<lparr>state := Ready\<rparr>)"
    and E: "\<And>e c'. broken L (c\<lparr>state := Recreating\<rparr>) c' \<Longrightarrow>
      (is_panic e \<Longrightarrow> bad_caps d (\<lambda>caps _. sm_image_count p caps) (surface c)) \<Longrightarrow> E e c'"
  shows "wps (sm_rebuild p d w h) Q E c"
proof -
  have "wps (sm_build_swapchain p d w h) (\<lambda>_ s. Q Recreated (s\<lparr>state := Ready\<rparr>)) E (c\<lparr>state := Recreating\<rparr>)"
    unfolding sm_build_swapchain_def
  proof (rule wps_build [OF sm_destroy_releases _ assms(1,2)])
    show "books L (c\<lparr>state := Recreating\<rparr>)" using assms(3) by (simp add: books_def)
  next
    fix c'
    assume "assembled L (c\<lparr>state := Recreating\<rparr>) (extent c') c'"
    then have "assembled L c (extent c') (c'\<lparr>state := state c\<rparr>)"
      by (auto simp: assembled_def kept_def books_def complete_def)
    with Q [of "c'\<lparr>state := state c\<rparr>"] show "Q Recreated (c'\<lparr>state := Ready\<rparr>)" by simp
  qed (use E in simp)
  then show ?thesis by (simp add: sm_rebuild_def rebuild_with_def)
qed

text \<open>After a rebuild that failed, the next successful acquire indexes an empty vector.\<close>

lemma sm_tick_no_buffers:
  assumes "\<not> flag (pending_resize c)" and "current_frame c < length (frames c)" and "command_buffers c = []"
    and "\<And>h f t. d_wait_fence d h f t = Inr ()" and "\<And>h sc t s. d_acquire d h sc t s = Inr (idx, False)"
    and "\<And>h f. d_reset_fence d h f = Inr ()"
  shows "fst (sm_tick p d c) = Inl (Panic IndexOutOfBounds)"
  using assms
  by (simp add: sm_tick_def run_sbind run_simps take_resize_def sbind_def current_sync_run qmark_def
      attempt_def wait_fence_def acquire_image_def reset_fence_def vk_call_def acquired_at_run)

text \<open>
  The three ways through a tick without a resize request, from a context with a current frame: an image
  with its fence reset, a rebuild, or an error.
\<close>

definition after_acquire :: "window_ctx \<Rightarrow> (u32 \<times> bool) vkr \<Rightarrow> window_ctx" where
  "after_acquire c r = c\<lparr>history := EAcquire (swapchain c) (- 1) (image_available (the_frame c)) r #
     EWaitFence (in_flight (the_frame c)) (- 1) (Inr ()) # history c\<rparr>"

lemma no_request: "\<not> flag m \<Longrightarrow> take_resize m = (None, m)"
  by (cases m) (simp add: take_resize_def)

lemma same_mailbox: "c\<lparr>pending_resize := pending_resize c\<rparr> = (c :: window_ctx)"
  by (cases c) simp

lemma sm_tick_unfold:
  assumes "\<not> flag (pending_resize c)" and "current_frame c < length (frames c)"
  shows "sm_tick p d c =
    (case d_wait_fence d (history c) (in_flight (the_frame c)) (- 1) of
       Inl r \<Rightarrow> (Inl (Error (VkError r)), record_event (EWaitFence (in_flight (the_frame c)) (- 1) (Inl r)) c)
     | Inr _ \<Rightarrow>
         let r = d_acquire d (EWaitFence (in_flight (the_frame c)) (- 1) (Inr ()) # history c)
               (swapchain c) (- 1) (image_available (the_frame c));
             c1 = after_acquire c r
         in case r of
              Inr (idx, False) \<Rightarrow>
                sbind (qmark VkError (reset_fence d (in_flight (the_frame c)))) (\<lambda>_. acquired_at idx) c1
            | Inr (_, True) \<Rightarrow> sm_rebuild p d (ewidth (extent c)) (eheight (extent c)) c1
            | Inl ERROR_OUT_OF_DATE_KHR \<Rightarrow> sm_rebuild p d (ewidth (extent c)) (eheight (extent c)) c1
            | Inl e \<Rightarrow> (Inl (Error (VkError e)), c1))"
  using assms
  by (auto simp: sm_tick_def run_sbind run_simps no_request same_mailbox sbind_def current_sync_run qmark_def
      attempt_def wait_fence_def acquire_image_def vk_call_def the_frame_def after_acquire_def Let_def
      split: sum.split vk_result.split bool.split prod.split)

lemma sm_rebuild_not_acquired: "sm_rebuild p d w h c = (Inr x, c') \<Longrightarrow> x = Recreated"
  by (auto simp: sm_rebuild_def sbind_def sret_def split: prod.splits sum.splits)

lemma sm_tick_acquired:
  assumes "\<not> flag (pending_resize c)" and "current_frame c < length (frames c)"
    and "sm_tick p d c = (Inr (Acquired a), c1)"
  shows "\<exists>h. c1 = c\<lparr>history := EResetFence (in_flight (the_frame c)) (Inr ()) # h\<rparr> \<and>
    unat (aq_image_index a) < length (command_buffers c) \<and>
    aq_command_buffer a = command_buffers c ! unat (aq_image_index a) \<and>
    aq_framebuffer a = framebuffers c ! unat (aq_image_index a)"
  using assms(3) unfolding sm_tick_unfold [OF assms(1,2)]
  by (auto simp: Let_def sbind_def qmark_def reset_fence_def vk_call_def after_acquire_def acquired_at_run
      dest: sm_rebuild_not_acquired
      split: sum.splits vk_result.splits bool.splits prod.splits if_splits)

lemma sm_rebuild_extends: "stable (extends UNIV) False (sm_rebuild p d w h)"
  unfolding sm_rebuild_def rebuild_with_def
  by (auto intro!: ext.stable_intros ext_intros stable_extends_mono [OF sm_build_calls])

lemma sm_tick_waits_first:
  assumes "\<not> flag (pending_resize c)" and "current_frame c < length (frames c)"
  shows "\<exists>w es. history (snd (sm_tick p d c)) = es @ EWaitFence (in_flight (the_frame c)) (- 1) w # history c"
proof -
  let ?w = "EWaitFence (in_flight (the_frame c)) (- 1)"
  have "\<exists>es. history (snd (m (after_acquire c r))) = es @ ?w (Inr ()) # history c"
    if "stable (extends UNIV) False m" for r and m :: "tick_outcome win"
  proof -
    from extends_history [OF that, of "after_acquire c r"] obtain es where
      "history (snd (m (after_acquire c r))) = es @ history (after_acquire c r)" by blast
    then show ?thesis
      by (intro exI [of _ "es @ [EAcquire (swapchain c) (- 1) (image_available (the_frame c)) r]"])
        (simp add: after_acquire_def)
  qed
  note more = this
  have acq: "stable (extends UNIV) False
      (sbind (qmark VkError (reset_fence d f)) (\<lambda>_. acquired_at idx))" for f idx
    unfolding reset_fence_def acquired_at_def
    by (auto intro!: ext.stable_intros ext_intros split: prod.split)
  have fail: "stable (extends UNIV) False (sfail e :: tick_outcome win)" for e
    by (rule ext.stable_pure) simp
  show ?thesis
  proof (cases "d_wait_fence d (history c) (in_flight (the_frame c)) (- 1)")
    case (Inl r)
    then show ?thesis
      by (simp add: sm_tick_unfold [OF assms])
  next
    case (Inr u)
    define r where "r = d_acquire d (?w (Inr ()) # history c) (swapchain c) (- 1) (image_available (the_frame c))"
    have "\<exists>m. stable (extends UNIV) False m \<and> sm_tick p d c = m (after_acquire c r)"
    proof (cases r)
      case (Inl e)
      let ?m = "if e = ERROR_OUT_OF_DATE_KHR then sm_rebuild p d (ewidth (extent c)) (eheight (extent c))
        else sfail (Error (VkError e))"
      have "stable (extends UNIV) False ?m" using sm_rebuild_extends fail by simp
      moreover have "sm_tick p d c = ?m (after_acquire c r)"
        using Inr Inl by (cases e) (simp_all add: sm_tick_unfold [OF assms] r_def [symmetric] Let_def run_simps)
      ultimately show ?thesis by blast
    next
      case x: (Inr x)
      let ?m = "if snd x then sm_rebuild p d (ewidth (extent c)) (eheight (extent c))
        else sbind (qmark VkError (reset_fence d (in_flight (the_frame c)))) (\<lambda>_. acquired_at (fst x))"
      have "stable (extends UNIV) False ?m" using sm_rebuild_extends acq by simp
      moreover have "sm_tick p d c = ?m (after_acquire c r)"
        using Inr x by (cases x; cases "snd x")
          (simp_all add: sm_tick_unfold [OF assms] r_def [symmetric] Let_def)
      ultimately show ?thesis by blast
    qed
    then show ?thesis using more by metis
  qed
qed

text \<open>However many sizes were requested, the tick rebuilds once, for the last of them.\<close>

definition requested :: "(u32 \<times> u32) list \<Rightarrow> window_ctx \<Rightarrow> window_ctx" where
  "requested sizes c = c\<lparr>pending_resize := mailbox.posts sizes (pending_resize c)\<rparr>"

text \<open>With a surface and a driver that answer within their contracts, a context that is ready does not panic.\<close>

lemma sm_rebuild_no_panic:
  assumes "nonnull_handles d" "exact_counts d" "books L c"
    and "\<And>h caps. d_surface_caps d h (surface c) = Inr caps \<Longrightarrow> sane_caps p caps"
  shows "wps (sm_rebuild p d w h) (\<lambda>_ _. True) (\<lambda>e _. \<not> is_panic e) c"
  by (rule wps_sm_rebuild [OF assms(1-3)]) (use sane_caps_not_bad [OF assms(4)] in auto)

section \<open>A context to run\<close>

lemmas sm_eval = sm_new_def sm_build_swapchain_def sm_destroy_swapchain_resources_def
  sm_choose_present_mode_def sm_image_count_def sm_attachment_def sm_rebuild_def sm_tick_def
  sm_submit_and_present_def sm_drop_def

definition sm_demo :: window_ctx where
  "sm_demo = (case sm_new Dev steady_driver demo_start demo_device 10 640 480 of (Inr c, _) \<Rightarrow> c)"

lemma sm_demo_new:
  "sm_new Dev steady_driver demo_start demo_device 10 640 480 = (Inr sm_demo, history sm_demo)"
  unfolding sm_demo_def by (simp add: context_eval sm_eval cong: sbind_weak_cong)

lemma sm_demo_ready: "books {#} sm_demo" "good sm_demo" "state sm_demo = Ready"
  using sm.new_books [OF steady_conforms demo_start_holds sm_demo_new [unfolded sm_new_def]] by simp_all

section \<open>Properties\<close>

text \<open>
  C2: A window context balances its books over its whole life. From any history in which exactly \<open>L\<close> and
  the surface exist, if \<^verbatim>\<open>new\<close> succeeds, then after any sequence of ticks, submissions and
  resize requests the drop releases what the context owns, each handle once and while it exists: \<open>L\<close>
  remains, and nothing else if no operation failed; if one did, what it lost may be left besides, which can only be
  image views, framebuffers, semaphores and fences.
\<close>

theorem sm_lifetime:
  assumes "nonnull_handles d" "exact_counts d" and "holds (L + {#(KSurface, surf)#}) hist"
    and "sm_new p d hist sd surf w h = (Inr c, hist')"
    and "run_ops (sm_tick p d) (sm_submit_and_present p d) ops c = (ok, c')"
    and "sm_drop d c' = (r, c'')"
  shows "r = Inr () \<and> (\<exists>K. leak K \<and> holds (L + K) (history c'') \<and> (ok \<longrightarrow> K = {#}))"
  using assms(4,6) unfolding sm_new_def sm_drop_def by (rule sm.lifetime [OF assms(1-3) _ assms(5)])

definition sm_demo_ops :: "win_op list" where
  "sm_demo_ops = [OpTick, OpSubmit 1, OpResize 800 600, OpTick]"

lemma sm_demo_run:
  "fst (run_ops (sm_tick Dev steady_driver) (sm_submit_and_present Dev steady_driver) sm_demo_ops sm_demo)"
  unfolding sm_demo_def sm_demo_ops_def
  by (simp add: context_eval sm_eval cong: sbind_weak_cong del: run_ops.simps(2))

theorem sm_lifetime_witness:
  "holds {#} (history (snd (sm_drop steady_driver (snd (run_ops (sm_tick Dev steady_driver)
     (sm_submit_and_present Dev steady_driver) sm_demo_ops sm_demo)))))"
proof -
  obtain c' where run: "run_ops (sm_tick Dev steady_driver) (sm_submit_and_present Dev steady_driver)
      sm_demo_ops sm_demo = (True, c')"
    using sm_demo_run by (metis prod.collapse)
  obtain r c'' where drop: "sm_drop steady_driver c' = (r, c'')" by force
  from sm_lifetime [OF steady_conforms demo_start_holds sm_demo_new run drop] run drop
  show ?thesis by auto
qed

text \<open>
  When \<^verbatim>\<open>new\<close> fails with an error (or, in a development build, panics), the half-built
  context has been dropped with the surface it was given: only what the failed build lost remains.
\<close>

theorem sm_new_failure:
  assumes "nonnull_handles d" "exact_counts d" and "holds (L + {#(KSurface, surf)#}) hist"
    and "sm_new p d hist sd surf w h = (Inl e, hist')" and "p = Dev \<or> \<not> is_panic e"
  shows "\<exists>K. leak K \<and> holds (L + K) hist'"
  using assms(4) unfolding sm_new_def by (rule sm.new_failed [OF assms(1-3) _ assms(5)])

definition minimised_driver :: driver where
  "minimised_driver = demo_driver (Inr (demo_caps 0 0)) (Inr (1, False)) (Inr ()) (Inr False)"

lemmas minimised_conforms = demo_conforms [of "Inr (demo_caps 0 0)" "Inr (1, False)" "Inr ()" "Inr False",
    folded minimised_driver_def]

theorem sm_new_failure_witness:
  "\<exists>hist' K. sm_new Dev minimised_driver demo_start demo_device 10 640 480 = (Inl (Error ZeroExtent), hist') \<and>
     leak K \<and> holds K hist'"
proof -
  have "fst (sm_new Dev minimised_driver demo_start demo_device 10 640 480) = Inl (Error ZeroExtent)"
    unfolding minimised_driver_def by (simp add: context_eval sm_eval cong: sbind_weak_cong)
  then obtain hist' where "sm_new Dev minimised_driver demo_start demo_device 10 640 480
      = (Inl (Error ZeroExtent), hist')" by (metis prod.collapse)
  from this sm_new_failure [OF minimised_conforms demo_start_holds this] show ?thesis by simp
qed

text \<open>
  C8: A context that is complete (swapchain, render pass, as many views, framebuffers and command buffers
  as images, three frames, a current frame among them) stays so while its operations succeed, in any
  order, and its books stay balanced.
\<close>

theorem sm_stays_ready:
  assumes "nonnull_handles d" "exact_counts d" and "books L c" "good c"
    and "run_ops (sm_tick p d) (sm_submit_and_present p d) ops c = (True, c')"
  shows "books L c' \<and> good c'"
  by (rule sm.run_ops_good [OF assms])

theorem sm_stays_ready_witness:
  "good (snd (run_ops (sm_tick Dev steady_driver) (sm_submit_and_present Dev steady_driver) sm_demo_ops sm_demo))"
proof -
  obtain c' where run: "run_ops (sm_tick Dev steady_driver) (sm_submit_and_present Dev steady_driver)
      sm_demo_ops sm_demo = (True, c')"
    using sm_demo_run by (metis prod.collapse)
  from sm_stays_ready [OF steady_conforms sm_demo_ready(1,2) run] run show ?thesis by simp
qed

text \<open>
  C10: A rebuild that fails with any error (a minimised window answers with an extent of zero) leaves the
  context without command buffers but with its frames and its old swapchain, so the next tick whose acquire
  succeeds panics: it indexes the empty vector.
\<close>

theorem sm_failed_rebuild_then_panic:
  assumes "nonnull_handles d" "exact_counts d" "books L c" "good c" "\<not> flag (pending_resize c)"
    and "sm_rebuild p d w h c = (Inl e, c1)"
    and "\<And>h f t. d_wait_fence d h f t = Inr ()" and "\<And>h sc t s. d_acquire d h sc t s = Inr (idx, False)"
    and "\<And>h f. d_reset_fence d h f = Inr ()"
  shows "fst (sm_tick p d c1) = Inl (Panic IndexOutOfBounds)"
proof -
  have "wps (sm_rebuild p d w h) (\<lambda>_ _. True) (\<lambda>e c'. broken L (c\<lparr>state := Recreating\<rparr>) c') c"
    by (rule wps_sm_rebuild [OF assms(1-3)]) simp_all
  from wps_faultD [OF this assms(6)] have "broken L (c\<lparr>state := Recreating\<rparr>) c1" .
  then have "\<not> flag (pending_resize c1)" "current_frame c1 < length (frames c1)" "command_buffers c1 = []"
    using assms(4,5) by (auto simp: broken_def kept_def good_def complete_def)
  then show ?thesis using assms(7-) by (rule sm_tick_no_buffers)
qed

theorem sm_failed_rebuild_then_panic_witness:
  "\<exists>c1. sm_rebuild Dev minimised_driver 640 480 sm_demo = (Inl (Error ZeroExtent), c1) \<and>
     fst (sm_tick Dev minimised_driver c1) = Inl (Panic IndexOutOfBounds)"
proof -
  have "fst (sm_rebuild Dev minimised_driver 640 480 sm_demo) = Inl (Error ZeroExtent)"
    unfolding sm_demo_def minimised_driver_def by (simp add: context_eval sm_eval cong: sbind_weak_cong)
  then obtain c1 where c1: "sm_rebuild Dev minimised_driver 640 480 sm_demo = (Inl (Error ZeroExtent), c1)"
    by (metis prod.collapse)
  have "\<not> flag (pending_resize sm_demo)"
    unfolding sm_demo_def by (simp add: context_eval sm_eval cong: sbind_weak_cong)
  from sm_failed_rebuild_then_panic [OF minimised_conforms sm_demo_ready(1,2) this c1, of 1] c1
  show ?thesis by (simp add: minimised_driver_def demo_driver_def)
qed

text \<open>
  C31: A queue submission refused after the tick has reset the frame's fence is reported as an error, but
  the frame stays the current one, nothing in the history will signal its fence, and the first thing the
  next tick does is to wait for that fence without a timeout.
\<close>

theorem sm_refused_submission:
  assumes "\<not> flag (pending_resize c)" and "current_frame c < length (frames c)"
    and "sm_tick p d c = (Inr (Acquired a), c1)"
    and "\<And>i. d_submit d (history c1) i = Inl r"
    and "sm_submit_and_present p d (aq_image_index a) c1 = (res, c2)"
  shows "res = Inl (Error (VkError r)) \<and> current_frame c2 = current_frame c \<and>
    fence_dead (in_flight (the_frame c2)) (history c2) \<and>
    (\<exists>w es. history (snd (sm_tick p d c2)) =
       es @ EWaitFence (in_flight (the_frame c2)) (- 1) w # history c2)"
proof -
  from sm_tick_acquired [OF assms(1-3)] obtain h where
    c1: "c1 = c\<lparr>history := EResetFence (in_flight (the_frame c)) (Inr ()) # h\<rparr>"
    and idx: "unat (aq_image_index a) < length (command_buffers c)" by blast
  have frame: "the_frame (c\<lparr>history := h'\<rparr>) = the_frame c" for h' by (simp add: the_frame_def)
  have "current_frame c1 < length (frames c1)" "unat (aq_image_index a) < length (command_buffers c1)"
    using c1 assms(2) idx by simp_all
  from submit_refused_run [OF this assms(4), of "sm_build_swapchain p d"] assms(5)
  have c2: "res = Inl (Error (VkError r))" "c2 = record_event (ESubmit (sd_graphics_queue (shared c1))
      (submit_info_at c1 (aq_image_index a)) (in_flight (the_frame c1)) (Inl r)) c1"
    by (simp_all add: sm_submit_and_present_def)
  have pend: "\<not> flag (pending_resize c2)" "current_frame c2 < length (frames c2)"
    using c1 c2 assms(1,2) by simp_all
  with c1 c2 sm_tick_waits_first [OF pend] show ?thesis by (simp add: frame)
qed

definition refusing_driver :: driver where
  "refusing_driver = demo_driver (Inr (demo_caps 640 480)) (Inr (1, False)) (Inl ERROR_DEVICE_LOST) (Inr False)"

theorem sm_refused_submission_witness:
  "\<exists>a c1 c2. sm_tick Dev refusing_driver sm_demo = (Inr (Acquired a), c1) \<and>
     sm_submit_and_present Dev refusing_driver (aq_image_index a) c1
       = (Inl (Error (VkError ERROR_DEVICE_LOST)), c2) \<and>
     fence_dead (in_flight (the_frame c2)) (history c2)"
proof -
  have start: "\<not> flag (pending_resize sm_demo)" "current_frame sm_demo < length (frames sm_demo)"
    using sm_demo_ready unfolding sm_demo_def
    by (simp_all add: context_eval sm_eval cong: sbind_weak_cong)
  have "\<exists>a. fst (sm_tick Dev refusing_driver sm_demo) = Inr (Acquired a)"
    unfolding sm_demo_def refusing_driver_def by (simp add: context_eval sm_eval cong: sbind_weak_cong)
  then obtain a c1 where tick: "sm_tick Dev refusing_driver sm_demo = (Inr (Acquired a), c1)"
    by (metis prod.collapse)
  have refuse: "d_submit refusing_driver (history c1) i = Inl ERROR_DEVICE_LOST" for i
    by (simp add: refusing_driver_def demo_driver_def)
  obtain res c2 where sub: "sm_submit_and_present Dev refusing_driver (aq_image_index a) c1 = (res, c2)"
    by force
  from sm_refused_submission [OF start tick refuse sub] tick sub show ?thesis by blast
qed

text \<open>
  When an acquire succeeds but calls the swapchain suboptimal, the tick rebuilds and reports
  \<^verbatim>\<open>Recreated\<close>; the frame does not change, and its semaphore is still to be signalled by that
  acquire, with no submission waiting for it, when the next tick passes it to the next acquire.
\<close>

theorem sm_suboptimal_acquire:
  assumes "nonnull_handles d" "exact_counts d" "books L c" "good c" and "\<not> flag (pending_resize c)"
    and "d_wait_fence d (history c) (in_flight (the_frame c)) (- 1) = Inr ()"
    and "d_acquire d (EWaitFence (in_flight (the_frame c)) (- 1) (Inr ()) # history c) (swapchain c) (- 1)
      (image_available (the_frame c)) = Inr (idx, True)"
    and "sm_tick p d c = (Inr x, c')"
  shows "x = Recreated \<and> the_frame c' = the_frame c \<and>
    sem_pending (image_available (the_frame c')) (history c')"
proof -
  let ?c = "after_acquire c (Inr (idx, True))"
  have cur: "current_frame c < length (frames c)" "frames c \<noteq> []"
    using assms(4) by (auto simp: good_def complete_def)
  have run: "sm_rebuild p d (ewidth (extent c)) (eheight (extent c)) ?c = (Inr x, c')"
    using assms(6-8) by (simp add: sm_tick_unfold [OF assms(5) cur(1)] Let_def)
  have "books L ?c" using assms(3) by (simp add: after_acquire_def books_def owned_def)
  then have "wps (sm_rebuild p d (ewidth (extent c)) (eheight (extent c)))
      (\<lambda>_ c'. kept ?c (c'\<lparr>state := state c\<rparr>)) (\<lambda>_ _. True) ?c"
    by (intro wps_sm_rebuild [OF assms(1,2)]) (auto simp: assembled_def kept_def after_acquire_def)
  from wps_value [OF this run] have same: "the_frame c' = the_frame c"
    using cur(2) by (simp add: kept_def the_frame_def after_acquire_def)
  have "stable (extends build_events) False (sm_rebuild p d w h)" for w h
    unfolding sm_rebuild_def rebuild_with_def
    by (auto intro!: ext.stable_intros sm_build_calls extends_same_history)
  from stable_run(1) [OF this run] have "extends build_events ?c c'" .
  then have "sem_pending (image_available (the_frame c)) (history c')"
    by (rule sem_pending_build) (simp add: after_acquire_def)
  with same sm_rebuild_not_acquired [OF run] show ?thesis by simp
qed

definition suboptimal_driver :: driver where
  "suboptimal_driver = demo_driver (Inr (demo_caps 640 480)) (Inr (1, True)) (Inr ()) (Inr False)"

lemmas suboptimal_conforms = demo_conforms [of "Inr (demo_caps 640 480)" "Inr (1, True)" "Inr ()" "Inr False",
    folded suboptimal_driver_def]

theorem sm_suboptimal_acquire_witness:
  "\<exists>c'. sm_tick Dev suboptimal_driver sm_demo = (Inr Recreated, c') \<and>
     sem_pending (image_available (the_frame c')) (history c')"
proof -
  have start: "\<not> flag (pending_resize sm_demo)"
    unfolding sm_demo_def by (simp add: context_eval sm_eval cong: sbind_weak_cong)
  have "\<exists>x. fst (sm_tick Dev suboptimal_driver sm_demo) = Inr x"
    unfolding sm_demo_def suboptimal_driver_def by (simp add: context_eval sm_eval cong: sbind_weak_cong)
  then obtain x c' where tick: "sm_tick Dev suboptimal_driver sm_demo = (Inr x, c')" by (metis prod.collapse)
  have calls: "d_wait_fence suboptimal_driver h f t = Inr ()" "d_acquire suboptimal_driver h sc t s = Inr (1, True)"
    for h f t sc s
    by (simp_all add: suboptimal_driver_def demo_driver_def)
  from sm_suboptimal_acquire [OF suboptimal_conforms sm_demo_ready(1,2) start calls tick] tick
  show ?thesis by auto
qed

text \<open>
  C26: With a surface whose extents are in order (and, in a development build, whose minimum image count
  can be incremented) and a driver that acquires only images of the swapchain, a tick of a complete
  context does not panic: all its failures are errors.
\<close>

theorem sm_tick_panic_free:
  assumes "nonnull_handles d" "exact_counts d" "books L c" "good c"
    and "\<And>h caps. d_surface_caps d h (surface c) = Inr caps \<Longrightarrow> sane_caps p caps"
    and "\<And>h t s idx b. d_acquire d h (swapchain c) t s = Inr (idx, b) \<Longrightarrow> unat idx < length (images c)"
    and "sm_tick p d c = (Inl e, c')"
  shows "\<not> is_panic e"
proof (cases "flag (pending_resize c)")
  case True
  let ?c = "c\<lparr>pending_resize := (pending_resize c)\<lparr>flag := False\<rparr>\<rparr>"
  have "books L ?c" using assms(3) by (simp add: books_def)
  note rb = wps_faultD [OF sm_rebuild_no_panic [OF assms(1,2) this, where p = p]]
  from rb assms(5,7) True show ?thesis
    by (auto simp: sm_tick_def take_resize_def run_sbind)
next
  case False
  have cur: "current_frame c < length (frames c)" and
    len: "length (command_buffers c) = length (images c)" "length (framebuffers c) = length (images c)"
    using assms(4) by (auto simp: good_def complete_def)
  have "books L (after_acquire c r)" for r using assms(3) by (simp add: after_acquire_def books_def owned_def)
  note rb = wps_faultD [OF sm_rebuild_no_panic [OF assms(1,2) this, where p = p]]
  from assms(7) show ?thesis
    unfolding sm_tick_unfold [OF False cur]
    using assms(5,6) rb len
    by (auto simp: Let_def sbind_def qmark_def reset_fence_def vk_call_def after_acquire_def acquired_at_run
        split: sum.splits vk_result.splits bool.splits prod.splits if_splits)
qed

definition lost_driver :: driver where
  "lost_driver = demo_driver (Inr (demo_caps 640 480)) (Inl ERROR_DEVICE_LOST) (Inr ()) (Inr False)"

lemmas lost_conforms = demo_conforms [of "Inr (demo_caps 640 480)" "Inl ERROR_DEVICE_LOST" "Inr ()" "Inr False",
    folded lost_driver_def]

theorem sm_tick_panic_free_witness:
  "\<exists>e c'. sm_tick Dev lost_driver sm_demo = (Inl e, c') \<and> \<not> is_panic e"
proof -
  have "\<exists>e. fst (sm_tick Dev lost_driver sm_demo) = Inl e"
    unfolding sm_demo_def lost_driver_def by (simp add: context_eval sm_eval cong: sbind_weak_cong)
  then obtain e c' where tick: "sm_tick Dev lost_driver sm_demo = (Inl e, c')" by (metis prod.collapse)
  have "sane_caps Dev caps" if "d_surface_caps lost_driver h surf = Inr caps" for h surf caps
    using that by (auto simp: lost_driver_def demo_driver_def sane_caps_def demo_caps_def)
  moreover have "unat idx < length (images sm_demo)" if "d_acquire lost_driver h sc t s = Inr (idx, b)" for h sc t s idx b
    using that by (simp add: lost_driver_def demo_driver_def)
  ultimately show ?thesis
    using sm_tick_panic_free [OF lost_conforms sm_demo_ready(1,2) _ _ tick] tick by blast
qed

text \<open>
  The image count asked for is never above three nor above the surface's maximum, and it is at least
  the surface's minimum exactly when that minimum is at most three: a surface that requires four images
  gets an invalid request.
\<close>

theorem sm_image_count_bounds:
  assumes "unat (caps_min_image_count caps) + 1 < 2 ^ 32"
    and "caps_max_image_count caps = 0 \<or> caps_min_image_count caps \<le> caps_max_image_count caps"
    and "sm_image_count p caps = Inr n"
  shows "(caps_min_image_count caps \<le> n \<longleftrightarrow> caps_min_image_count caps \<le> 3) \<and>
    (caps_max_image_count caps \<noteq> 0 \<longrightarrow> n \<le> caps_max_image_count caps) \<and> n \<le> 3"
proof -
  have "unat (caps_min_image_count caps + 1) = unat (caps_min_image_count caps) + 1"
    using assms(1) by (simp add: unat_word_ariths)
  then show ?thesis
    using assms(2,3) unfolding sm_image_count_value [OF assms(1)]
    by (auto simp: Let_def min_def word_le_nat_alt word_less_nat_alt unat_eq_zero split: if_splits)
qed

definition four_image_caps :: surface_caps where
  "four_image_caps = (demo_caps 640 480)\<lparr>caps_min_image_count := 4\<rparr>"

theorem sm_image_count_bounds_witness:
  "\<exists>n. sm_image_count Dev four_image_caps = Inr n \<and> \<not> caps_min_image_count four_image_caps \<le> n"
proof -
  have n: "sm_image_count Dev four_image_caps = Inr 3"
    by (simp add: sm_image_count_def demo_caps_def rust_add_def MAX_FRAMES_IN_FLIGHT_def four_image_caps_def)
  have "unat (caps_min_image_count four_image_caps) + 1 < 2 ^ 32" "\<not> caps_min_image_count four_image_caps \<le> 3"
    "caps_max_image_count four_image_caps = 0 \<or>
      caps_min_image_count four_image_caps \<le> caps_max_image_count four_image_caps"
    by (simp_all add: demo_caps_def four_image_caps_def)
  with sm_image_count_bounds [OF this(1,3) n] n show ?thesis by blast
qed

text \<open>
  Whatever was requested since the last tick, the next one rebuilds once, for the size of the last
  request, and leaves the mailbox empty.
\<close>

theorem sm_serves_last_resize:
  assumes "sizes \<noteq> []" and "last sizes = (w, h)"
  shows "\<exists>m. sm_tick p d (requested sizes c) = sm_rebuild p d w h (c\<lparr>pending_resize := m\<rparr>) \<and> \<not> flag m"
proof -
  obtain m where "take_resize (mailbox.posts sizes (pending_resize c)) = (Some (w, h), m)"
    using mailbox.posts_last [OF assms(1), of "pending_resize c"] assms(2)
    by (cases "take_resize (mailbox.posts sizes (pending_resize c))") simp
  moreover from this have "\<not> flag m" by (auto simp: take_resize_def split: if_splits)
  ultimately show ?thesis
    by (auto simp: sm_tick_def requested_def run_sbind intro!: exI [of _ m])
qed

theorem sm_serves_last_resize_witness:
  "\<exists>m. sm_tick Dev steady_driver (requested [(1, 1), (800, 600)] sm_demo)
     = sm_rebuild Dev steady_driver 800 600 (sm_demo\<lparr>pending_resize := m\<rparr>) \<and> \<not> flag m"
  by (rule sm_serves_last_resize) simp_all

text \<open>
  Before it frees or destroys anything, this version waits for the device; if the wait succeeds, no
  submission is in flight on any fence when the first release is made.
\<close>

theorem sm_waits_before_release:
  assumes "sm_destroy_swapchain_resources d c = (r, c')"
  shows "\<exists>w. history c' = release_events c @ EWaitIdle w # history c \<and>
    (w = Inr () \<longrightarrow> \<not> in_flight_work f (EWaitIdle w # history c))"
  using sm_destroy_run [of d c] assms by auto

theorem sm_waits_before_release_witness:
  "\<exists>w. history (snd (sm_destroy_swapchain_resources steady_driver sm_demo))
     = release_events sm_demo @ EWaitIdle w # history sm_demo"
  using sm_waits_before_release [of steady_driver sm_demo _ _ 0] by (metis prod.collapse)

text \<open>
  A present that succeeds but reports a suboptimal swapchain (\<^verbatim>\<open>Ok(true)\<close>, which is how
  \<^verbatim>\<open>ash\<close> reports it) is treated like any other: the frame advances, and nothing is rebuilt.
\<close>

theorem sm_ignores_suboptimal_present:
  assumes "current_frame c < length (frames c)" and "unat idx < length (command_buffers c)"
    and "\<And>h i. d_submit d h i = Inr ()" and "\<And>h i. d_present d h i = Inr True"
  shows "sm_submit_and_present p d idx c = (Inr (),
      c\<lparr>history := EPresent (sd_graphics_queue (shared c)) (present_info_at c idx) (Inr True) #
          ESubmit (sd_graphics_queue (shared c)) (submit_info_at c idx) (in_flight (the_frame c)) (Inr ()) #
          history c,
        current_frame := (current_frame c + 1) mod length (frames c)\<rparr>)"
  unfolding sm_submit_and_present_def using assms by (rule submit_presented_run)

theorem sm_ignores_suboptimal_present_witness:
  "swapchain (snd (sm_submit_and_present Dev
     (demo_driver (Inr (demo_caps 640 480)) (Inr (1, False)) (Inr ()) (Inr True)) 1 sm_demo)) = swapchain sm_demo"
proof -
  have "current_frame sm_demo < length (frames sm_demo)" "unat 1 < length (command_buffers sm_demo)"
    unfolding sm_demo_def by (simp_all add: context_eval sm_eval cong: sbind_weak_cong)
  from sm_ignores_suboptimal_present [OF this, of "demo_driver (Inr (demo_caps 640 480)) (Inr (1, False)) (Inr ()) (Inr True)"]
  show ?thesis by (simp add: demo_driver_def)
qed

end
