(* ===== verification/Swapchain.thy ===== *)
theory Swapchain
  imports DemoDriver
begin

text \<open>
  The window render context of \<^verbatim>\<open>src/vulkan_backend/swapchain.rs\<close>, the other version of
  \<^verbatim>\<open>state_machine.rs\<close>. It does not wait for the device before it releases, prefers MAILBOX, then
  IMMEDIATE, over FIFO, and polls for an image instead of waiting for one: when none is ready, the tick
  moves to the next frame and calls itself. The model counts those calls with fuel; a call with no fuel
  left is a call that has not returned yet. The source says nothing of the render pass's attachment
  (\<^verbatim>\<open>color_attachment\<close>, \<^verbatim>\<open>subpass\<close> and \<^verbatim>\<open>dependency\<close> are not
  declared), so the model creates it with none.
\<close>

section \<open>Operations\<close>

definition sc_destroy_swapchain_resources :: "unit win" where
  "sc_destroy_swapchain_resources = release_swapchain_resources"

definition sc_choose_present_mode :: "present_mode list \<Rightarrow> present_mode" where
  "sc_choose_present_mode modes =
     (case find (\<lambda>m. m = MAILBOX) modes of
        Some m \<Rightarrow> m
      | None \<Rightarrow> (case find (\<lambda>m. m = IMMEDIATE) modes of Some m \<Rightarrow> m | None \<Rightarrow> FIFO))"

definition sc_image_count :: "profile \<Rightarrow> surface_caps \<Rightarrow> present_mode \<Rightarrow> ('e, u32) outcome" where
  "sc_image_count p caps present_mode =
     bnd (rust_add p (caps_min_image_count caps) 1) (\<lambda>image_count.
     let image_count = (if 0 < caps_max_image_count caps
                        then min image_count (caps_max_image_count caps) else image_count);
         image_count = max image_count (if present_mode = MAILBOX then 3 else 2)
     in Inr (min image_count (of_nat MAX_FRAMES_IN_FLIGHT)))"

definition sc_attachment :: "format \<Rightarrow> attachment_description option" where
  "sc_attachment fmt = None"

definition sc_build_swapchain :: "profile \<Rightarrow> driver \<Rightarrow> u32 \<Rightarrow> u32 \<Rightarrow> unit win" where
  "sc_build_swapchain p d want_w want_h =
     sbind sc_destroy_swapchain_resources (\<lambda>_.
     sbind (negotiate d sc_choose_present_mode (sc_image_count p) want_w want_h)
       (assemble d sc_attachment))"

definition sc_new :: "profile \<Rightarrow> driver \<Rightarrow> history \<Rightarrow> shared_device \<Rightarrow> handle \<Rightarrow> u32 \<Rightarrow> u32
    \<Rightarrow> (swapchain_error, window_ctx) outcome \<times> history" where
  "sc_new p d = new_with (sc_build_swapchain p d) (drop_ctx d sc_destroy_swapchain_resources) p"

definition sc_rebuild :: "profile \<Rightarrow> driver \<Rightarrow> u32 \<Rightarrow> u32 \<Rightarrow> unit win" where
  "sc_rebuild p d = rebuild_with (sc_build_swapchain p d)"

text \<open>
  No image was ready: on to the next frame if its fence is signalled (a failing query counts as not),
  and an error otherwise.
\<close>

definition sc_next_frame :: "driver \<Rightarrow> unit win" where
  "sc_next_frame d =
     sbind (sget (\<lambda>c. (frames c, (current_frame c + 1) mod length (frames c)))) (\<lambda>(fs, next_idx).
     sbind (slift (index fs next_idx)) (\<lambda>next.
     sbind (attempt (fence_status d (in_flight next))) (\<lambda>status.
     let fence_signaled = (case status of Inr b \<Rightarrow> b | Inl _ \<Rightarrow> False)
     in if \<not> fence_signaled then sfail (Error (VkError TIMEOUT))
        else supd (\<lambda>c. c\<lparr>current_frame := next_idx\<rparr>))))"

fun sc_tick :: "nat \<Rightarrow> profile \<Rightarrow> driver \<Rightarrow> tick_outcome win" where
  "sc_tick 0 p d = sfail OutOfFuel"
| "sc_tick (Suc fuel) p d =
     sbind (sget (\<lambda>c. take_resize (pending_resize c))) (\<lambda>(requested, mailbox).
     sbind (supd (\<lambda>c. c\<lparr>pending_resize := mailbox\<rparr>)) (\<lambda>_.
     case requested of
       Some (w, h) \<Rightarrow> sbind (sc_rebuild p d w h) (\<lambda>_. sret Recreated)
     | None \<Rightarrow>
         sbind current_sync (\<lambda>frame.
         sbind (qmark VkError (wait_fence d (in_flight frame) (- 1))) (\<lambda>_.
         sbind (sget swapchain) (\<lambda>sc.
         sbind (attempt (acquire_image d sc 0 (image_available frame))) (\<lambda>acquire.
         case acquire of
           Inr (idx, False) \<Rightarrow>
             sbind (qmark VkError (reset_fence d (in_flight frame))) (\<lambda>_. acquired_at idx)
         | Inr (idx, True) \<Rightarrow>
             sbind (sget extent) (\<lambda>ext.
             sbind (sc_rebuild p d (ewidth ext) (eheight ext)) (\<lambda>_. acquired_at idx))
         | Inl NOT_READY \<Rightarrow> sbind (sc_next_frame d) (\<lambda>_. sc_tick fuel p d)
         | Inl TIMEOUT \<Rightarrow> sbind (sc_next_frame d) (\<lambda>_. sc_tick fuel p d)
         | Inl ERROR_OUT_OF_DATE_KHR \<Rightarrow>
             sbind (sget extent) (\<lambda>ext.
             sbind (sc_rebuild p d (ewidth ext) (eheight ext)) (\<lambda>_. sret Recreated))
         | Inl SUBOPTIMAL_KHR \<Rightarrow>
             sbind (sget extent) (\<lambda>ext.
             sbind (sc_rebuild p d (ewidth ext) (eheight ext)) (\<lambda>_. sret Recreated))
         | Inl e \<Rightarrow> sfail (Error (VkError e))))))))"

definition sc_submit_and_present :: "profile \<Rightarrow> driver \<Rightarrow> u32 \<Rightarrow> unit win" where
  "sc_submit_and_present p d = submit_and_present_with (sc_build_swapchain p d) d"

definition sc_request_resize :: "u32 \<Rightarrow> u32 \<Rightarrow> unit win" where
  "sc_request_resize w h = supd (\<lambda>c. c\<lparr>pending_resize := request w h (pending_resize c)\<rparr>)"

definition sc_drop :: "driver \<Rightarrow> unit win" where
  "sc_drop d = drop_ctx d sc_destroy_swapchain_resources"

section \<open>The books\<close>

lemma sc_destroy_releases: "releases sc_destroy_swapchain_resources"
  unfolding sc_destroy_swapchain_resources_def by (rule releases_release)

lemma sc_build_keeps:
  assumes "nonnull_handles d" "exact_counts d" and "steady P"
  shows "keeps P (sc_build_swapchain p d w h)"
  unfolding sc_build_swapchain_def
  by (rule keeps_build [OF sc_destroy_releases assms(1,2)]) (use assms(3) in \<open>auto simp: steady_def\<close>)

lemma sc_rebuild_keeps:
  assumes "nonnull_handles d" "exact_counts d" and "steady P"
  shows "keeps P (sc_rebuild p d w h)"
  unfolding sc_rebuild_def
  by (intro keeps_rebuild sc_build_keeps assms) (use assms(3) in \<open>simp add: steady_def\<close>)

lemma sc_next_frame_keeps:
  assumes "steady P"
  shows "keeps P (sc_next_frame d)"
proof -
  have owned: "owned (c\<lparr>history := h\<rparr>) = owned c" for c h by (simp add: owned_def)
  have next_frame: "P (record_event ev c\<lparr>current_frame := Suc (current_frame c) mod length (frames c)\<rparr>)"
    if "P c" for c ev
  proof -
    have "P (record_event ev c)" using assms that by (simp add: steady_def)
    with assms have "P ((record_event ev c)\<lparr>current_frame :=
        (current_frame (record_event ev c) + 1) mod length (frames (record_event ev c))\<rparr>)"
      unfolding steady_def by blast
    then show ?thesis by simp
  qed
  show ?thesis
    unfolding keeps_def sc_next_frame_def fence_status_def
    by (auto simp: no_leak books_def Let_def owned next_frame split: sum.split intro!: wps_vk_call)
      (auto intro!: exI [of _ "{#}"])
qed

lemma sc_tick_keeps:
  assumes "nonnull_handles d" "exact_counts d" and "steady P"
  shows "keeps P (sc_tick fuel p d)"
proof (induction fuel)
  case 0
  then show ?case by (simp add: keeps_pure)
next
  case (Suc fuel)
  have upd: "keeps P (supd (\<lambda>c. c\<lparr>pending_resize := m\<rparr>))" for m
    using assms(3) by (intro keeps_supd) (simp_all add: steady_def)
  show ?case
    unfolding sc_tick.simps
    by (auto intro!: keeps_sbind keeps_pure upd sc_rebuild_keeps assms keeps_current_sync
        keeps_frame_calls [OF assms(3)] keeps_acquired_at sc_next_frame_keeps Suc
        split: prod.split option.split sum.split vk_result.split bool.split)
qed

interpretation sc: render_backend "sc_build_swapchain p" "\<lambda>_. sc_destroy_swapchain_resources" "sc_tick fuel p"
  "sc_submit_and_present p" for p fuel
proof
  fix d w h L c
  assume "nonnull_handles d" "exact_counts d" "books L c"
  then show "wps (sc_build_swapchain p d w h) (\<lambda>_ c'. assembled L c (extent c') c') (\<lambda>_ c'. broken L c c') c"
    unfolding sc_build_swapchain_def by (intro wps_build sc_destroy_releases)
next
  fix d and P :: "window_ctx \<Rightarrow> bool" and idx
  assume "nonnull_handles d" "exact_counts d" "steady P"
  then show "keeps P (sc_submit_and_present p d idx)"
    unfolding sc_submit_and_present_def by (intro keeps_submit sc_build_keeps)
qed (auto intro: sc_destroy_releases sc_tick_keeps)

declare sc_tick.simps(2) [simp del]

section \<open>Rounds of a tick\<close>

text \<open>One round without a resize request, from a context with a current frame.\<close>

definition after_poll :: "window_ctx \<Rightarrow> (u32 \<times> bool) vkr \<Rightarrow> window_ctx" where
  "after_poll c r = c\<lparr>history := EAcquire (swapchain c) 0 (image_available (the_frame c)) r #
     EWaitFence (in_flight (the_frame c)) (- 1) (Inr ()) # history c\<rparr>"

lemma sc_no_request: "\<not> flag m \<Longrightarrow> take_resize m = (None, m)"
  by (cases m) (simp add: take_resize_def)

lemma sc_same_mailbox: "c\<lparr>pending_resize := pending_resize c\<rparr> = (c :: window_ctx)"
  by (cases c) simp

lemma sc_tick_unfold:
  assumes "\<not> flag (pending_resize c)" and "current_frame c < length (frames c)"
  shows "sc_tick (Suc fuel) p d c =
    (case d_wait_fence d (history c) (in_flight (the_frame c)) (- 1) of
       Inl r \<Rightarrow> (Inl (Error (VkError r)), record_event (EWaitFence (in_flight (the_frame c)) (- 1) (Inl r)) c)
     | Inr _ \<Rightarrow>
         let r = d_acquire d (EWaitFence (in_flight (the_frame c)) (- 1) (Inr ()) # history c)
               (swapchain c) 0 (image_available (the_frame c));
             c1 = after_poll c r;
             rebuild = sc_rebuild p d (ewidth (extent c)) (eheight (extent c))
         in case r of
              Inr (idx, False) \<Rightarrow>
                sbind (qmark VkError (reset_fence d (in_flight (the_frame c)))) (\<lambda>_. acquired_at idx) c1
            | Inr (idx, True) \<Rightarrow> sbind rebuild (\<lambda>_. acquired_at idx) c1
            | Inl NOT_READY \<Rightarrow> sbind (sc_next_frame d) (\<lambda>_. sc_tick fuel p d) c1
            | Inl TIMEOUT \<Rightarrow> sbind (sc_next_frame d) (\<lambda>_. sc_tick fuel p d) c1
            | Inl ERROR_OUT_OF_DATE_KHR \<Rightarrow> sbind rebuild (\<lambda>_. sret Recreated) c1
            | Inl SUBOPTIMAL_KHR \<Rightarrow> sbind rebuild (\<lambda>_. sret Recreated) c1
            | Inl e \<Rightarrow> (Inl (Error (VkError e)), c1))"
  using assms
  by (auto simp: sc_tick.simps(2) run_sbind run_simps sc_no_request sc_same_mailbox sbind_def current_sync_run qmark_def
      attempt_def wait_fence_def acquire_image_def vk_call_def the_frame_def after_poll_def Let_def
      split: sum.split vk_result.split bool.split prod.split)

lemma sc_next_frame_run:
  assumes "frames c \<noteq> []"
  shows "sc_next_frame d c =
    (let i = (current_frame c + 1) mod length (frames c);
         fence = in_flight (frames c ! i);
         r = d_fence_status d (history c) fence;
         c1 = record_event (EFenceStatus fence r) c
     in if r = Inr True then (Inr (), c1\<lparr>current_frame := i\<rparr>) else (Inl (Error (VkError TIMEOUT)), c1))"
  using assms
  by (auto simp: sc_next_frame_def run_sbind run_simps sbind_def slift_def index_def attempt_def
      fence_status_def vk_call_def Let_def split: sum.split)

text \<open>While no image is ready and the fences are signalled, the tick does not come back.\<close>

lemma sc_tick_spins:
  assumes "\<And>h f t. d_wait_fence d h f t = Inr ()" and "\<And>h f. d_fence_status d h f = Inr True"
    and "\<And>h sc t s. d_acquire d h sc t s \<in> {Inl NOT_READY, Inl TIMEOUT}"
  shows "\<not> flag (pending_resize c) \<Longrightarrow> current_frame c < length (frames c) \<Longrightarrow>
    fst (sc_tick fuel p d c) = Inl OutOfFuel"
proof (induction fuel arbitrary: c)
  case 0
  then show ?case by (simp add: run_simps)
next
  case (Suc fuel)
  define r where "r = d_acquire d (EWaitFence (in_flight (the_frame c)) (- 1) (Inr ()) # history c)
      (swapchain c) 0 (image_available (the_frame c))"
  have "r = Inl NOT_READY \<or> r = Inl TIMEOUT" using assms(3) unfolding r_def by simp
  then have round: "sc_tick (Suc fuel) p d c = sbind (sc_next_frame d) (\<lambda>_. sc_tick fuel p d) (after_poll c r)"
    by (auto simp: sc_tick_unfold [OF Suc.prems] assms(1) r_def [symmetric] Let_def)
  have len: "0 < length (frames c)" using Suc.prems(2) by linarith
  obtain c2 where "sc_next_frame d (after_poll c r) = (Inr (), c2)"
    and "pending_resize c2 = pending_resize c" "frames c2 = frames c"
    "current_frame c2 = (current_frame c + 1) mod length (frames c)"
    using len by (auto simp: sc_next_frame_run after_poll_def assms(2) Let_def)
  then show ?case using round Suc.IH [of c2] Suc.prems(1) len by (simp add: sbind_run)
qed

text \<open>
  The tick does come back when the swapchain has an image after at most \<open>k\<close> polls: fuel for the polls
  left, and one more, is enough. Nothing else in a tick uses fuel.
\<close>

definition ends :: "('s, 'e, 'a) smonad \<Rightarrow> bool" where
  "ends m \<longleftrightarrow> (\<forall>s. fst (m s) \<noteq> Inl OutOfFuel)"

lemma map_fault_fuel [simp]: "map_fault g e = OutOfFuel \<longleftrightarrow> e = OutOfFuel"
  by (cases e) simp_all

lemma ends_basic:
  "ends (sret x)" "ends (sget f)" "ends (supd g)" "e \<noteq> OutOfFuel \<Longrightarrow> ends (sfail e)"
  "r \<noteq> Inl OutOfFuel \<Longrightarrow> ends (slift r)" "ends (vk_do ev)" "ends (vk_call reply ev')"
  by (simp_all add: ends_def run_simps slift_def run_vk_do vk_call_def split: sum.split)

lemma ends_sbind:
  assumes "ends m" and "\<And>x. ends (k x)"
  shows "ends (sbind m k)"
  unfolding ends_def
proof
  fix s
  have "fst (m s) \<noteq> Inl OutOfFuel" using assms(1) by (simp add: ends_def)
  then show "fst (sbind m k s) \<noteq> Inl OutOfFuel"
    using assms(2) by (auto simp: sbind_def ends_def split: prod.split sum.split)
qed

lemma ends_qmark: "ends m \<Longrightarrow> ends (qmark g m)"
  by (auto simp: ends_def qmark_def split: prod.split sum.split) (metis fst_conv)

lemma ends_attempt: "ends m \<Longrightarrow> ends (attempt m)"
  by (auto simp: ends_def attempt_def split: prod.split sum.split fault.split) (metis fst_conv)

lemma ends_scollect: "(\<And>x. ends (f x)) \<Longrightarrow> ends (scollect f xs)"
  by (induction xs) (auto intro: ends_basic ends_sbind)

lemma ends_seach: "(\<And>x. ends (f x)) \<Longrightarrow> ends (seach f xs)"
  by (induction xs) (auto intro: ends_basic ends_sbind)

lemmas ends_intros = ends_basic ends_sbind ends_qmark ends_attempt ends_scollect ends_seach

lemma choices_end:
  "choose_surface_format formats \<noteq> Inl OutOfFuel" "choose_extent caps w h \<noteq> Inl OutOfFuel"
  "sc_image_count p caps mode \<noteq> Inl OutOfFuel"
  by (auto simp: choose_surface_format_def choose_extent_def clamp_def index_def sc_image_count_def
      rust_add_def bnd_Inl_iff Let_def split: option.splits if_splits)

lemma sc_build_ends: "ends (sc_build_swapchain p d w h)"
  unfolding sc_build_swapchain_def sc_destroy_swapchain_resources_def release_swapchain_resources_def
    negotiate_def assemble_def replace_swapchain_def create_views_def create_render_pass_def
    create_framebuffers_def allocate_commands_def alloc_command_buffers_def ensure_frames_def create_frame_def
    create_def query_def
  by (auto intro!: ends_intros simp: choices_end split: prod.split)

lemma sc_rebuild_ends: "ends (sc_rebuild p d w h)"
  unfolding sc_rebuild_def rebuild_with_def by (intro ends_intros sc_build_ends)

primrec polls :: "history \<Rightarrow> nat" where
  "polls [] = 0"
| "polls (ev # h) = (case ev of EAcquire _ _ _ _ \<Rightarrow> Suc (polls h) | _ \<Rightarrow> polls h)"

lemma sc_tick_comes_back:
  assumes "\<And>h sc t s. k \<le> polls h \<Longrightarrow> d_acquire d h sc t s \<notin> {Inl NOT_READY, Inl TIMEOUT}"
  shows "k - polls (history c) < fuel \<Longrightarrow> fst (sc_tick fuel p d c) \<noteq> Inl OutOfFuel"
proof (induction fuel arbitrary: c)
  case (Suc fuel)
  have acq: "ends (acquired_at idx)" for idx
    unfolding acquired_at_def index_def by (auto intro!: ends_intros split: prod.split if_split_asm)
  have rebuilt: "ends (sbind (sc_rebuild p d w h) (\<lambda>_. sret Recreated))"
    "ends (sbind (sc_rebuild p d w h) (\<lambda>_. acquired_at idx))" for w h idx
    by (intro ends_intros sc_rebuild_ends acq)+
  consider (resize) "flag (pending_resize c)" | (none) "\<not> flag (pending_resize c)" "length (frames c) \<le> current_frame c"
    | (frame) "\<not> flag (pending_resize c)" "current_frame c < length (frames c)" by linarith
  then show ?case
  proof cases
    case resize
    then show ?thesis
      using rebuilt(1) by (simp add: ends_def sc_tick.simps(2) run_sbind run_simps take_resize_def)
  next
    case none
    then show ?thesis
      by (simp add: sc_tick.simps(2) run_sbind run_simps sc_no_request current_sync_def slift_def index_def sbind_def)
  next
    case frame
    let ?h = "EWaitFence (in_flight (the_frame c)) (- 1) (Inr ()) # history c"
    define r where "r = d_acquire d ?h (swapchain c) 0 (image_available (the_frame c))"
    have poll: "fst (sbind (sc_next_frame d) (\<lambda>_. sc_tick fuel p d) (after_poll c r)) \<noteq> Inl OutOfFuel"
      if "r \<in> {Inl NOT_READY, Inl TIMEOUT}"
    proof -
      have "\<not> k \<le> polls (history c)" using assms [of ?h] that by (auto simp: r_def)
      then have "k - polls (history (after_poll c r)) < fuel" using Suc.prems by (simp add: after_poll_def)
      then have "fst (sc_tick fuel p d c2) \<noteq> Inl OutOfFuel"
        if "history c2 = EFenceStatus f q # history (after_poll c r)" for c2 f q
        using Suc.IH [of c2] that by simp
      moreover have "frames (after_poll c r) \<noteq> []" using frame(2) by (auto simp: after_poll_def)
      ultimately show ?thesis by (simp add: sbind_def sc_next_frame_run Let_def)
    qed
    have reset: "ends (sbind (qmark VkError (reset_fence d f)) (\<lambda>_. acquired_at idx))" for f idx
      unfolding reset_fence_def by (intro ends_intros acq)
    show ?thesis
      unfolding sc_tick_unfold [OF frame] r_def [symmetric] Let_def
      using poll rebuilt reset
      by (auto simp: ends_def split: sum.split vk_result.split prod.split bool.split)
  qed
qed simp

section \<open>What a rebuild does to the history\<close>

text \<open>Queries: calls of a build that leave the swapchain as it is.\<close>

definition asks :: "window_ctx \<Rightarrow> window_ctx \<Rightarrow> bool" where
  "asks s s' \<longleftrightarrow> extends build_events s s' \<and> swapchain s' = swapchain s"

interpretation asks: preorder_on_states asks
  by unfold_locales (auto simp: asks_def dest: ext.R_trans intro: ext.R_refl)

lemma asks_query: "stable asks np (query f)"
  by (auto simp: stable_def asks_def query_def intro!: wps_vk_call extends_event)

lemma asks_negotiate: "stable asks False (negotiate d pick counts w h)"
  unfolding negotiate_def by (auto intro!: asks.stable_intros asks_query)

text \<open>A build that succeeds on top of a swapchain has destroyed it.\<close>

definition destroyed_since :: "handle \<Rightarrow> window_ctx \<Rightarrow> window_ctx \<Rightarrow> bool" where
  "destroyed_since sc s s' \<longleftrightarrow> (\<exists>es. history s' = es @ history s \<and> set es \<subseteq> build_events \<and>
     EDestroy KSwapchain sc \<in> set es)"

lemma destroyed_since_trans:
  "extends build_events s s1 \<Longrightarrow> destroyed_since sc s1 s2 \<Longrightarrow> destroyed_since sc s s2"
  "destroyed_since sc s s1 \<Longrightarrow> extends build_events s1 s2 \<Longrightarrow> destroyed_since sc s s2"
  by (auto simp: destroyed_since_def extends_def)

lemma wps_replace_destroys:
  assumes "swapchain s \<noteq> 0"
  shows "wps (replace_swapchain d caps chosen mode ext n) (\<lambda>_. destroyed_since (swapchain s) s) (\<lambda>_ _. True) s"
  unfolding replace_swapchain_def
  using assms
  by (auto simp: destroyed_since_def intro!: wps_create)

lemma wps_assemble_destroys:
  assumes "swapchain s \<noteq> 0"
  shows "wps (assemble d att (caps, chosen, mode, ext, n)) (\<lambda>_. destroyed_since (swapchain s) s) (\<lambda>_ _. True) s"
proof -
  let ?rest = "sbind (create_views d) (\<lambda>_. sbind (create_render_pass d (att (sf_format chosen))) (\<lambda>_.
     sbind (create_framebuffers d ext) (\<lambda>_. sbind (allocate_commands d) (\<lambda>_. ensure_frames d))))"
  have "stable (extends build_events) False ?rest"
    unfolding create_views_def create_render_pass_def
      create_framebuffers_def allocate_commands_def alloc_command_buffers_def ensure_frames_def
    by (auto intro!: ext.stable_intros ext_intros create_frame_calls split: prod.split)
  then have rest: "wps ?rest (\<lambda>_. destroyed_since (swapchain s) s) (\<lambda>_ _. True) s1"
    if "destroyed_since (swapchain s) s s1" for s1
    using that by (auto simp: stable_def intro: destroyed_since_trans elim!: wps_mono allE [of _ s1])
  show ?thesis
    unfolding assemble_def prod.case
    by (subst wps_sbind) (rule wps_mono [OF wps_replace_destroys [OF assms]], simp_all only: rest)
qed

lemma sc_build_destroys:
  assumes "swapchain s \<noteq> 0" and "sc_build_swapchain p d w h s = (Inr u, s')"
  shows "destroyed_since (swapchain s) s s'"
proof -
  let ?s = "(released s)\<lparr>history := release_events s @ history s\<rparr>"
  let ?N = "negotiate d sc_choose_present_mode (sc_image_count p) w h"
  have s: "extends build_events s ?s" "swapchain ?s = swapchain s"
    by (auto simp: extends_def release_events_def)
  obtain x s1 where neg: "?N ?s = (Inr x, s1)" and asm: "assemble d sc_attachment x s1 = (Inr u, s')"
    using assms(2)
    by (auto simp: sc_build_swapchain_def sc_destroy_swapchain_resources_def release_run sbind_run(1)
        sbind_def [of ?N] split: prod.splits sum.splits)
  from stable_run(1) [OF asks_negotiate neg]
  have s1: "extends build_events ?s s1" "swapchain s1 = swapchain ?s" by (simp_all add: asks_def)
  then have "swapchain s1 \<noteq> 0" using s assms(1) by simp
  from wps_value [OF wps_assemble_destroys [OF this]] asm
  have "destroyed_since (swapchain s1) s1 s'" by (cases x) blast
  then have "destroyed_since (swapchain s) s1 s'" using s1 s by simp
  then show ?thesis by (rule destroyed_since_trans(1) [OF ext.R_trans [OF s(1) s1(1)]])
qed

section \<open>A context to run\<close>

lemmas sc_eval = sc_new_def sc_build_swapchain_def sc_destroy_swapchain_resources_def
  sc_choose_present_mode_def sc_image_count_def sc_attachment_def sc_rebuild_def sc_tick.simps(2)
  sc_submit_and_present_def sc_drop_def

definition sc_demo :: window_ctx where
  "sc_demo = (case sc_new Dev steady_driver demo_start demo_device 10 640 480 of (Inr c, _) \<Rightarrow> c)"

lemma sc_demo_new:
  "sc_new Dev steady_driver demo_start demo_device 10 640 480 = (Inr sc_demo, history sc_demo)"
  unfolding sc_demo_def by (simp add: context_eval sc_eval cong: sbind_weak_cong)

lemma sc_demo_ready: "books {#} sc_demo" "good sc_demo" "state sc_demo = Ready"
  using sc.new_books [OF steady_conforms demo_start_holds sc_demo_new [unfolded sc_new_def]] by simp_all

lemma sc_demo_no_resize: "\<not> flag (pending_resize sc_demo)"
  unfolding sc_demo_def by (simp add: context_eval sc_eval cong: sbind_weak_cong)

lemma goodD: "good c \<Longrightarrow> current_frame c < length (frames c)" "good c \<Longrightarrow> frames c \<noteq> []"
  "good c \<Longrightarrow> swapchain c \<noteq> 0"
  by (auto simp: good_def complete_def)

section \<open>Properties\<close>

text \<open>
  C15: This version balances its books too. From any history in which exactly \<open>L\<close> and the surface exist,
  after \<^verbatim>\<open>new\<close>, any sequence of ticks, submissions and resize requests (with any number of
  polls in each tick) and the drop, \<open>L\<close> remains, and nothing else if no operation failed; if one did, image views,
  framebuffers, semaphores and fences may be left besides.
\<close>

theorem sc_lifetime:
  assumes "nonnull_handles d" "exact_counts d" and "holds (L + {#(KSurface, surf)#}) hist"
    and "sc_new p d hist sd surf w h = (Inr c, hist')"
    and "run_ops (sc_tick fuel p d) (sc_submit_and_present p d) ops c = (ok, c')"
    and "sc_drop d c' = (r, c'')"
  shows "r = Inr () \<and> (\<exists>K. leak K \<and> holds (L + K) (history c'') \<and> (ok \<longrightarrow> K = {#}))"
  using assms(4,6) unfolding sc_new_def sc_drop_def by (rule sc.lifetime [OF assms(1-3) _ assms(5)])

definition sc_demo_ops :: "win_op list" where
  "sc_demo_ops = [OpTick, OpSubmit 1, OpResize 800 600, OpTick]"

lemma sc_demo_run:
  "fst (run_ops (sc_tick (Suc 0) Dev steady_driver) (sc_submit_and_present Dev steady_driver) sc_demo_ops sc_demo)"
  unfolding sc_demo_def sc_demo_ops_def
  by (simp add: context_eval sc_eval cong: sbind_weak_cong del: run_ops.simps(2))

theorem sc_lifetime_witness:
  "holds {#} (history (snd (sc_drop steady_driver (snd (run_ops (sc_tick (Suc 0) Dev steady_driver)
     (sc_submit_and_present Dev steady_driver) sc_demo_ops sc_demo)))))"
proof -
  obtain c' where run: "run_ops (sc_tick (Suc 0) Dev steady_driver) (sc_submit_and_present Dev steady_driver)
      sc_demo_ops sc_demo = (True, c')"
    using sc_demo_run by (metis prod.collapse)
  obtain r c'' where drop: "sc_drop steady_driver c' = (r, c'')" by force
  from sc_lifetime [OF steady_conforms demo_start_holds sc_demo_new run drop] run drop
  show ?thesis by auto
qed

text \<open>
  C36: As long as no image is ready and the frames' fences are signalled (a window whose images the
  compositor keeps, while the GPU is idle), the tick never returns: it calls itself once per poll, with no
  bound, however much fuel the calls are given.
\<close>

theorem sc_tick_never_returns:
  assumes "good c" and "\<not> flag (pending_resize c)"
    and "\<And>h f t. d_wait_fence d h f t = Inr ()" and "\<And>h f. d_fence_status d h f = Inr True"
    and "\<And>h sc t s. d_acquire d h sc t s \<in> {Inl NOT_READY, Inl TIMEOUT}"
  shows "fst (sc_tick fuel p d c) = Inl OutOfFuel"
  using goodD(1) [OF assms(1)] by (intro sc_tick_spins assms)

definition busy_driver :: driver where
  "busy_driver = demo_driver (Inr (demo_caps 640 480)) (Inl NOT_READY) (Inr ()) (Inr False)"

theorem sc_tick_never_returns_witness:
  "fst (sc_tick 1000 Dev busy_driver sc_demo) = Inl OutOfFuel"
  by (rule sc_tick_never_returns [OF sc_demo_ready(2) sc_demo_no_resize])
    (simp_all add: busy_driver_def demo_driver_def)

text \<open>
  C19: The tick does return when the swapchain has an answer after \<open>k\<close> polls at the latest: it calls itself
  at most once per poll that is left until then.
\<close>

theorem sc_tick_returns:
  assumes "\<And>h sc t s. k \<le> polls h \<Longrightarrow> d_acquire d h sc t s \<notin> {Inl NOT_READY, Inl TIMEOUT}"
    and "k - polls (history c) < fuel"
  shows "fst (sc_tick fuel p d c) \<noteq> Inl OutOfFuel"
  by (rule sc_tick_comes_back [OF assms])

definition slow_driver :: driver where
  "slow_driver = steady_driver
     \<lparr>d_acquire := (\<lambda>h sc t s. if polls h < 2 then Inl NOT_READY else Inr (1, False))\<rparr>"

theorem sc_tick_returns_witness: "fst (sc_tick 3 Dev slow_driver sc_demo) \<noteq> Inl OutOfFuel"
proof (rule sc_tick_returns)
  show "d_acquire slow_driver h sc t s \<notin> {Inl NOT_READY, Inl TIMEOUT}" if "2 \<le> polls h" for h sc t s
    using that by (simp add: slow_driver_def)
qed simp

text \<open>
  C23: A resize that follows a submission frees the command buffers while the one just submitted is still
  executing: between the submission and the release there is no call that waits for it.
\<close>

theorem sc_frees_submitted:
  assumes "current_frame c < length (frames c)" and "unat idx < length (command_buffers c)"
    and "\<And>h i. d_submit d h i = Inr ()" and "\<And>h i. d_present d h i = Inr b"
    and "sc_submit_and_present p d idx c = (Inr (), c1)" and "sc_request_resize w h c1 = (Inr (), c2)"
  shows "\<exists>es h. history (snd (sc_tick (Suc fuel) p d c2)) =
      es @ EFreeCommandBuffers (sd_command_pool (shared c)) (command_buffers c) # h \<and>
    in_flight_work (in_flight (the_frame c)) h \<and>
    si_command_buffer (submit_info_at c idx) \<in> set (command_buffers c)"
proof -
  have c1: "c1 = c\<lparr>history := EPresent (sd_graphics_queue (shared c)) (present_info_at c idx) (Inr b) #
      ESubmit (sd_graphics_queue (shared c)) (submit_info_at c idx) (in_flight (the_frame c)) (Inr ()) #
      history c, current_frame := (current_frame c + 1) mod length (frames c)\<rparr>"
    using submit_presented_run [OF assms(1-4), of "sc_build_swapchain p d"] assms(5)
    by (simp add: sc_submit_and_present_def)
  have c2: "c2 = c1\<lparr>pending_resize := request w h (pending_resize c1)\<rparr>"
    using assms(6) by (simp add: sc_request_resize_def run_simps)
  have cbs: "command_buffers c \<noteq> []" using assms(2) by auto
  let ?s = "c2\<lparr>pending_resize := (pending_resize c2)\<lparr>flag := False\<rparr>, state := Recreating\<rparr>"
  let ?free = "EFreeCommandBuffers (sd_command_pool (shared c)) (command_buffers c)"
  let ?more = "sbind (negotiate d sc_choose_present_mode (sc_image_count p) w h) (\<lambda>x.
    sbind (assemble d sc_attachment x) (\<lambda>_. sbind (supd (\<lambda>c. c\<lparr>state := Ready\<rparr>)) (\<lambda>_. sret Recreated)))"
  have run: "sc_tick (Suc fuel) p d c2 = ?more ((released ?s)\<lparr>history := release_events ?s @ history ?s\<rparr>)"
    by (simp add: c2 sc_tick.simps(2) run_sbind run_simps take_resize_def request_def sc_rebuild_def
        rebuild_with_def sc_build_swapchain_def sc_destroy_swapchain_resources_def sbind_run(1) [OF release_run])
  have "stable (extends UNIV) False ?more"
    by (auto intro!: ext.stable_intros ext_intros stable_extends_mono [OF negotiate_calls]
        stable_extends_mono [OF assemble_calls])
  from extends_history [OF this, of "(released ?s)\<lparr>history := release_events ?s @ history ?s\<rparr>"] obtain es
    where "history (snd (sc_tick (Suc fuel) p d c2)) = es @ release_events ?s @ history ?s"
    unfolding run by auto
  moreover have "\<exists>rs. release_events ?s = rs @ [?free]"
    using cbs by (simp add: release_events_def c1 c2)
  ultimately obtain es where
    "history (snd (sc_tick (Suc fuel) p d c2)) = es @ ?free # history ?s" by (metis append.assoc append_Cons append_Nil)
  moreover have "in_flight_work (in_flight (the_frame c)) (history ?s)" by (simp add: c1 c2)
  ultimately show ?thesis using assms(2) by (auto simp: submit_info_at_def)
qed

theorem sc_frees_submitted_witness:
  "\<exists>es h. history (snd (sc_tick (Suc 0) Dev steady_driver (snd (sc_request_resize 800 600
       (snd (sc_submit_and_present Dev steady_driver 1 sc_demo)))))) =
     es @ EFreeCommandBuffers (sd_command_pool (shared sc_demo)) (command_buffers sc_demo) # h \<and>
     in_flight_work (in_flight (the_frame sc_demo)) h"
proof -
  have idx: "unat 1 < length (command_buffers sc_demo)"
    unfolding sc_demo_def by (simp add: context_eval sc_eval cong: sbind_weak_cong)
  have ok: "d_submit steady_driver h i = Inr ()" "d_present steady_driver h j = Inr False" for h i j
    by (simp_all add: steady_driver_def demo_driver_def)
  obtain c1 where sub: "sc_submit_and_present Dev steady_driver 1 sc_demo = (Inr (), c1)"
    using submit_presented_run [OF goodD(1) [OF sc_demo_ready(2)] idx ok]
    by (simp add: sc_submit_and_present_def)
  obtain c2 where req: "sc_request_resize 800 600 c1 = (Inr (), c2)"
    by (simp add: sc_request_resize_def run_simps)
  from sc_frees_submitted [OF goodD(1) [OF sc_demo_ready(2)] idx ok sub req, of 0] show ?thesis
    by (simp add: sub req) blast
qed

text \<open>
  C32: An acquire that succeeds but calls the swapchain suboptimal makes the tick rebuild and then hand out
  the index it acquired from the old swapchain, which the rebuild has destroyed, with the command buffer
  and framebuffer of the new one; and the frame's fence has not been reset for the submission to come.
\<close>

theorem sc_suboptimal_stale:
  assumes "good c" and "\<not> flag (pending_resize c)"
    and "d_wait_fence d (history c) (in_flight (the_frame c)) (- 1) = Inr ()"
    and "d_acquire d (EWaitFence (in_flight (the_frame c)) (- 1) (Inr ()) # history c) (swapchain c) 0
      (image_available (the_frame c)) = Inr (idx, True)"
    and "sc_tick (Suc fuel) p d c = (Inr x, c')"
  shows "\<exists>es. history c' = es @ EAcquire (swapchain c) 0 (image_available (the_frame c)) (Inr (idx, True)) #
      EWaitFence (in_flight (the_frame c)) (- 1) (Inr ()) # history c \<and>
    EDestroy KSwapchain (swapchain c) \<in> set es \<and> (\<forall>f r. EResetFence f r \<notin> set es) \<and>
    x = Acquired \<lparr>aq_image_index = idx, aq_command_buffer = command_buffers c' ! unat idx,
      aq_framebuffer = framebuffers c' ! unat idx, aq_render_pass = render_pass c', aq_extent = extent c'\<rparr>"
proof -
  let ?c = "after_poll c (Inr (idx, True))"
  let ?b = "sc_build_swapchain p d (ewidth (extent c)) (eheight (extent c))"
  have "sbind (sc_rebuild p d (ewidth (extent c)) (eheight (extent c))) (\<lambda>_. acquired_at idx) ?c = (Inr x, c')"
    using assms(3-5) by (simp add: sc_tick_unfold [OF assms(2) goodD(1) [OF assms(1)]] Let_def)
  then obtain c1 where build: "?b (?c\<lparr>state := Recreating\<rparr>) = (Inr (), c1)"
    and acq: "acquired_at idx (c1\<lparr>state := Ready\<rparr>) = (Inr x, c')"
    by (auto simp: sc_rebuild_def rebuild_with_def run_sbind run_simps sbind_def split: prod.splits sum.splits)
  have "swapchain (?c\<lparr>state := Recreating\<rparr>) \<noteq> 0" using goodD(3) [OF assms(1)] by (simp add: after_poll_def)
  from sc_build_destroys [OF this build] obtain es where es: "history c1 = es @ history ?c"
    "set es \<subseteq> build_events" "EDestroy KSwapchain (swapchain c) \<in> set es"
    by (auto simp: destroyed_since_def after_poll_def)
  from es(2) have "EResetFence f r \<notin> set es" for f r by (auto simp: build_events_def)
  with es acq show ?thesis
    by (intro exI [of _ es]) (auto simp: acquired_at_run after_poll_def split: if_splits)
qed

definition suboptimal_poll_driver :: driver where
  "suboptimal_poll_driver = demo_driver (Inr (demo_caps 640 480)) (Inr (1, True)) (Inr ()) (Inr False)"

theorem sc_suboptimal_stale_witness:
  "\<exists>a c'. sc_tick (Suc 0) Dev suboptimal_poll_driver sc_demo = (Inr (Acquired a), c') \<and> aq_image_index a = 1 \<and>
     EDestroy KSwapchain (swapchain sc_demo) \<in> set (history c')"
proof -
  have "\<exists>x. fst (sc_tick (Suc 0) Dev suboptimal_poll_driver sc_demo) = Inr x"
    unfolding sc_demo_def suboptimal_poll_driver_def by (simp add: context_eval sc_eval cong: sbind_weak_cong)
  then obtain x c' where tick: "sc_tick (Suc 0) Dev suboptimal_poll_driver sc_demo = (Inr x, c')"
    by (metis prod.collapse)
  have calls: "d_wait_fence suboptimal_poll_driver h f t = Inr ()"
    "d_acquire suboptimal_poll_driver h sc t s = Inr (1, True)" for h f t sc s
    by (simp_all add: suboptimal_poll_driver_def demo_driver_def)
  from sc_suboptimal_stale [OF sc_demo_ready(2) sc_demo_no_resize calls tick] tick show ?thesis by auto
qed

text \<open>
  C40: The image count asked for is two or three, and three for MAILBOX whatever the surface allows: it is
  above the surface's maximum when that is below what the mode is given, and below its minimum when that
  is above three.
\<close>

theorem sc_image_count_bounds:
  assumes "unat (caps_min_image_count caps) + 1 < 2 ^ 32"
    and "caps_max_image_count caps = 0 \<or> caps_min_image_count caps \<le> caps_max_image_count caps"
    and "sc_image_count p caps mode = Inr n"
  shows "(mode = MAILBOX \<longrightarrow> n = 3) \<and> 2 \<le> n \<and> n \<le> 3 \<and>
    (n < caps_min_image_count caps \<longleftrightarrow> 3 < caps_min_image_count caps) \<and>
    (caps_max_image_count caps \<noteq> 0 \<and> caps_max_image_count caps < n \<longleftrightarrow>
      caps_max_image_count caps \<noteq> 0 \<and> caps_max_image_count caps < (if mode = MAILBOX then 3 else 2))"
proof -
  have "unat (caps_min_image_count caps + 1) = unat (caps_min_image_count caps) + 1"
    using assms(1) by (simp add: unat_word_ariths)
  then show ?thesis
    using assms
    by (auto simp: sc_image_count_def rust_add_ok MAX_FRAMES_IN_FLIGHT_def Let_def min_def max_def
        word_le_nat_alt word_less_nat_alt unat_eq_zero split: if_splits)
qed

definition two_image_caps :: surface_caps where
  "two_image_caps = (demo_caps 640 480)\<lparr>caps_max_image_count := 2\<rparr>"

theorem sc_image_count_bounds_witness:
  "\<exists>n. sc_image_count Dev two_image_caps MAILBOX = Inr n \<and> caps_max_image_count two_image_caps < n"
proof -
  have n: "sc_image_count Dev two_image_caps MAILBOX = Inr 3"
    by (simp add: sc_image_count_def demo_caps_def rust_add_def MAX_FRAMES_IN_FLIGHT_def two_image_caps_def)
  have "unat (caps_min_image_count two_image_caps) + 1 < 2 ^ 32"
    "caps_max_image_count two_image_caps = 0 \<or>
      caps_min_image_count two_image_caps \<le> caps_max_image_count two_image_caps"
    by (simp_all add: demo_caps_def two_image_caps_def)
  from sc_image_count_bounds [OF this n] have "caps_max_image_count two_image_caps < 3"
    by (simp add: two_image_caps_def)
  with n show ?thesis by blast
qed

end
