(* ===== verification/Resource.thy ===== *)
theory Resource
  imports DemoDriver
begin

text \<open>
  Images of \<^verbatim>\<open>src/vulkan_backend/resource.rs\<close>: the choice of a memory type, colour attachments,
  images imported from a file descriptor or from an IOSurface, and their release. The memory properties of
  the physical device and the IOSurface functions are parameters, as the driver is.
\<close>

section \<open>Structures\<close>

datatype resource_error = ResVk vk_result | NoMemoryType u32 u32 | ImportFailed string

text \<open>The counted prefix of an array of 32 entries; of a memory type, its property flags.\<close>

record memory_properties =
  memory_type_count :: u32
  memory_types :: "u32 list"

definition DEVICE_LOCAL :: u32 where
  "DEVICE_LOCAL = 1"

record gpu_image =
  gi_image :: handle
  gi_memory :: "handle option"
  gi_view :: handle
  gi_extent :: extent2d
  gi_format :: format
  gi_owns_memory :: bool

type_synonym 'a res = "(vk_world, resource_error, 'a) smonad"

section \<open>Operations\<close>

text \<open>The \<^verbatim>\<open>for\<close> loop of \<^verbatim>\<open>find_memory_type\<close>, over the indices left.\<close>

fun find_type :: "profile \<Rightarrow> memory_properties \<Rightarrow> u32 \<Rightarrow> u32 \<Rightarrow> nat list \<Rightarrow> (resource_error, u32) outcome" where
  "find_type p mem_props type_bits properties [] = Inl (Error (NoMemoryType type_bits properties))"
| "find_type p mem_props type_bits properties (i # is) =
     bnd (rust_shl p 1 i) (\<lambda>bit :: u32.
     bnd (index (memory_types mem_props) i) (\<lambda>flags.
     if type_bits AND bit \<noteq> 0 \<and> contains_flags flags properties then Inr (of_nat i)
     else find_type p mem_props type_bits properties is))"

definition find_memory_type :: "profile \<Rightarrow> memory_properties \<Rightarrow> u32 \<Rightarrow> u32 \<Rightarrow> (resource_error, u32) outcome" where
  "find_memory_type p mem_props type_bits properties =
     find_type p mem_props type_bits properties [0..<unat (memory_type_count mem_props)]"

definition destroy_image :: "gpu_image \<Rightarrow> (vk_world, resource_error, gpu_image) smonad" where
  "destroy_image g =
     sbind (if gi_view g \<noteq> 0
            then sbind (vk_do (EDestroy KImageView (gi_view g))) (\<lambda>_. sret (g\<lparr>gi_view := 0\<rparr>))
            else sret g) (\<lambda>g.
     sbind (if gi_image g \<noteq> 0
            then sbind (vk_do (EDestroy KImage (gi_image g))) (\<lambda>_. sret (g\<lparr>gi_image := 0\<rparr>))
            else sret g) (\<lambda>g.
     if gi_owns_memory g then
       (case gi_memory g of
          Some memory \<Rightarrow> sbind (vk_do (EDestroy KMemory memory)) (\<lambda>_. sret (g\<lparr>gi_memory := None\<rparr>))
        | None \<Rightarrow> sret g)
     else sret g))"

definition make_view :: "driver \<Rightarrow> handle \<Rightarrow> format \<Rightarrow> handle res" where
  "make_view d img fmt = qmark ResVk (create d (ImageViewInfo img fmt))"

definition bind_memory :: "driver \<Rightarrow> handle \<Rightarrow> handle \<Rightarrow> ('s, unit) vk" where
  "bind_memory d img memory = vk_call (\<lambda>h. d_bind_image_memory d h img memory) (EBind img memory)"

text \<open>
  What \<^verbatim>\<open>create_color_attachment\<close> and \<^verbatim>\<open>import_opaque_fd\<close> share behind the creation
  of the image: memory for it, the binding and the view.
\<close>

definition back_image :: "profile \<Rightarrow> driver \<Rightarrow> memory_properties \<Rightarrow> external_source \<Rightarrow> extent2d \<Rightarrow> format
    \<Rightarrow> handle \<Rightarrow> gpu_image res" where
  "back_image p d mem_props src ext fmt img =
     sbind (sget (\<lambda>s. d_memory_requirements d (history s) img)) (\<lambda>(req_size, req_bits).
     sbind (vk_do EQuery) (\<lambda>_.
     sbind (slift (find_memory_type p mem_props req_bits DEVICE_LOCAL)) (\<lambda>type_index.
     sbind (qmark ResVk (create d (MemoryInfo
       \<lparr>mi_next = src, mi_size = req_size, mi_type_index = type_index\<rparr>))) (\<lambda>memory.
     sbind (qmark ResVk (bind_memory d img memory)) (\<lambda>_.
     sbind (make_view d img fmt) (\<lambda>view.
     sret \<lparr>gi_image = img, gi_memory = Some memory, gi_view = view, gi_extent = ext, gi_format = fmt,
       gi_owns_memory = True\<rparr>))))))"

definition create_color_attachment :: "profile \<Rightarrow> driver \<Rightarrow> memory_properties \<Rightarrow> extent2d \<Rightarrow> format
    \<Rightarrow> image_usage set \<Rightarrow> gpu_image res" where
  "create_color_attachment p d mem_props ext fmt usage =
     sbind (qmark ResVk (create d (ImageInfo
       \<lparr>ii_next = NoImport, ii_format = fmt, ii_extent = ext, ii_usage = usage\<rparr>))) (\<lambda>img.
     back_image p d mem_props NoImport ext fmt img)"

definition import_opaque_fd :: "profile \<Rightarrow> driver \<Rightarrow> memory_properties \<Rightarrow> int \<Rightarrow> extent2d \<Rightarrow> format
    \<Rightarrow> gpu_image res" where
  "import_opaque_fd p d mem_props fd ext fmt =
     sbind (qmark ResVk (create d (ImageInfo
       \<lparr>ii_next = ExternalFd, ii_format = fmt, ii_extent = ext,
        ii_usage = {SAMPLED, TRANSFER_DST, COLOR_ATTACHMENT}\<rparr>))) (\<lambda>img.
     back_image p d mem_props (ImportFd fd) ext fmt img)"

text \<open>The IOSurface functions; a lookup that succeeds hands over a reference.\<close>

record iosurface_api =
  io_lookup :: "u32 \<Rightarrow> handle"
  io_width :: "handle \<Rightarrow> u64"
  io_height :: "handle \<Rightarrow> u64"

definition import_from_mach_port :: "driver \<Rightarrow> iosurface_api \<Rightarrow> u32 \<Rightarrow> format \<Rightarrow> image_usage set \<Rightarrow> gpu_image res" where
  "import_from_mach_port d io port fmt usage =
     (let surface_ref = io_lookup io port
      in if surface_ref = 0 then sfail (Error (ImportFailed ''IOSurfaceLookupFromMachPort returned null''))
         else sbind (vk_do (EAcquireRef KIOSurface surface_ref)) (\<lambda>_.
           let width = ucast (io_width io surface_ref) :: u32;
               height = ucast (io_height io surface_ref) :: u32
           in if width = 0 \<or> height = 0 then
                sbind (vk_do (EDestroy KIOSurface surface_ref)) (\<lambda>_.
                sfail (Error (ImportFailed ''IOSurface reported zero dimensions'')))
              else
                let ext = \<lparr>ewidth = width, eheight = height\<rparr> in
                sbind (attempt (create d (ImageInfo
                  \<lparr>ii_next = ImportIOSurface surface_ref, ii_format = fmt, ii_extent = ext,
                   ii_usage = usage\<rparr>))) (\<lambda>img.
                sbind (vk_do (EDestroy KIOSurface surface_ref)) (\<lambda>_.
                sbind (case img of Inr img \<Rightarrow> sret img | Inl r \<Rightarrow> sfail (Error (ResVk r))) (\<lambda>img.
                sbind (make_view d img fmt) (\<lambda>view.
                sret \<lparr>gi_image = img, gi_memory = None, gi_view = view, gi_extent = ext, gi_format = fmt,
                  gi_owns_memory = False\<rparr>))))))"

section \<open>The choice of a memory type\<close>

definition fits :: "memory_properties \<Rightarrow> u32 \<Rightarrow> u32 \<Rightarrow> nat \<Rightarrow> bool" where
  "fits mem_props type_bits properties i \<longleftrightarrow>
     bit type_bits i \<and> contains_flags (memory_types mem_props ! i) properties"

text \<open>The first index that fits; the search ends with an error exactly when there is none.\<close>

lemma find_type_spec:
  assumes "\<forall>i\<in>set is. i < length (memory_types mem_props)" and "length (memory_types mem_props) \<le> 32"
  shows "find_type p mem_props type_bits properties is =
    (case find (fits mem_props type_bits properties) is of
       Some i \<Rightarrow> Inr (of_nat i)
     | None \<Rightarrow> Inl (Error (NoMemoryType type_bits properties)))"
  using assms
proof (induction "is")
  case (Cons i "is")
  then have "i < 32" by simp
  then show ?case using Cons by (simp add: rust_shl_ok and_exp_eq_0_iff_not_bit fits_def)
qed simp

section \<open>The books\<close>

definition image_ledger :: "gpu_image \<Rightarrow> ledger" where
  "image_ledger g = opt_handle KImage (gi_image g) + opt_handle KImageView (gi_view g) +
     (case gi_memory g of Some m \<Rightarrow> if gi_owns_memory g then {#(KMemory, m)#} else {#} | None \<Rightarrow> {#})"

definition destroy_events :: "gpu_image \<Rightarrow> history" where
  "destroy_events g =
     (if gi_owns_memory g then map (EDestroy KMemory) (case gi_memory g of Some m \<Rightarrow> [m] | None \<Rightarrow> []) else []) @
     (if gi_image g \<noteq> 0 then [EDestroy KImage (gi_image g)] else []) @
     (if gi_view g \<noteq> 0 then [EDestroy KImageView (gi_view g)] else [])"

definition destroyed :: "gpu_image \<Rightarrow> gpu_image" where
  "destroyed g = g\<lparr>gi_view := 0, gi_image := 0,
     gi_memory := (if gi_owns_memory g then None else gi_memory g)\<rparr>"

lemma destroy_image_run:
  "destroy_image g s = (Inr (destroyed g), s\<lparr>history := destroy_events g @ history s\<rparr>)"
  by (cases g)
    (auto simp: destroy_image_def run_sbind run_simps run_vk_do destroy_events_def destroyed_def split: option.split)

lemma holds_destroy_events: "holds own (destroy_events g @ h) \<longleftrightarrow> holds (own + image_ledger g) h"
  by (auto simp: destroy_events_def image_ledger_def opt_handle_def ac_simps add_mset_commute split: option.split)

text \<open>
  What the three ways to an image promise: on success the books hold the image and nothing else new, on
  failure at most an image and its memory are left. The client destroys the image.
\<close>

definition lost_image :: "ledger \<Rightarrow> bool" where
  "lost_image K \<longleftrightarrow> fst ` set_mset K \<subseteq> {KImage, KMemory}"

lemma lost_image_simps [simp]:
  "lost_image {#}" "lost_image (add_mset (k, x) K) \<longleftrightarrow> k \<in> {KImage, KMemory} \<and> lost_image K"
  by (auto simp: lost_image_def)

locale image_source =
  fixes make :: "driver \<Rightarrow> gpu_image res"
  assumes make_books: "nonnull_handles d \<Longrightarrow> holds own (history s) \<Longrightarrow>
    wps (make d) (\<lambda>g s'. holds (own + image_ledger g) (history s'))
      (\<lambda>e s'. \<exists>K. lost_image K \<and> holds (own + K) (history s')) s"
begin

lemma make_destroy:
  assumes "nonnull_handles d" "holds own (history s)"
    and "make d s = (Inr g, s1)" and "destroy_image g s1 = (r, s2)"
  shows "holds own (history s2) \<and> r = Inr (destroyed g)"
  using wps_value [OF make_books [OF assms(1,2)] assms(3)] assms(4)
  by (auto simp: destroy_image_run holds_destroy_events)

lemma make_failed:
  assumes "nonnull_handles d" "holds own (history s)" and "make d s = (Inl e, s1)"
  shows "\<exists>K. lost_image K \<and> holds (own + K) (history s1)"
  by (rule wps_faultD [OF make_books [OF assms(1,2)] assms(3)])

end

lemma destroy_destroyed: "destroy_image (destroyed g) s = (Inr (destroyed g), s)"
  by (auto simp: destroy_image_run destroy_events_def destroyed_def)

text \<open>Whatever happens behind the creation of the image, a failure leaves the image.\<close>

lemma wps_back_image:
  assumes "holds (add_mset (KImage, img) own) (history s)" and "img \<noteq> 0" and "nonnull_handles d"
    and "\<And>g s'. holds (own + image_ledger g) (history s') \<Longrightarrow> Q g s'"
    and "\<And>e s' K. fst ` set_mset K \<subseteq> {KMemory} \<Longrightarrow> holds (add_mset (KImage, img) own + K) (history s') \<Longrightarrow> E e s'"
  shows "wps (back_image p d mem_props src ext fmt img) Q E s"
proof -
  have lose: "E e s'" if "holds (add_mset (KImage, img) own) (history s')" for e s'
    by (rule assms(5) [of "{#}"]) (use that in simp_all)
  have lose_memory: "E e (s\<lparr>history := evs @ ECreate (MemoryInfo mi) (Inr m) # h\<rparr>)"
    if "holds (add_mset (KImage, img) own) h" "\<forall>ev\<in>set evs. gained ev = {#} \<and> lost ev = {#}" for e evs mi m h
  proof (rule assms(5) [of "{#(KMemory, m)#}"])
    have "holds (add_mset (KMemory, m) (add_mset (KImage, img) own)) (evs @ ECreate (MemoryInfo mi) (Inr m) # h)"
      using that(2) by (induction evs) (use that(1) in simp_all)
    then show "holds (add_mset (KImage, img) own + {#(KMemory, m)#})
        (history (s\<lparr>history := evs @ ECreate (MemoryInfo mi) (Inr m) # h\<rparr>))" by simp
  qed simp
  note memory = lose_memory [where evs = "[_]", simplified] lose_memory [where evs = "[_, _]", simplified]
  have view: "Q g (s\<lparr>history := ECreate (ImageViewInfo img fmt) (Inr v) # EBind img m b # ECreate (MemoryInfo mi) (Inr m) # h\<rparr>)"
    if "holds (add_mset (KImage, img) own) h" "d_create d h' (ImageViewInfo img fmt) = Inr v"
      "g = \<lparr>gi_image = img, gi_memory = Some m, gi_view = v, gi_extent = ext, gi_format = fmt,
        gi_owns_memory = True\<rparr>" for g v b mi m h h'
  proof (rule assms(4))
    have "v \<noteq> 0" using that(2) nonnullD [OF assms(3)] by auto
    then have sum: "own + image_ledger g
        = add_mset (KImageView, v) (add_mset (KMemory, m) (add_mset (KImage, img) own))"
      using that(3) assms(2) by (simp add: image_ledger_def add_mset_commute)
    have "holds (add_mset (KImageView, v) (add_mset (KMemory, m) (add_mset (KImage, img) own)))
        (ECreate (ImageViewInfo img fmt) (Inr v) # EBind img m b # ECreate (MemoryInfo mi) (Inr m) # h)"
      unfolding holds_def using that(1) [unfolded holds_def] by simp
    then show "holds (own + image_ledger g) (history (s\<lparr>history := ECreate (ImageViewInfo img fmt) (Inr v) #
        EBind img m b # ECreate (MemoryInfo mi) (Inr m) # h\<rparr>))" unfolding sum by simp
  qed
  show ?thesis
    unfolding back_image_def bind_memory_def make_view_def
    using assms(1)
    by (auto split: sum.split prod.split intro!: wps_create wps_vk_call)
      (auto intro: memory view lose)
qed

lemma backed_image_books:
  assumes "nonnull_handles d" and "holds own (history s)"
  shows "wps (sbind (qmark ResVk (create d (ImageInfo ii))) (back_image p d mem_props src ext fmt))
    (\<lambda>g s'. holds (own + image_ledger g) (history s')) (\<lambda>e s'. \<exists>K. lost_image K \<and> holds (own + K) (history s')) s"
proof -
  have lost: "\<exists>K'. lost_image K' \<and> holds (own + K') h"
    if "fst ` set_mset K \<subseteq> {KMemory}" "holds (add_mset (KImage, img) own + K) h" for K img h
    using that by (intro exI [of _ "add_mset (KImage, img) K"]) (auto simp: lost_image_def)
  show ?thesis
    using assms nonnullD [OF assms(1)]
    by (auto intro!: wps_create wps_back_image [where own = own] intro: exI [of _ "{#}"] lost
        simp del: union_mset_add_mset_left)
qed

interpretation color_attachment: image_source
  "\<lambda>d. create_color_attachment p d mem_props ext fmt usage" for p mem_props ext fmt usage
  by unfold_locales (simp add: create_color_attachment_def backed_image_books del: wps_sbind)

interpretation fd_image: image_source "\<lambda>d. import_opaque_fd p d mem_props fd ext fmt" for p mem_props fd ext fmt
  by unfold_locales (simp add: import_opaque_fd_def backed_image_books del: wps_sbind)

text \<open>The reference to the IOSurface is given back on every path behind the lookup.\<close>

lemma mach_port_books:
  assumes "nonnull_handles d" and "holds own (history s)"
  shows "wps (import_from_mach_port d io port fmt usage) (\<lambda>g s'. holds (own + image_ledger g) (history s'))
    (\<lambda>e s'. holds own (history s') \<or> (\<exists>img. holds (own + {#(KImage, img)#}) (history s'))) s"
  unfolding import_from_mach_port_def make_view_def holds_def
  using assms(2) [unfolded holds_def]
  by (auto simp: Let_def add_mset_commute image_ledger_def nonnullD [OF assms(1)] opt_handle_def
      intro!: wps_create split: sum.split)

interpretation iosurface_image: image_source "\<lambda>d. import_from_mach_port d io port fmt usage" for io port fmt usage
proof
  fix d own and s :: vk_world
  assume drv: "nonnull_handles d" and own: "holds own (history s)"
  have "holds (own + {#(KImage, img)#}) h \<Longrightarrow> \<exists>K. lost_image K \<and> holds (own + K) h"
    "holds own h \<Longrightarrow> \<exists>K. lost_image K \<and> holds (own + K) h" for img h
    by (rule exI [of _ "{#(KImage, img)#}"], simp) (rule exI [of _ "{#}"], simp)
  then show "wps (import_from_mach_port d io port fmt usage) (\<lambda>g s'. holds (own + image_ledger g) (history s'))
      (\<lambda>e s'. \<exists>K. lost_image K \<and> holds (own + K) (history s')) s"
    by (intro wps_mono [OF mach_port_books [OF drv own]]) blast+
qed

section \<open>Properties\<close>

text \<open>
  C18: An image, made or imported in any of the three ways, gives back everything it took when it is
  destroyed, and destroying it again does nothing.
\<close>

theorem image_lifetime:
  assumes "nonnull_handles d" "holds own (history s)"
    and "source \<in> {create_color_attachment p d mem_props ext fmt usage, import_opaque_fd p d mem_props fd ext fmt,
      import_from_mach_port d io port fmt usage}"
    and "source s = (Inr g, s1)" and "destroy_image g s1 = (r, s2)"
  shows "holds own (history s2) \<and> (\<exists>g'. r = Inr g' \<and> destroy_image g' s2 = (Inr g', s2))"
proof -
  from assms(3) have "holds own (history s2) \<and> r = Inr (destroyed g)"
    using color_attachment.make_destroy [OF assms(1,2) _ assms(5)] assms(4)
      fd_image.make_destroy [OF assms(1,2) _ assms(5)] iosurface_image.make_destroy [OF assms(1,2) _ assms(5)]
    by blast
  then show ?thesis using destroy_destroyed by blast
qed

definition demo_memory :: memory_properties where
  "demo_memory = \<lparr>memory_type_count = 3, memory_types = [2, 6, 1] @ replicate 29 0\<rparr>"

definition demo_extent :: extent2d where
  "demo_extent = \<lparr>ewidth = 64, eheight = 32\<rparr>"

lemmas image_eval = create_color_attachment_def import_opaque_fd_def import_from_mach_port_def back_image_def
  make_view_def bind_memory_def find_memory_type_def contains_flags_def rust_shl_def DEVICE_LOCAL_def
  demo_memory_def demo_extent_def

theorem image_lifetime_witness:
  "\<exists>g s1 r s2. create_color_attachment Dev steady_driver demo_memory demo_extent B8G8R8A8_UNORM {COLOR_ATTACHMENT}
     \<lparr>history = []\<rparr> = (Inr g, s1) \<and> destroy_image g s1 = (Inr r, s2) \<and> holds {#} (history s2)"
proof -
  let ?make = "create_color_attachment Dev steady_driver demo_memory demo_extent B8G8R8A8_UNORM {COLOR_ATTACHMENT}"
  have "\<exists>g. fst (?make \<lparr>history = []\<rparr>) = Inr g"
    by (simp add: context_eval image_eval cong: sbind_weak_cong)
  then obtain g s1 where make: "?make \<lparr>history = []\<rparr> = (Inr g, s1)" by (metis prod.collapse)
  have start: "holds {#} (history \<lparr>history = []\<rparr>)" by (simp add: holds_def)
  obtain r s2 where destroy: "destroy_image g s1 = (r, s2)" by force
  have "?make \<in> {?make, import_opaque_fd Dev steady_driver demo_memory 3 demo_extent B8G8R8A8_UNORM,
      import_from_mach_port steady_driver \<lparr>io_lookup = \<lambda>_. 0, io_width = id, io_height = id\<rparr> 0
      B8G8R8A8_UNORM {COLOR_ATTACHMENT}}"
    by simp
  from image_lifetime [OF steady_conforms(1) start this make destroy] make destroy show ?thesis by blast
qed

text \<open>
  C38: A failure after the image has been created (no memory type, no memory, the binding, the view)
  leaves the image, and the memory if there was any: nobody holds their handles.
\<close>

theorem image_failure_leaks:
  assumes "nonnull_handles d" "holds own (history s)"
    and "d_create d (history s) (ImageInfo \<lparr>ii_next = NoImport, ii_format = fmt, ii_extent = ext, ii_usage = usage\<rparr>)
      = Inr img"
    and "create_color_attachment p d mem_props ext fmt usage s = (Inl e, s')"
  shows "\<exists>K. holds (own + {#(KImage, img)#} + K) (history s') \<and> fst ` set_mset K \<subseteq> {KMemory}"
proof -
  let ?ii = "\<lparr>ii_next = NoImport, ii_format = fmt, ii_extent = ext, ii_usage = usage\<rparr>"
  let ?s = "record_event (ECreate (ImageInfo ?ii) (Inr img)) s"
  have run: "back_image p d mem_props NoImport ext fmt img ?s = (Inl e, s')"
    using assms(3,4) by (simp add: create_color_attachment_def sbind_def qmark_def create_def vk_call_def)
  have "img \<noteq> 0" using assms(1,3) by (auto dest: nonnullD)
  then have "wps (back_image p d mem_props NoImport ext fmt img) (\<lambda>_ _. True)
      (\<lambda>e s'. \<exists>K. holds (own + {#(KImage, img)#} + K) (history s') \<and> fst ` set_mset K \<subseteq> {KMemory}) ?s"
    using assms(1,2) by (intro wps_back_image [where own = own]) auto
  from wps_faultD [OF this run] show ?thesis .
qed

definition no_local_memory :: memory_properties where
  "no_local_memory = \<lparr>memory_type_count = 2, memory_types = [2, 6] @ replicate 30 0\<rparr>"

theorem image_failure_leaks_witness:
  "\<exists>s' K. create_color_attachment Dev steady_driver no_local_memory demo_extent B8G8R8A8_UNORM {COLOR_ATTACHMENT}
     \<lparr>history = []\<rparr> = (Inl (Error (NoMemoryType 5 DEVICE_LOCAL)), s') \<and> holds ({#(KImage, 1)#} + K) (history s')"
proof -
  let ?make = "create_color_attachment Dev steady_driver no_local_memory demo_extent B8G8R8A8_UNORM {COLOR_ATTACHMENT}"
  have "fst (?make \<lparr>history = []\<rparr>) = Inl (Error (NoMemoryType 5 DEVICE_LOCAL))"
    by (simp add: context_eval image_eval no_local_memory_def cong: sbind_weak_cong)
  then obtain s' where make: "?make \<lparr>history = []\<rparr> = (Inl (Error (NoMemoryType 5 DEVICE_LOCAL)), s')"
    by (metis prod.collapse)
  have start: "holds {#} (history \<lparr>history = []\<rparr>)" by (simp add: holds_def)
  have "d_create steady_driver (history \<lparr>history = []\<rparr>) ci = Inr 1" for ci
    by (simp add: steady_driver_def demo_driver_def)
  from image_failure_leaks [OF steady_conforms(1) start this make] make show ?thesis by auto
qed

text \<open>
  \<^verbatim>\<open>find_memory_type\<close> returns the first of the counted memory types that the resource
  allows and that has all the properties asked for, and an error exactly when there is none.
\<close>

theorem find_memory_type_first:
  assumes "length (memory_types mem_props) = 32" and "unat (memory_type_count mem_props) \<le> 32"
  shows "find_memory_type p mem_props type_bits properties =
    (case find (fits mem_props type_bits properties) [0..<unat (memory_type_count mem_props)] of
       Some i \<Rightarrow> Inr (of_nat i)
     | None \<Rightarrow> Inl (Error (NoMemoryType type_bits properties)))"
  unfolding find_memory_type_def by (rule find_type_spec) (use assms in auto)

theorem find_memory_type_first_witness: "find_memory_type Dev demo_memory 5 DEVICE_LOCAL = Inr 2"
proof -
  have "length (memory_types demo_memory) = 32" "unat (memory_type_count demo_memory) \<le> 32"
    by (simp_all add: demo_memory_def)
  note found = find_memory_type_first [OF this, of Dev 5 DEVICE_LOCAL]
  have "find (fits demo_memory 5 DEVICE_LOCAL) [0..<unat (memory_type_count demo_memory)] = Some 2"
    by code_simp
  with found show ?thesis by simp
qed

end
