(* ===== verification/DeviceSelect.thy ===== *)
theory DeviceSelect
  imports AirTags DemoDriver
begin

text \<open>
  \<^verbatim>\<open>src/vulkan_backend/mod.rs\<close>: the queue families of a physical device, its score, the choice among
  the devices, and the creation of the logical device and the shared device; and the drop of the shared
  device (\<^verbatim>\<open>state_machine.rs\<close>). What the loader says of the physical devices is the record
  \<open>instance_api\<close>, a parameter. The log messages are left out. The score is an integer; the
  bounds below show that it fits the \<^verbatim>\<open>i64\<close> of the code.
\<close>

section \<open>Structures\<close>

datatype device_selection_error = DsVk vk_result | NoDevices | NoSuitableDevice

datatype device_type = DISCRETE_GPU | INTEGRATED_GPU | VIRTUAL_GPU | CPU | OtherDevice int

record device_properties =
  dp_name :: "u8 list"
  dp_type :: device_type
  dp_max_image_dimension2_d :: u32

record device_features =
  df_sampler_anisotropy :: u32
  df_shader_storage_image_extended_formats :: u32
  df_geometry_shader :: u32
  df_tessellation_shader :: u32

record memory_heap =
  mh_size :: u64
  mh_flags :: u32

record memory_heaps =
  mh_count :: u32
  mh_heaps :: "memory_heap list"

record instance_api =
  i_physical_devices :: "handle list vkr"
  i_properties :: "handle \<Rightarrow> device_properties"
  i_features :: "handle \<Rightarrow> device_features"
  i_memory_heaps :: "handle \<Rightarrow> memory_heaps"
  i_extensions :: "handle \<Rightarrow> u8 list list vkr"
  i_queue_flags :: "handle \<Rightarrow> u32 list"
  i_surface_support :: "handle \<Rightarrow> u32 \<Rightarrow> handle \<Rightarrow> bool vkr"
  i_device_queue :: "handle \<Rightarrow> u32 \<Rightarrow> u32 \<Rightarrow> handle"

definition EXT_SWAPCHAIN :: string where "EXT_SWAPCHAIN = ''VK_KHR_swapchain''"
definition EXT_EXTERNAL_MEMORY :: string where "EXT_EXTERNAL_MEMORY = ''VK_KHR_external_memory''"
definition EXT_EXTERNAL_MEMORY_FD :: string where "EXT_EXTERNAL_MEMORY_FD = ''VK_KHR_external_memory_fd''"
definition EXT_EXTERNAL_MEMORY_HOST :: string where "EXT_EXTERNAL_MEMORY_HOST = ''VK_EXT_external_memory_host''"
definition EXT_METAL_OBJECTS :: string where "EXT_METAL_OBJECTS = ''VK_EXT_metal_objects''"

definition REQUIRED_DEVICE_EXTENSIONS :: "string list" where
  "REQUIRED_DEVICE_EXTENSIONS = [EXT_SWAPCHAIN]"

definition PREFERRED_DEVICE_EXTENSIONS :: "string list" where
  "PREFERRED_DEVICE_EXTENSIONS =
     [EXT_EXTERNAL_MEMORY, EXT_EXTERNAL_MEMORY_FD, EXT_EXTERNAL_MEMORY_HOST, EXT_METAL_OBJECTS]"

record queue_family_indices =
  q_graphics :: u32
  q_transfer :: u32
  q_graphics_supports_present :: bool

record candidate =
  c_physical_device :: handle
  c_score :: int
  c_name :: "u8 list"
  c_queues :: queue_family_indices
  c_extensions :: "u8 list set"

section \<open>What is asked of a device\<close>

text \<open>The bytes of a C string up to its end, decoded with replacement characters.\<close>

definition cstr_to_string :: "u8 list \<Rightarrow> u8 list" where
  "cstr_to_string raw = from_utf8_lossy (takeWhile (\<lambda>b. b \<noteq> 0) raw)"

definition device_name :: "instance_api \<Rightarrow> handle \<Rightarrow> u8 list" where
  "device_name inst pdevice = cstr_to_string (dp_name (i_properties inst pdevice))"

definition enumerate_device_extensions :: "instance_api \<Rightarrow> handle \<Rightarrow> u8 list set vkr" where
  "enumerate_device_extensions inst pdevice =
     (case i_extensions inst pdevice of
        Inl r \<Rightarrow> Inl r
      | Inr props \<Rightarrow> Inr (set (map cstr_to_string props)))"

definition QUEUE_GRAPHICS :: u32 where "QUEUE_GRAPHICS = 1"
definition QUEUE_COMPUTE :: u32 where "QUEUE_COMPUTE = 2"
definition QUEUE_TRANSFER :: u32 where "QUEUE_TRANSFER = 4"
definition HEAP_DEVICE_LOCAL :: u32 where "HEAP_DEVICE_LOCAL = 1"

definition supports_present :: "instance_api \<Rightarrow> handle \<Rightarrow> handle option \<Rightarrow> u32 \<Rightarrow> bool" where
  "supports_present inst pdevice surf idx =
     (case surf of
        Some s \<Rightarrow> (case i_surface_support inst pdevice idx s of Inr b \<Rightarrow> b | Inl _ \<Rightarrow> False)
      | None \<Rightarrow> True)"

text \<open>One queue family: the best graphics family so far and the dedicated transfer family.\<close>

definition pick_step :: "instance_api \<Rightarrow> handle \<Rightarrow> handle option \<Rightarrow> (u32 \<times> bool) option \<times> u32 option \<Rightarrow> nat \<times> u32
    \<Rightarrow> (u32 \<times> bool) option \<times> u32 option" where
  "pick_step inst pdevice surf = (\<lambda>(best_graphics, dedicated_transfer) (i, flags).
     let idx = of_nat i;
         has_graphics = contains_flags flags QUEUE_GRAPHICS;
         has_compute = contains_flags flags QUEUE_COMPUTE;
         has_transfer = contains_flags flags QUEUE_TRANSFER;
         best_graphics =
           (if has_graphics then
              let present = supports_present inst pdevice surf idx;
                  is_better = (case best_graphics of None \<Rightarrow> True | Some (_, prev_present) \<Rightarrow> present \<and> \<not> prev_present)
              in if is_better then Some (idx, present) else best_graphics
            else best_graphics);
         dedicated_transfer =
           (if has_transfer \<and> \<not> has_graphics \<and> \<not> has_compute \<and> dedicated_transfer = None then Some idx
            else dedicated_transfer)
     in (best_graphics, dedicated_transfer))"

definition pick_queue_families :: "instance_api \<Rightarrow> handle \<Rightarrow> handle option \<Rightarrow> queue_family_indices option" where
  "pick_queue_families inst pdevice surf =
     (case foldl (pick_step inst pdevice surf) (None, None) (enumerate 0 (i_queue_flags inst pdevice)) of
        (None, _) \<Rightarrow> None
      | (Some (graphics, present), dedicated_transfer) \<Rightarrow>
          Some \<lparr>q_graphics = graphics,
                q_transfer = (case dedicated_transfer of Some t \<Rightarrow> t | None \<Rightarrow> graphics),
                q_graphics_supports_present = present\<rparr>)"

definition device_local_bytes :: "profile \<Rightarrow> memory_heaps \<Rightarrow> (device_selection_error, u64) outcome" where
  "device_local_bytes p mem_props =
     foldM (\<lambda>h sum. rust_add p sum (mh_size h))
       (filter (\<lambda>h. contains_flags (mh_flags h) HEAP_DEVICE_LOCAL) (take (unat (mh_count mem_props)) (mh_heaps mem_props))) 0"

definition score_candidate :: "profile \<Rightarrow> instance_api \<Rightarrow> handle \<Rightarrow> u8 list set
    \<Rightarrow> (device_selection_error, int) outcome" where
  "score_candidate p inst pdevice extensions =
     (let props = i_properties inst pdevice; features = i_features inst pdevice
      in bnd (device_local_bytes p (i_memory_heaps inst pdevice)) (\<lambda>bytes.
      let score = (case dp_type props of
            DISCRETE_GPU \<Rightarrow> 100000 | INTEGRATED_GPU \<Rightarrow> 10000 | VIRTUAL_GPU \<Rightarrow> 1000 | CPU \<Rightarrow> 100 | _ \<Rightarrow> 0);
          score = score + uint bytes div (64 * 1024 * 1024);
          score = score + uint (dp_max_image_dimension2_d props) div 64;
          score = (if df_sampler_anisotropy features = 1 then score + 500 else score);
          score = (if df_shader_storage_image_extended_formats features = 1 then score + 200 else score);
          score = (if df_geometry_shader features = 1 then score + 100 else score);
          score = (if df_tessellation_shader features = 1 then score + 100 else score);
          score = foldl (\<lambda>score ext. if ascii ext \<in> extensions then score + 1500 else score) score
            PREFERRED_DEVICE_EXTENSIONS
      in Inr score))"

section \<open>The choice\<close>

text \<open>The body of the loop of \<^verbatim>\<open>select_physical_device\<close>; \<open>None\<close> where it continues.\<close>

definition examine :: "profile \<Rightarrow> instance_api \<Rightarrow> handle option \<Rightarrow> handle
    \<Rightarrow> (device_selection_error, candidate option) outcome" where
  "examine p inst surf pdevice =
     (case enumerate_device_extensions inst pdevice of
        Inl _ \<Rightarrow> Inr None
      | Inr extensions \<Rightarrow>
          if list_ex (\<lambda>req. ascii req \<notin> extensions) REQUIRED_DEVICE_EXTENSIONS then Inr None
          else (case pick_queue_families inst pdevice surf of
             None \<Rightarrow> Inr None
           | Some queues \<Rightarrow>
               if surf \<noteq> None \<and> \<not> q_graphics_supports_present queues then Inr None
               else bnd (score_candidate p inst pdevice extensions) (\<lambda>score.
                 Inr (Some \<lparr>c_physical_device = pdevice, c_score = score, c_name = device_name inst pdevice,
                   c_queues = queues, c_extensions = extensions\<rparr>))))"

text \<open>\<^verbatim>\<open>Iterator::max_by_key\<close>: the last of the greatest.\<close>

definition max_by_key :: "('a \<Rightarrow> int) \<Rightarrow> 'a list \<Rightarrow> 'a option" where
  "max_by_key f xs =
     (case xs of [] \<Rightarrow> None | x # xs \<Rightarrow> Some (foldl (\<lambda>best y. if f best \<le> f y then y else best) x xs))"

definition select_physical_device :: "profile \<Rightarrow> instance_api \<Rightarrow> handle option
    \<Rightarrow> (device_selection_error, handle \<times> queue_family_indices \<times> u8 list set \<times> u8 list) outcome" where
  "select_physical_device p inst surf =
     (case i_physical_devices inst of
        Inl r \<Rightarrow> Inl (Error (DsVk r))
      | Inr pdevices \<Rightarrow>
          if pdevices = [] then Inl (Error NoDevices)
          else bnd (foldM (\<lambda>pdevice candidates.
                 bnd (examine p inst surf pdevice) (\<lambda>found.
                 Inr (case found of Some c \<Rightarrow> candidates @ [c] | None \<Rightarrow> candidates))) pdevices []) (\<lambda>candidates.
               case max_by_key c_score candidates of
                 Some c \<Rightarrow> Inr (c_physical_device c, c_queues c, c_extensions c, c_name c)
               | None \<Rightarrow> Inl (Error NoSuitableDevice)))"

section \<open>The logical device and the shared device\<close>

type_synonym 'a dev = "(vk_world, device_selection_error, 'a) smonad"

definition create_logical_device :: "instance_api \<Rightarrow> driver \<Rightarrow> handle \<Rightarrow> queue_family_indices \<Rightarrow> u8 list set
    \<Rightarrow> (handle \<times> handle \<times> handle) dev" where
  "create_logical_device inst d pdevice queues available_extensions =
     (let families = [q_graphics queues] @
            (if q_transfer queues \<noteq> q_graphics queues then [q_transfer queues] else []);
          enabled_extensions = REQUIRED_DEVICE_EXTENSIONS @
            filter (\<lambda>ext. ascii ext \<in> available_extensions) PREFERRED_DEVICE_EXTENSIONS;
          supported = i_features inst pdevice;
          features = (df_sampler_anisotropy supported = 1, df_shader_storage_image_extended_formats supported = 1)
      in sbind (qmark DsVk (create d (DeviceInfo pdevice families enabled_extensions features))) (\<lambda>device.
         sret (device, i_device_queue inst device (q_graphics queues) 0,
           i_device_queue inst device (q_transfer queues) 0)))"

definition build_shared_device :: "profile \<Rightarrow> instance_api \<Rightarrow> driver \<Rightarrow> handle \<Rightarrow> handle option \<Rightarrow> shared_device dev" where
  "build_shared_device p inst d instance_handle presentation_surface =
     sbind (slift (select_physical_device p inst presentation_surface)) (\<lambda>(pdevice, queues, available_extensions, name).
     sbind (create_logical_device inst d pdevice queues available_extensions) (\<lambda>(device, graphics_queue, transfer_queue).
     sbind (qmark DsVk (create d (CommandPoolInfo True (q_graphics queues)))) (\<lambda>command_pool.
     sret \<lparr>sd_instance = instance_handle, sd_physical_device = pdevice, sd_device = device,
       sd_graphics_queue = graphics_queue, sd_graphics_queue_family = q_graphics queues,
       sd_transfer_queue = transfer_queue, sd_transfer_queue_family = q_transfer queues,
       sd_command_pool = command_pool\<rparr>)))"

text \<open>\<^verbatim>\<open>Drop for SharedDevice\<close>, when the last \<^verbatim>\<open>Arc\<close> goes.\<close>

definition drop_shared :: "driver \<Rightarrow> shared_device \<Rightarrow> unit dev" where
  "drop_shared d sd =
     sbind (attempt (wait_idle d)) (\<lambda>_ :: unit vkr.
     sbind (vk_do (EDestroy KCommandPool (sd_command_pool sd))) (\<lambda>_.
     sbind (vk_do (EDestroy KDevice (sd_device sd))) (\<lambda>_.
     vk_do (EDestroy KInstance (sd_instance sd)))))"

section \<open>Queue families\<close>

text \<open>The families by index: with graphics, with graphics that can present, for transfers only.\<close>

definition graphics_at :: "u32 list \<Rightarrow> nat \<Rightarrow> bool" where
  "graphics_at flags i \<longleftrightarrow> contains_flags (flags ! i) QUEUE_GRAPHICS"

definition presents_at :: "instance_api \<Rightarrow> handle \<Rightarrow> handle option \<Rightarrow> u32 list \<Rightarrow> nat \<Rightarrow> bool" where
  "presents_at inst pdevice surf flags i \<longleftrightarrow>
     graphics_at flags i \<and> supports_present inst pdevice surf (of_nat i)"

definition dedicated_at :: "u32 list \<Rightarrow> nat \<Rightarrow> bool" where
  "dedicated_at flags i \<longleftrightarrow> contains_flags (flags ! i) QUEUE_TRANSFER \<and>
     \<not> contains_flags (flags ! i) QUEUE_GRAPHICS \<and> \<not> contains_flags (flags ! i) QUEUE_COMPUTE"

lemma find_append: "find P (xs @ ys) = (case find P xs of Some x \<Rightarrow> Some x | None \<Rightarrow> find P ys)"
  by (induction xs) simp_all

lemma find_upto_append:
  assumes "\<And>i. i < length xs \<Longrightarrow> P (xs @ [x]) i = P xs i"
  shows "find (P (xs @ [x])) [0..<Suc (length xs)] =
    (case find (P xs) [0..<length xs] of Some i \<Rightarrow> Some i
     | None \<Rightarrow> if P (xs @ [x]) (length xs) then Some (length xs) else None)"
proof -
  have "find (P (xs @ [x])) [0..<length xs] = find (P xs) [0..<length xs]"
    by (rule find_cong) (simp_all add: assms)
  then show ?thesis by (simp add: find_append split: option.split)
qed

lemma at_append [simp]:
  "i < length xs \<Longrightarrow> graphics_at (xs @ [x]) i = graphics_at xs i"
  "i < length xs \<Longrightarrow> presents_at inst pdevice surf (xs @ [x]) i = presents_at inst pdevice surf xs i"
  "i < length xs \<Longrightarrow> dedicated_at (xs @ [x]) i = dedicated_at xs i"
  by (simp_all add: graphics_at_def presents_at_def dedicated_at_def nth_append)

lemma at_last:
  "graphics_at (xs @ [x]) (length xs) \<longleftrightarrow> contains_flags x QUEUE_GRAPHICS"
  "presents_at inst pdevice surf (xs @ [x]) (length xs) \<longleftrightarrow>
     contains_flags x QUEUE_GRAPHICS \<and> supports_present inst pdevice surf (of_nat (length xs))"
  "dedicated_at (xs @ [x]) (length xs) \<longleftrightarrow> contains_flags x QUEUE_TRANSFER \<and>
     \<not> contains_flags x QUEUE_GRAPHICS \<and> \<not> contains_flags x QUEUE_COMPUTE"
  by (simp_all add: graphics_at_def presents_at_def dedicated_at_def)

lemma pick_fold:
  "foldl (pick_step inst pdevice surf) (None, None) (enumerate 0 flags) =
    ((case find (presents_at inst pdevice surf flags) [0..<length flags] of
        Some i \<Rightarrow> Some (of_nat i, True)
      | None \<Rightarrow> map_option (\<lambda>i. (of_nat i, False)) (find (graphics_at flags) [0..<length flags])),
     map_option of_nat (find (dedicated_at flags) [0..<length flags]))"
proof (induction flags rule: rev_induct)
  case (snoc x xs)
  let ?f = "xs @ [x]"
  have "enumerate 0 ?f = enumerate 0 xs @ [(length xs, x)]"
    by (simp add: enumerate_append_eq)
  then have "foldl (pick_step inst pdevice surf) (None, None) (enumerate 0 ?f) =
      pick_step inst pdevice surf (foldl (pick_step inst pdevice surf) (None, None) (enumerate 0 xs)) (length xs, x)"
    by simp
  also note snoc.IH
  finally have step: "foldl (pick_step inst pdevice surf) (None, None) (enumerate 0 ?f) =
    pick_step inst pdevice surf
      (case find (presents_at inst pdevice surf xs) [0..<length xs] of
         Some i \<Rightarrow> Some (of_nat i, True)
       | None \<Rightarrow> map_option (\<lambda>i. (of_nat i, False)) (find (graphics_at xs) [0..<length xs]),
       map_option of_nat (find (dedicated_at xs) [0..<length xs])) (length xs, x)" .
  have last:
    "find (presents_at inst pdevice surf ?f) [0..<length ?f] =
      (case find (presents_at inst pdevice surf xs) [0..<length xs] of Some i \<Rightarrow> Some i
       | None \<Rightarrow> if presents_at inst pdevice surf ?f (length xs) then Some (length xs) else None)"
    "find (graphics_at ?f) [0..<length ?f] =
      (case find (graphics_at xs) [0..<length xs] of Some i \<Rightarrow> Some i
       | None \<Rightarrow> if graphics_at ?f (length xs) then Some (length xs) else None)"
    "find (dedicated_at ?f) [0..<length ?f] =
      (case find (dedicated_at xs) [0..<length xs] of Some i \<Rightarrow> Some i
       | None \<Rightarrow> if dedicated_at ?f (length xs) then Some (length xs) else None)"
    by (simp_all only: length_append_singleton, (rule find_upto_append, simp)+)
  show ?case
    unfolding step last at_last
    by (auto simp: pick_step_def Let_def split: option.split)
qed simp

section \<open>Scores\<close>

lemma foldl_bonus:
  "foldl (\<lambda>score ext. score + (if Q ext then 1500 else 0)) (s :: int) xs = s + 1500 * int (length (filter Q xs))"
  by (induction xs arbitrary: s) simp_all

lemma if_bonus: "(if b then (s :: int) + k else s) = s + (if b then k else 0)"
  by simp

lemma score_value:
  assumes "score_candidate p inst pdevice exts = Inr score"
  shows "\<exists>bytes :: u64. score =
    (case dp_type (i_properties inst pdevice) of
       DISCRETE_GPU \<Rightarrow> 100000 | INTEGRATED_GPU \<Rightarrow> 10000 | VIRTUAL_GPU \<Rightarrow> 1000 | CPU \<Rightarrow> 100 | _ \<Rightarrow> 0)
    + uint bytes div (64 * 1024 * 1024) + uint (dp_max_image_dimension2_d (i_properties inst pdevice)) div 64
    + (if df_sampler_anisotropy (i_features inst pdevice) = 1 then 500 else 0)
    + (if df_shader_storage_image_extended_formats (i_features inst pdevice) = 1 then 200 else 0)
    + (if df_geometry_shader (i_features inst pdevice) = 1 then 100 else 0)
    + (if df_tessellation_shader (i_features inst pdevice) = 1 then 100 else 0)
    + 1500 * int (length (filter (\<lambda>ext. ascii ext \<in> exts) PREFERRED_DEVICE_EXTENSIONS))"
  using assms
  unfolding score_candidate_def Let_def if_bonus foldl_bonus bnd_Inr_iff by blast

lemma score_range:
  assumes "score_candidate p inst pdevice exts = Inr score"
  shows "0 \<le> score \<and> score < 2 ^ 62"
proof -
  from score_value [OF assms] obtain bytes :: u64 and dim :: u32 and ty b1 b2 b3 b4 n :: int where
    score: "score = ty + uint bytes div (64 * 1024 * 1024) + uint dim div 64 + b1 + b2 + b3 + b4 + 1500 * n"
    and "0 \<le> ty \<and> ty \<le> 100000" "0 \<le> b1 \<and> b1 \<le> 500" "0 \<le> b2 \<and> b2 \<le> 200" "0 \<le> b3 \<and> b3 \<le> 100"
      "0 \<le> b4 \<and> b4 \<le> 100" "0 \<le> n \<and> n \<le> 4"
  proof (elim exE, goal_cases)
    case (1 bytes)
    have "length (filter (\<lambda>ext. ascii ext \<in> exts) PREFERRED_DEVICE_EXTENSIONS) \<le> 4"
      by (rule order_trans [OF length_filter_le]) (simp add: PREFERRED_DEVICE_EXTENSIONS_def)
    then show ?case by (intro 1(1) [OF 1(2)]) (simp_all split: device_type.split)
  qed
  moreover have "0 \<le> x div k \<and> x div k \<le> x" if "0 \<le> x" "1 \<le> k" for x k :: int
    using that zdiv_mono2 [of x 1 k] by (simp add: pos_imp_zdiv_nonneg_iff)
  then have "0 \<le> uint bytes div (64 * 1024 * 1024) \<and> uint bytes div (64 * 1024 * 1024) \<le> 2 ^ 38"
    "0 \<le> uint dim div 64 \<and> uint dim div 64 \<le> uint dim"
    using uint_lt2p [of bytes] by (simp_all add: pos_imp_zdiv_nonneg_iff)
  moreover have "uint dim < 2 ^ 32" using uint_lt2p [of dim] by simp
  ultimately show ?thesis unfolding score by simp
qed

section \<open>The best candidate\<close>

lemma max_by_key_spec:
  assumes "max_by_key f xs = Some c"
  shows "\<exists>us vs. xs = us @ c # vs \<and> (\<forall>u\<in>set us. f u \<le> f c) \<and> (\<forall>v\<in>set vs. f v < f c)"
proof -
  have "\<exists>us vs. x # xs = us @ c # vs \<and> (\<forall>u\<in>set us. f u \<le> f c) \<and> (\<forall>v\<in>set vs. f v < f c)"
    if "c = foldl (\<lambda>best y. if f best \<le> f y then y else best) x xs" for x xs c
    using that
  proof (induction xs arbitrary: c rule: rev_induct)
    case Nil
    then show ?case by (intro exI [of _ "[]"]) simp
  next
    case (snoc y xs)
    define b where "b = foldl (\<lambda>best y. if f best \<le> f y then y else best) x xs"
    from snoc.IH [OF b_def] obtain us vs where split: "x # xs = us @ b # vs"
      "\<forall>u\<in>set us. f u \<le> f b" "\<forall>v\<in>set vs. f v < f b" by blast
    have c: "c = (if f b \<le> f y then y else b)" using snoc.prems by (simp add: b_def)
    show ?case
    proof (cases "f b \<le> f y")
      case True
      then have "x # xs @ [y] = (us @ b # vs) @ c # []" "\<forall>u\<in>set (us @ b # vs). f u \<le> f c"
        using c split by fastforce+
      then show ?thesis by (metis empty_iff empty_set)
    next
      case False
      then have "x # xs @ [y] = us @ c # (vs @ [y])" "\<forall>v\<in>set (vs @ [y]). f v < f c"
        using c split by auto
      then show ?thesis using c split False by fastforce
    qed
  qed
  then show ?thesis using assms by (cases xs) (auto simp: max_by_key_def)
qed

definition found :: "profile \<Rightarrow> instance_api \<Rightarrow> handle option \<Rightarrow> handle \<Rightarrow> candidate list" where
  "found p inst surf pdevice = (case examine p inst surf pdevice of Inr (Some c) \<Rightarrow> [c] | _ \<Rightarrow> [])"

lemma candidates_are_found:
  "foldM (\<lambda>pdevice candidates. bnd (examine p inst surf pdevice) (\<lambda>r.
     Inr (case r of Some c \<Rightarrow> candidates @ [c] | None \<Rightarrow> candidates))) pdevices cs = Inr cs' \<Longrightarrow>
   cs' = cs @ concat (map (found p inst surf) pdevices)"
proof (induction pdevices arbitrary: cs)
  case (Cons pd pds)
  then obtain r where "examine p inst surf pd = Inr r"
    "cs' = (case r of Some c \<Rightarrow> cs @ [c] | None \<Rightarrow> cs) @ concat (map (found p inst surf) pds)"
    by (auto simp: bnd_Inr_iff)
  then show ?case by (cases r) (simp_all add: found_def [of p inst surf pd])
qed simp

lemma examine_device: "examine p inst surf pdevice = Inr (Some c) \<Longrightarrow> c_physical_device c = pdevice"
  by (auto simp: examine_def bnd_Inr_iff split: sum.splits option.splits if_splits)

lemma examine_suitable:
  "examine p inst surf pdevice = Inr (Some c) \<Longrightarrow>
     ascii EXT_SWAPCHAIN \<in> c_extensions c \<and> (surf \<noteq> None \<longrightarrow> q_graphics_supports_present (c_queues c))"
  by (auto simp: examine_def REQUIRED_DEVICE_EXTENSIONS_def bnd_Inr_iff split: sum.splits option.splits if_splits)

lemma found_device: "c \<in> set (found p inst surf pdevice) \<Longrightarrow> c_physical_device c = pdevice \<and>
   examine p inst surf pdevice = Inr (Some c)"
  using examine_device by (fastforce simp: found_def split: sum.splits option.splits)

lemma concat_found_split:
  assumes "concat (map (found p inst surf) pdevices) = us @ c # vs"
  obtains before after where "pdevices = before @ c_physical_device c # after"
    "examine p inst surf (c_physical_device c) = Inr (Some c)"
    "us = concat (map (found p inst surf) before)" "vs = concat (map (found p inst surf) after)"
  using assms
proof (induction pdevices arbitrary: us thesis)
  case (Cons x xs)
  have "found p inst surf x = [] \<or> (\<exists>b. found p inst surf x = [b])"
    by (auto simp: found_def split: sum.split option.split)
  then consider (none) "found p inst surf x = []" | (one) b where "found p inst surf x = [b]" by blast
  then show ?case
  proof cases
    case none
    with Cons.prems(2) have "concat (map (found p inst surf) xs) = us @ c # vs" by simp
    from Cons.IH [OF _ this] obtain before after where "xs = before @ c_physical_device c # after"
      "examine p inst surf (c_physical_device c) = Inr (Some c)"
      "us = concat (map (found p inst surf) before)" "vs = concat (map (found p inst surf) after)" by metis
    then show ?thesis using Cons.prems(1) [of "x # before" after] none by simp
  next
    case one
    then have cat: "b # concat (map (found p inst surf) xs) = us @ c # vs" using Cons.prems(2) by simp
    have b: "c_physical_device b = x" "examine p inst surf x = Inr (Some b)"
      using found_device [of b p inst surf x] one by simp_all
    show ?thesis
    proof (cases us)
      case Nil
      then show ?thesis using cat b Cons.prems(1) [of "[]" xs] by simp
    next
      case (Cons u us')
      then have "concat (map (found p inst surf) xs) = us' @ c # vs" "u = b" using cat by simp_all
      from Cons.IH [OF _ this(1)] obtain before after where "xs = before @ c_physical_device c # after"
        "examine p inst surf (c_physical_device c) = Inr (Some c)"
        "us' = concat (map (found p inst surf) before)" "vs = concat (map (found p inst surf) after)" by metis
      then show ?thesis using Cons.prems(1) [of "x # before" after] one \<open>us = u # us'\<close> \<open>u = b\<close> by simp
    qed
  qed
qed simp

section \<open>Who owns the instance and the device\<close>

definition shared_ledger :: "shared_device \<Rightarrow> ledger" where
  "shared_ledger sd = {#(KInstance, sd_instance sd), (KDevice, sd_device sd), (KCommandPool, sd_command_pool sd)#}"

lemma wps_build_shared:
  assumes "holds (L + {#(KInstance, ih)#}) (history s)"
    and "\<And>sd s'. sd_instance sd = ih \<Longrightarrow> holds (L + shared_ledger sd) (history s') \<Longrightarrow> Q sd s'"
    and "\<And>e s' K. fst ` set_mset K \<subseteq> {KDevice} \<Longrightarrow> holds (L + {#(KInstance, ih)#} + K) (history s') \<Longrightarrow> E e s'"
  shows "wps (build_shared_device p inst d ih surf) Q E s"
proof -
  have lose: "E e s'" if "holds (add_mset (KInstance, ih) L) (history s')" for e s'
    by (rule assms(3) [of "{#}"]) (use that in simp_all)
  have lose_device: "E e (s\<lparr>history := ev # ECreate (DeviceInfo pd fams exts fs) (Inr dev) # h\<rparr>)"
    if "holds (add_mset (KInstance, ih) L) h" "gained ev = {#}" "lost ev = {#}" for e ev pd fams exts fs dev h
    by (rule assms(3) [of "{#(KDevice, dev)#}"]) (use that in simp_all)
  have made: "Q sd (s\<lparr>history := ECreate (CommandPoolInfo b f) (Inr pool) # ECreate (DeviceInfo pd fams exts fs) (Inr dev) # h\<rparr>)"
    if "holds (add_mset (KInstance, ih) L) h" "sd_instance sd = ih" "sd_device sd = dev" "sd_command_pool sd = pool"
    for sd b f pool pd fams exts fs dev h
  proof (rule assms(2))
    have sum: "L + shared_ledger sd = add_mset (KCommandPool, pool) (add_mset (KDevice, dev) (add_mset (KInstance, ih) L))"
      using that by (simp add: shared_ledger_def add_mset_commute)
    have "holds (add_mset (KCommandPool, pool) (add_mset (KDevice, dev) (add_mset (KInstance, ih) L)))
        (ECreate (CommandPoolInfo b f) (Inr pool) # ECreate (DeviceInfo pd fams exts fs) (Inr dev) # h)"
      unfolding holds_def using that(1) [unfolded holds_def] by simp
    then show "holds (L + shared_ledger sd) (history (s\<lparr>history := ECreate (CommandPoolInfo b f) (Inr pool) #
        ECreate (DeviceInfo pd fams exts fs) (Inr dev) # h\<rparr>))" unfolding sum by simp
  qed (use that in simp)
  show ?thesis
    unfolding build_shared_device_def create_logical_device_def Let_def
    using assms(1)
    by (auto split: sum.split prod.split intro!: wps_create) (auto intro: made lose_device lose)
qed

lemma drop_shared_run:
  assumes "drop_shared d sd s = (r, s')"
  shows "\<exists>w. history s' = EDestroy KInstance (sd_instance sd) # EDestroy KDevice (sd_device sd) #
    EDestroy KCommandPool (sd_command_pool sd) # EWaitIdle w # history s"
  using assms by (auto simp: drop_shared_def wait_idle_def attempt_vk_call_run run_vk_do run_sbind Let_def)

lemma drop_shared_holds:
  assumes "holds (L + shared_ledger sd) (history s)" and "drop_shared d sd s = (r, s')"
  shows "holds L (history s')"
  using assms(1) [unfolded holds_def] drop_shared_run [OF assms(2)]
  unfolding holds_def by (auto simp: shared_ledger_def add_mset_commute)

section \<open>Properties\<close>

text \<open>
  C16: The device selected is suitable (it has the swapchain extension, a graphics family, and that family
  can present when a surface was given), no suitable device has a greater score, and of those with
  the same score it is the last one enumerated.
\<close>

theorem select_best:
  assumes "i_physical_devices inst = Inr pdevices"
    and "select_physical_device p inst surf = Inr (pdevice, queues, exts, name)"
  shows "\<exists>c before after. pdevices = before @ pdevice # after \<and> examine p inst surf pdevice = Inr (Some c) \<and>
    queues = c_queues c \<and> ascii EXT_SWAPCHAIN \<in> exts \<and> (surf \<noteq> None \<longrightarrow> q_graphics_supports_present queues) \<and>
    (\<forall>pd\<in>set before. \<forall>c'. examine p inst surf pd = Inr (Some c') \<longrightarrow> c_score c' \<le> c_score c) \<and>
    (\<forall>pd\<in>set after. \<forall>c'. examine p inst surf pd = Inr (Some c') \<longrightarrow> c_score c' < c_score c)"
proof -
  from assms obtain candidates c where fold: "foldM (\<lambda>pdevice candidates. bnd (examine p inst surf pdevice) (\<lambda>r.
      Inr (case r of Some c \<Rightarrow> candidates @ [c] | None \<Rightarrow> candidates))) pdevices [] = Inr candidates"
    and best: "max_by_key c_score candidates = Some c"
    and res: "pdevice = c_physical_device c" "queues = c_queues c" "exts = c_extensions c"
    by (auto simp: select_physical_device_def bnd_Inr_iff split: if_splits option.splits)
  from candidates_are_found [OF fold] have cands: "candidates = concat (map (found p inst surf) pdevices)" by simp
  from max_by_key_spec [OF best] obtain us vs where split: "concat (map (found p inst surf) pdevices) = us @ c # vs"
    "\<forall>u\<in>set us. c_score u \<le> c_score c" "\<forall>v\<in>set vs. c_score v < c_score c" unfolding cands by blast
  from concat_found_split [OF split(1)] obtain before after where
    dev: "pdevices = before @ c_physical_device c # after" "examine p inst surf (c_physical_device c) = Inr (Some c)"
    and parts: "us = concat (map (found p inst surf) before)" "vs = concat (map (found p inst surf) after)" by metis
  have in_found: "c' \<in> set (found p inst surf pd)" if "examine p inst surf pd = Inr (Some c')" for pd c'
    using that by (simp add: found_def)
  have "c_score c' \<le> c_score c" if "pd \<in> set before" "examine p inst surf pd = Inr (Some c')" for pd c'
    using in_found [OF that(2)] that(1) split(2) parts(1) by auto
  moreover have "c_score c' < c_score c" if "pd \<in> set after" "examine p inst surf pd = Inr (Some c')" for pd c'
    using in_found [OF that(2)] that(1) split(3) parts(2) by auto
  ultimately show ?thesis
    using dev res examine_suitable [OF dev(2)] by (intro exI [of _ c] exI [of _ before] exI [of _ after]) blast
qed

text \<open>Three devices: an integrated one, a discrete one without the swapchain extension, and another integrated one.\<close>

definition demo_instance :: instance_api where
  "demo_instance =
     \<lparr>i_physical_devices = Inr [1, 2, 3],
      i_properties = (\<lambda>pd. \<lparr>dp_name = ascii ''GPU'' @ [0, 65],
        dp_type = (if pd = 2 then DISCRETE_GPU else INTEGRATED_GPU), dp_max_image_dimension2_d = 16384\<rparr>),
      i_features = (\<lambda>pd. \<lparr>df_sampler_anisotropy = 1, df_shader_storage_image_extended_formats = 0,
        df_geometry_shader = 0, df_tessellation_shader = 1\<rparr>),
      i_memory_heaps = (\<lambda>pd. \<lparr>mh_count = 1, mh_heaps = [\<lparr>mh_size = 1073741824, mh_flags = 1\<rparr>]\<rparr>),
      i_extensions = (\<lambda>pd. Inr (if pd = 2 then [] else [ascii EXT_SWAPCHAIN @ [0], ascii EXT_EXTERNAL_MEMORY @ [0]])),
      i_queue_flags = (\<lambda>pd. [4, 7, 7]),
      i_surface_support = (\<lambda>pd idx surf. Inr (idx = 2)),
      i_device_queue = (\<lambda>device family idx. device + 1)\<rparr>"

lemma demo_score:
  "score_candidate Dev demo_instance pd {ascii EXT_SWAPCHAIN, ascii EXT_EXTERNAL_MEMORY} =
     Inr (if pd = 2 then 102372 else 12372)"
proof -
  have bytes: "device_local_bytes Dev (i_memory_heaps demo_instance pd) = Inr 1073741824"
    by (simp add: device_local_bytes_def demo_instance_def contains_flags_def HEAP_DEVICE_LOCAL_def rust_add_def)
  have "filter (\<lambda>ext. ascii ext \<in> {ascii EXT_SWAPCHAIN, ascii EXT_EXTERNAL_MEMORY}) PREFERRED_DEVICE_EXTENSIONS
      = [EXT_EXTERNAL_MEMORY]" by code_simp
  then show ?thesis
    unfolding score_candidate_def Let_def if_bonus foldl_bonus bytes bnd_simps
    by (simp add: demo_instance_def)
qed

definition demo_candidate :: "handle \<Rightarrow> candidate" where
  "demo_candidate pd = \<lparr>c_physical_device = pd, c_score = 12372, c_name = ascii ''GPU'',
     c_queues = \<lparr>q_graphics = 2, q_transfer = 0, q_graphics_supports_present = True\<rparr>,
     c_extensions = {ascii EXT_SWAPCHAIN, ascii EXT_EXTERNAL_MEMORY}\<rparr>"

lemma demo_examined:
  "examine Dev demo_instance (Some 10) 1 = Inr (Some (demo_candidate 1))"
  "examine Dev demo_instance (Some 10) 2 = Inr None"
  "examine Dev demo_instance (Some 10) 3 = Inr (Some (demo_candidate 3))"
proof -
  have texts: "cstr_to_string (ascii EXT_SWAPCHAIN @ [0]) = ascii EXT_SWAPCHAIN"
    "cstr_to_string (ascii EXT_EXTERNAL_MEMORY @ [0]) = ascii EXT_EXTERNAL_MEMORY"
    "cstr_to_string (ascii ''GPU'' @ [0, 65]) = ascii ''GPU''"
    by code_simp+
  then have exts: "enumerate_device_extensions demo_instance pd
      = Inr (if pd = 2 then {} else {ascii EXT_SWAPCHAIN, ascii EXT_EXTERNAL_MEMORY})" for pd
    by (simp add: enumerate_device_extensions_def demo_instance_def)
  have name: "device_name demo_instance pd = ascii ''GPU''" for pd
    using texts(3) by (simp add: device_name_def demo_instance_def)
  have queues: "pick_queue_families demo_instance pd (Some 10)
      = Some \<lparr>q_graphics = 2, q_transfer = 0, q_graphics_supports_present = True\<rparr>" if "pd \<in> {1, 3}" for pd
    using that by (elim insertE emptyE; hypsubst; code_simp)
  show "examine Dev demo_instance (Some 10) 1 = Inr (Some (demo_candidate 1))"
    "examine Dev demo_instance (Some 10) 2 = Inr None"
    "examine Dev demo_instance (Some 10) 3 = Inr (Some (demo_candidate 3))"
    by (simp_all add: examine_def exts name queues demo_score REQUIRED_DEVICE_EXTENSIONS_def demo_candidate_def)
qed

lemma demo_selected:
  "select_physical_device Dev demo_instance (Some 10) = Inr (3, c_queues (demo_candidate 3),
     c_extensions (demo_candidate 3), c_name (demo_candidate 3))"
proof -
  have "i_physical_devices demo_instance = Inr [1, 2, 3]" by (simp add: demo_instance_def)
  then show ?thesis
    by (simp add: select_physical_device_def demo_examined max_by_key_def) (simp add: demo_candidate_def)
qed

theorem select_best_witness:
  "\<exists>c before after. [1, 2, 3] = before @ 3 # after \<and> examine Dev demo_instance (Some 10) 3 = Inr (Some c) \<and>
     (\<forall>pd\<in>set before. \<forall>c'. examine Dev demo_instance (Some 10) pd = Inr (Some c') \<longrightarrow> c_score c' \<le> c_score c)"
proof -
  have "i_physical_devices demo_instance = Inr [1, 2, 3]" by (simp add: demo_instance_def)
  from select_best [OF this demo_selected] show ?thesis by blast
qed

text \<open>
  C34: What \<^verbatim>\<open>pick_queue_families\<close> picks: the first graphics family that can present, or else
  the first graphics family; and for transfers the first family that can do nothing else, or else the graphics
  family.
\<close>

theorem pick_queue_families_spec:
  "pick_queue_families inst pdevice surf =
    (let flags = i_queue_flags inst pdevice; n = length flags;
         transfer = find (dedicated_at flags) [0..<n];
         pick = (\<lambda>i b. Some \<lparr>q_graphics = of_nat i,
           q_transfer = of_nat (case transfer of Some t \<Rightarrow> t | None \<Rightarrow> i), q_graphics_supports_present = b\<rparr>)
     in case find (presents_at inst pdevice surf flags) [0..<n] of
          Some i \<Rightarrow> pick i True
        | None \<Rightarrow> (case find (graphics_at flags) [0..<n] of Some i \<Rightarrow> pick i False | None \<Rightarrow> None))"
  unfolding pick_queue_families_def pick_fold Let_def
  by (simp split: option.split)

text \<open>
  The shared device owns the instance it was given, the logical device and the command pool, and its
  drop releases the three. When it cannot be built the instance stays, for nobody destroys it, and so does
  the logical device when it is the command pool that fails.
\<close>

theorem shared_device_books:
  assumes "holds (L + {#(KInstance, ih)#}) (history s)"
    and "build_shared_device p inst d ih surf s = (r, s1)"
  shows "case r of
      Inr sd \<Rightarrow> holds (L + shared_ledger sd) (history s1) \<and>
        (\<forall>r2 s2. drop_shared d sd s1 = (r2, s2) \<longrightarrow> holds L (history s2))
    | Inl e \<Rightarrow> \<exists>K. holds (L + {#(KInstance, ih)#} + K) (history s1) \<and> fst ` set_mset K \<subseteq> {KDevice}"
proof -
  have b: "wps (build_shared_device p inst d ih surf) (\<lambda>sd s1. holds (L + shared_ledger sd) (history s1))
      (\<lambda>e s1. \<exists>K. holds (L + {#(KInstance, ih)#} + K) (history s1) \<and> fst ` set_mset K \<subseteq> {KDevice}) s"
    by (rule wps_build_shared [OF assms(1)]) blast+
  show ?thesis
    using wps_value [OF b] wps_faultD [OF b] assms(2) drop_shared_holds by (auto split: sum.split)
qed

theorem shared_device_books_witness:
  "\<exists>sd s1 r2 s2. build_shared_device Dev demo_instance steady_driver 7 (Some 10) \<lparr>history = [EAcquireRef KInstance 7]\<rparr>
     = (Inr sd, s1) \<and> drop_shared steady_driver sd s1 = (r2, s2) \<and> holds {#} (history s2)"
proof -
  let ?s = "\<lparr>history = [EAcquireRef KInstance 7]\<rparr>"
  have start: "holds ({#} + {#(KInstance, 7)#}) (history ?s)" by (simp add: holds_def)
  have "\<exists>sd. fst (build_shared_device Dev demo_instance steady_driver 7 (Some 10) ?s) = Inr sd"
    by (simp add: build_shared_device_def create_logical_device_def demo_selected context_eval cong: sbind_weak_cong)
  then obtain sd s1 where built: "build_shared_device Dev demo_instance steady_driver 7 (Some 10) ?s = (Inr sd, s1)"
    by (metis prod.collapse)
  obtain r2 s2 where "drop_shared steady_driver sd s1 = (r2, s2)" by force
  with shared_device_books [OF start built] built show ?thesis unfolding sum.case by blast
qed

end
