(* ===== verification/Application.thy ===== *)
theory Application
  imports StateMachine Swapchain DeviceSelect
begin

text \<open>
  The backend as an application runs it: the shared device is built from an instance, a window context is
  made on a surface, used and dropped, and the shared device goes with its last owner. The window context
  is that of \<^verbatim>\<open>state_machine.rs\<close>, for which \<^verbatim>\<open>build_shared_device\<close> makes the
  shared device.
\<close>

text \<open>One run: \<open>None\<close> where the device or the window cannot be made, and whether all operations succeeded.\<close>

definition run_application :: "profile \<Rightarrow> instance_api \<Rightarrow> driver \<Rightarrow> handle \<Rightarrow> handle \<Rightarrow> u32 \<Rightarrow> u32 \<Rightarrow> win_op list
    \<Rightarrow> history \<Rightarrow> (bool \<times> history) option" where
  "run_application p inst d instance_handle surf w h acts start =
     (case build_shared_device p inst d instance_handle (Some surf) \<lparr>history = start\<rparr> of
        (Inl _, _) \<Rightarrow> None
      | (Inr sd, s) \<Rightarrow>
          (case sm_new p d (history s) sd surf w h of
             (Inl _, _) \<Rightarrow> None
           | (Inr c, _) \<Rightarrow>
               let (ok, c) = run_ops (sm_tick p d) (sm_submit_and_present p d) acts c;
                   (_, c) = sm_drop d c;
                   (_, s) = drop_shared d sd \<lparr>history = history c\<rparr>
               in Some (ok, history s)))"

section \<open>Properties\<close>

text \<open>
  C7: The whole backend balances its books. Given an instance and a surface, a run that makes its device
  and its window, performs any operations that succeed on it and drops both has released everything:
  the instance, the surface, the device, the command pool and all that the window made in between.
\<close>

theorem application_releases_everything:
  assumes "nonnull_handles d" "exact_counts d"
    and "holds (L + {#(KInstance, ih), (KSurface, surf)#}) start"
    and "run_application p inst d ih surf w h acts start = Some (True, hist)"
  shows "holds L hist"
proof -
  let ?s = "\<lparr>history = start\<rparr>"
  obtain sd s c h1 c1 r2 c2 r3 s3 where
    built: "build_shared_device p inst d ih (Some surf) ?s = (Inr sd, s)"
    and new: "sm_new p d (history s) sd surf w h = (Inr c, h1)"
    and ran: "run_ops (sm_tick p d) (sm_submit_and_present p d) acts c = (True, c1)"
    and dropped: "sm_drop d c1 = (r2, c2)" and gone: "drop_shared d sd \<lparr>history = history c2\<rparr> = (r3, s3)"
    and hist: "hist = history s3"
    using assms(4) by (auto simp: run_application_def Let_def split: prod.splits sum.splits)
  have "holds (add_mset (KSurface, surf) L + {#(KInstance, ih)#}) (history ?s)"
    using assms(3) by (simp add: add_mset_commute)
  then have b: "wps (build_shared_device p inst d ih (Some surf)) 
      (\<lambda>sd s. holds (add_mset (KSurface, surf) L + shared_ledger sd) (history s)) (\<lambda>_ _. True) ?s"
    by (rule wps_build_shared) simp_all
  from wps_value [OF b built] have "holds ((L + shared_ledger sd) + {#(KSurface, surf)#}) (history s)" by simp
  from sm.lifetime [OF assms(1,2) this new [unfolded sm_new_def] ran dropped [unfolded sm_drop_def]]
  have "holds (L + shared_ledger sd) (history c2)" by auto
  from drop_shared_holds [OF _ gone] this hist show ?thesis by simp
qed

definition app_start :: history where
  "app_start = [EAcquireRef KSurface 10, EAcquireRef KInstance 7]"

lemma demo_application:
  "\<exists>hist. run_application Dev demo_instance steady_driver 7 10 640 480 [OpTick, OpSubmit 1] app_start = Some (True, hist)"
  unfolding run_application_def build_shared_device_def create_logical_device_def app_start_def demo_selected
  by (simp add: demo_selected demo_candidate_def demo_instance_def drop_shared_def context_eval sm_eval
      cong: sbind_weak_cong del: run_ops.simps(2))

theorem application_releases_everything_witness:
  "\<exists>hist. run_application Dev demo_instance steady_driver 7 10 640 480 [OpTick, OpSubmit 1] app_start = Some (True, hist) \<and>
     holds {#} hist"
proof -
  have "holds ({#} + {#(KInstance, 7), (KSurface, 10)#}) app_start"
    by (simp add: holds_def app_start_def add_mset_commute)
  with application_releases_everything [OF steady_conforms] demo_application show ?thesis by blast
qed

end
