(* ===== verification/Objc.thy ===== *)
theory Objc
  imports DeviceSelect
begin

text \<open>
  The Objective-C runtime as the shims use it: the helpers at the head of
  \<^verbatim>\<open>src/frameworks/appkit.rs\<close>. The runtime is not code of the repository: its answers are the
  functions of a record, and each may depend on the calls before it, which the state keeps, newest first.
  An object, a class or a null pointer is its address.
\<close>

type_synonym obj = u64

datatype arg = Ptr u64 | Bytes "u8 list"

text \<open>The functions of the crate that are installed as methods.\<close>

datatype imp =
    SharedApplicationImpl | RunImpl | ApplicationTerminate
  | WindowInit | WindowSetTitle | WindowSetDelegate | WindowMakeKeyAndOrderFront | WindowFrame
  | WindowSetFrameDisplay | WindowOrderOut | WindowClose | WindowContentView | WindowCenter | WindowStyleMask
  | ViewSetWantsLayer | ViewWantsLayer | ViewLayer | ViewSetLayer | ViewFrame | ViewBounds | ViewWindow
  | ScreensFunc | MainScreenFunc | ScreenFrame | ScreenBackingScaleFactor

datatype objc_event =
    GetClass string obj
  | AllocateClass obj string obj
  | RegisterClass obj
  | MetaClass obj obj
  | AddMethod obj string imp string bool
  | ReplaceMethod obj string imp string
  | Send obj string "arg list" u64
  | Release obj

record objc_runtime =
  rt_get_class :: "objc_event list \<Rightarrow> string \<Rightarrow> obj"
  rt_allocate_class :: "objc_event list \<Rightarrow> obj \<Rightarrow> string \<Rightarrow> obj"
  rt_meta_class :: "objc_event list \<Rightarrow> obj \<Rightarrow> obj"
  rt_add_method :: "objc_event list \<Rightarrow> obj \<Rightarrow> string \<Rightarrow> bool"
  rt_send :: "objc_event list \<Rightarrow> obj \<Rightarrow> string \<Rightarrow> arg list \<Rightarrow> u64"
  rt_memory :: "objc_event list \<Rightarrow> u64 \<Rightarrow> u8 list" \<comment> \<open>the bytes at a pointer, up to and with a NUL\<close>

record host_world = vk_world +
  objc_log :: "objc_event list"

section \<open>Calls\<close>

text \<open>A call of the runtime with its answer; \<^verbatim>\<open>objc_msgSend\<close> behind the typed wrappers.\<close>

definition objc_call :: "(objc_event list \<Rightarrow> 'a) \<Rightarrow> ('a \<Rightarrow> objc_event) \<Rightarrow> ('s host_world_scheme, 'e, 'a) smonad" where
  "objc_call reply ev = (\<lambda>s. let r = reply (objc_log s) in (Inr r, s\<lparr>objc_log := ev r # objc_log s\<rparr>))"

definition msg_send :: "objc_runtime \<Rightarrow> obj \<Rightarrow> string \<Rightarrow> arg list \<Rightarrow> ('s host_world_scheme, 'e, u64) smonad" where
  "msg_send rt recv sel args = objc_call (\<lambda>h. rt_send rt h recv sel args) (Send recv sel args)"

definition class_named :: "objc_runtime \<Rightarrow> string \<Rightarrow> ('s host_world_scheme, 'e, obj) smonad" where
  "class_named rt name = objc_call (\<lambda>h. rt_get_class rt h name) (GetClass name)"

text \<open>A string with an inner NUL becomes the empty string.\<close>

definition ns_string :: "objc_runtime \<Rightarrow> u8 list \<Rightarrow> ('s host_world_scheme, 'e, obj) smonad" where
  "ns_string rt s =
     sbind (class_named rt ''NSString'') (\<lambda>cls.
     sbind (msg_send rt cls ''alloc'' []) (\<lambda>obj.
     msg_send rt obj ''initWithUTF8String:'' [Bytes (if 0 \<in> set s then [] else s)]))"

definition send_str :: "objc_runtime \<Rightarrow> obj \<Rightarrow> string \<Rightarrow> u8 list \<Rightarrow> ('s host_world_scheme, 'e, obj) smonad" where
  "send_str rt recv sel s = sbind (ns_string rt s) (\<lambda>nsstr. msg_send rt recv sel [Ptr nsstr])"

definition ns_string_to_rust :: "objc_runtime \<Rightarrow> obj \<Rightarrow> ('s host_world_scheme, 'e, u8 list) smonad" where
  "ns_string_to_rust rt obj =
     (if obj = 0 then sret []
      else sbind (msg_send rt obj ''UTF8String'' []) (\<lambda>ptr.
        if ptr = 0 then sret [] else sget (\<lambda>s. cstr_to_string (rt_memory rt (objc_log s) ptr))))"

section \<open>Rules\<close>

lemma wps_objc_call [simp]:
  "wps (objc_call reply ev) Q E = (\<lambda>s. Q (reply (objc_log s)) (s\<lparr>objc_log := ev (reply (objc_log s)) # objc_log s\<rparr>))"
  by (simp add: fun_eq_iff wps_def objc_call_def Let_def)

lemma wps_msg_send [simp]:
  "wps (msg_send rt recv sel args) Q E = (\<lambda>s. Q (rt_send rt (objc_log s) recv sel args)
     (s\<lparr>objc_log := Send recv sel args (rt_send rt (objc_log s) recv sel args) # objc_log s\<rparr>))"
  by (simp add: fun_eq_iff msg_send_def)

lemma wps_class_named [simp]:
  "wps (class_named rt name) Q E = (\<lambda>s. Q (rt_get_class rt (objc_log s) name)
     (s\<lparr>objc_log := GetClass name (rt_get_class rt (objc_log s) name) # objc_log s\<rparr>))"
  by (simp add: fun_eq_iff class_named_def)

lemma objc_call_run:
  "objc_call reply ev s = (Inr (reply (objc_log s)), s\<lparr>objc_log := ev (reply (objc_log s)) # objc_log s\<rparr>)"
  "sbind (objc_call reply ev) k s = k (reply (objc_log s)) (s\<lparr>objc_log := ev (reply (objc_log s)) # objc_log s\<rparr>)"
  by (simp_all add: objc_call_def Let_def sbind_def)

lemmas objc_eval = eval_rules objc_call_run msg_send_def class_named_def

text \<open>
  A runtime for the examples: every class exists, objects are numbered by the length of the log, a value in a box
  is the box moved by \<open>2\<^sup>3\<^sup>2\<close>, and every other message returns its receiver.
\<close>

definition demo_runtime :: objc_runtime where
  "demo_runtime =
     \<lparr>rt_get_class = (\<lambda>l name. 1000 + of_nat (length name)),
      rt_allocate_class = (\<lambda>l super name. 2000 + of_nat (length name)),
      rt_meta_class = (\<lambda>l cls. cls + 500),
      rt_add_method = (\<lambda>l cls sel. True),
      rt_send = (\<lambda>l recv sel args.
        if sel = ''alloc'' then 4096 + 64 * of_nat (length l)
        else if sel = ''valueWithPointer:'' then (case args of [Ptr x] \<Rightarrow> x + 4294967296 | _ \<Rightarrow> 0)
        else if sel = ''pointerValue'' then recv - 4294967296
        else recv),
      rt_memory = (\<lambda>l ptr. [0])\<rparr>"

end
