(* ===== verification/MetalLayer.thy ===== *)
theory MetalLayer
  imports Objc Swapchain
begin

text \<open>
  The Metal classes of \<^verbatim>\<open>src/frameworks/metal_sys.rs\<close> and the layer and drawable of
  \<^verbatim>\<open>src/frameworks/quartz_core.rs\<close>: two globals, the shared device and the window's render
  context (of \<^verbatim>\<open>swapchain.rs\<close>), and methods the application calls by message. The methods run on
  one thread, as the globals require.
\<close>

section \<open>State\<close>

text \<open>
  The render context keeps no history of its own: \<open>in_context\<close> gives it the one of the process. The last
  field is the memory of the process in words of 32 bits, by address; \<open>init_with_layer\<close> is all that writes it here, but
  anything else in the process may.
\<close>

record framework_world = host_world +
  g_shared_device :: "shared_device option"
  render_context :: "window_ctx option"
  object_words :: "u64 \<Rightarrow> u32"

section \<open>The Metal classes\<close>

text \<open>The macro \<^verbatim>\<open>class!\<close> panics when there is no such class.\<close>

definition class_macro :: "objc_runtime \<Rightarrow> string \<Rightarrow> ('s host_world_scheme, 'e, obj) smonad" where
  "class_macro rt name =
     sbind (class_named rt name) (\<lambda>cls. if cls = 0 then sfail (Panic Unwrapped) else sret cls)"

text \<open>What the three factory methods share: allocate an object of the class and send it its initialiser.\<close>

definition new_object :: "objc_runtime \<Rightarrow> string \<Rightarrow> string \<Rightarrow> obj \<Rightarrow> ('s host_world_scheme, 'e, obj option) smonad" where
  "new_object rt cls_name init self =
     sbind (class_macro rt cls_name) (\<lambda>cls.
     sbind (msg_send rt cls ''alloc'' []) (\<lambda>obj.
     if obj = 0 then sret None
     else sbind (msg_send rt obj init [Ptr self]) (\<lambda>_. sret (Some obj))))"

definition new_command_queue :: "objc_runtime \<Rightarrow> obj \<Rightarrow> ('s host_world_scheme, 'e, obj option) smonad" where
  "new_command_queue rt self = new_object rt ''MTLCommandQueue'' ''initWithDevice:'' self"

definition command_buffer :: "objc_runtime \<Rightarrow> obj \<Rightarrow> ('s host_world_scheme, 'e, obj option) smonad" where
  "command_buffer rt self = new_object rt ''MTLCommandBuffer'' ''initWithQueue:'' self"

definition render_command_encoder :: "objc_runtime \<Rightarrow> obj \<Rightarrow> obj \<Rightarrow> ('s host_world_scheme, 'e, obj option) smonad" where
  "render_command_encoder rt self descriptor =
     new_object rt ''MTLRenderCommandEncoder'' ''initWithCommandBuffer:'' self"

text \<open>The initialisers: \<^verbatim>\<open>init\<close> of the superclass.\<close>

definition super_init :: "objc_runtime \<Rightarrow> obj \<Rightarrow> ('s host_world_scheme, 'e, obj option) smonad" where
  "super_init rt this =
     sbind (msg_send rt this ''super init'' []) (\<lambda>res. sret (if res = 0 then None else Some res))"

definition commit :: "driver \<Rightarrow> (framework_world, 'e, unit) smonad" where
  "commit d =
     sbind (sget g_shared_device) (\<lambda>shared.
     case shared of
       None \<Rightarrow> sret ()
     | Some sd \<Rightarrow>
         sbind (attempt (vk_call (\<lambda>h. d_submit_empty d h (sd_graphics_queue sd) 0) (ESubmitEmpty (sd_graphics_queue sd) 0)))
           (\<lambda>_ :: unit vkr. sret ()))"

definition draw_primitives :: "u32 \<Rightarrow> u64 \<Rightarrow> u64 \<Rightarrow> ('s framework_world_scheme, 'e, unit) smonad" where
  "draw_primitives type_enum start n =
     sbind (sget g_shared_device) (\<lambda>shared.
     case shared of
       None \<Rightarrow> sret ()
     | Some sd \<Rightarrow> vk_do (ECommand 0 (Draw (ucast n) 1 (ucast start) 0)))"

text \<open>
  The assignment drops the device that was there; \<^verbatim>\<open>last_owner\<close> says whether that was the last
  \<^verbatim>\<open>Arc\<close> to it.
\<close>

definition in_device :: "unit dev \<Rightarrow> ('s framework_world_scheme, 'e, unit) smonad" where
  "in_device m = (\<lambda>s. (Inr (), s\<lparr>history := history (snd (m \<lparr>history = history s\<rparr>))\<rparr>))"

definition set_global_shared_device :: "driver \<Rightarrow> bool \<Rightarrow> shared_device \<Rightarrow> (framework_world, 'e, unit) smonad" where
  "set_global_shared_device d last_owner sd =
     sbind (sget g_shared_device) (\<lambda>old.
     sbind (supd (\<lambda>s. s\<lparr>g_shared_device := Some sd\<rparr>)) (\<lambda>_.
     case old of Some prev \<Rightarrow> if last_owner then in_device (drop_shared d prev) else sret () | None \<Rightarrow> sret ()))"

text \<open>
  The device object is held by an \<^verbatim>\<open>Id\<close>, which is dropped, and so releases the object, when the
  function returns the pointer.
\<close>

definition MTLCreateSystemDefaultDevice :: "objc_runtime \<Rightarrow> ('s host_world_scheme, 'e, obj) smonad" where
  "MTLCreateSystemDefaultDevice rt =
     sbind (class_macro rt ''MTLDevice'') (\<lambda>cls.
     sbind (msg_send rt cls ''alloc'' []) (\<lambda>device.
     if device = 0 then sret 0
     else sbind (msg_send rt device ''init'' []) (\<lambda>res.
       if res = 0 then sfail (Panic Unwrapped)
       else sbind (supd (\<lambda>s. s\<lparr>objc_log := Release res # objc_log s\<rparr>)) (\<lambda>_. sret res))))"

section \<open>The layer and its drawables\<close>

text \<open>An operation on the global render context, if there is one.\<close>

definition in_context :: "(window_ctx, 'e, 'a) smonad \<Rightarrow> (framework_world, 'e, 'a option) smonad" where
  "in_context m =
     sbind (sget render_context) (\<lambda>rc.
     case rc of
       None \<Rightarrow> sret None
     | Some c \<Rightarrow> (\<lambda>s. case m (c\<lparr>history := history s\<rparr>) of
         (Inl e, c') \<Rightarrow> (Inl e, s\<lparr>history := history c', render_context := Some c'\<rparr>)
       | (Inr x, c') \<Rightarrow> (Inr (Some x), s\<lparr>history := history c', render_context := Some c'\<rparr>)))"

text \<open>The render context that is there is dropped.\<close>

definition set_global_render_context :: "driver \<Rightarrow> window_ctx \<Rightarrow> (framework_world, swapchain_error, unit) smonad" where
  "set_global_render_context d ctx =
     sbind (in_context (sc_drop d)) (\<lambda>_. supd (\<lambda>s. s\<lparr>render_context := Some ctx\<rparr>))"

definition set_drawable_size :: "u32 \<Rightarrow> u32 \<Rightarrow> (framework_world, swapchain_error, unit) smonad" where
  "set_drawable_size w h = sbind (in_context (sc_request_resize w h)) (\<lambda>_. sret ())"

text \<open>
  The index of the image is written 16 bytes behind the address of the object. The class has no instance variables,
  so that word is not part of the object: it belongs to whatever lies there.
\<close>

definition init_with_layer :: "objc_runtime \<Rightarrow> obj \<Rightarrow> obj \<Rightarrow> u32 \<Rightarrow> (framework_world, 'e, obj option) smonad" where
  "init_with_layer rt drawable layer texture_index =
     sbind (super_init rt drawable) (\<lambda>this.
     case this of
       None \<Rightarrow> sret None
     | Some obj \<Rightarrow>
         sbind (supd (\<lambda>s. s\<lparr>object_words := (object_words s)(obj + 16 := texture_index)\<rparr>)) (\<lambda>_. sret this))"

definition next_drawable :: "nat \<Rightarrow> profile \<Rightarrow> driver \<Rightarrow> objc_runtime \<Rightarrow> obj
    \<Rightarrow> (framework_world, swapchain_error, obj option) smonad" where
  "next_drawable fuel p d rt layer =
     sbind (in_context (attempt (sc_tick fuel p d))) (\<lambda>outcome.
     case outcome of
       Some (Inr (Acquired a)) \<Rightarrow>
         sbind (class_macro rt ''CAMetalDrawable'') (\<lambda>cls.
         sbind (msg_send rt cls ''alloc'' []) (\<lambda>drawable.
         if drawable = 0 then sret None
         else sbind (init_with_layer rt drawable layer (aq_image_index a)) (\<lambda>_. sret (Some drawable))))
     | _ \<Rightarrow> sret None)"

definition present :: "profile \<Rightarrow> driver \<Rightarrow> obj \<Rightarrow> (framework_world, swapchain_error, unit) smonad" where
  "present p d drawable =
     sbind (sget (\<lambda>s. object_words s (drawable + 16))) (\<lambda>texture_index.
     sbind (in_context (attempt (sc_submit_and_present p d texture_index))) (\<lambda>_ :: (swapchain_error + unit) option.
     sret ()))"

section \<open>The books of the layer\<close>

datatype layer_op = SetDrawableSize u32 u32 | NextDrawable obj | Present obj

fun layer_step :: "nat \<Rightarrow> profile \<Rightarrow> driver \<Rightarrow> objc_runtime \<Rightarrow> layer_op \<Rightarrow> (framework_world, swapchain_error, unit) smonad" where
  "layer_step fuel p d rt (SetDrawableSize w h) = set_drawable_size w h"
| "layer_step fuel p d rt (NextDrawable layer) = sbind (next_drawable fuel p d rt layer) (\<lambda>_. sret ())"
| "layer_step fuel p d rt (Present drawable) = present p d drawable"

text \<open>
  Whether the operations of the render context behind the methods succeeded, which the methods do not tell:
  \<open>succeeded\<close> looks at the result that a method swallows.
\<close>

definition succeeded :: "('e, ('r + 'a) option) outcome \<Rightarrow> bool" where
  "succeeded r \<longleftrightarrow> (case r of Inr (Some (Inl e)) \<Rightarrow> False | _ \<Rightarrow> True)"

fun op_ok :: "nat \<Rightarrow> profile \<Rightarrow> driver \<Rightarrow> layer_op \<Rightarrow> framework_world \<Rightarrow> bool" where
  "op_ok fuel p d (SetDrawableSize w h) s \<longleftrightarrow> True"
| "op_ok fuel p d (NextDrawable layer) s \<longleftrightarrow>
     succeeded (fst (in_context (attempt (sc_tick fuel p d)) s) :: (swapchain_error, _) outcome)"
| "op_ok fuel p d (Present drawable) s \<longleftrightarrow>
     succeeded (fst (in_context (attempt (sc_submit_and_present p d (object_words s (drawable + 16)))) s)
       :: (swapchain_error, _) outcome)"

primrec ops_ok :: "nat \<Rightarrow> profile \<Rightarrow> driver \<Rightarrow> objc_runtime \<Rightarrow> layer_op list \<Rightarrow> framework_world \<Rightarrow> bool" where
  "ops_ok fuel p d rt [] s \<longleftrightarrow> True"
| "ops_ok fuel p d rt (op # acts) s \<longleftrightarrow>
     op_ok fuel p d op s \<and> ops_ok fuel p d rt acts (snd (layer_step fuel p d rt op s))"

text \<open>The books of the layer: nothing is lost as long as all is \<open>ok\<close>.\<close>

definition layer_books :: "bool \<Rightarrow> ledger \<Rightarrow> framework_world \<Rightarrow> bool" where
  "layer_books ok L s \<longleftrightarrow> (\<exists>c K. render_context s = Some c \<and> leak K \<and> (ok \<longrightarrow> K = {#}) \<and>
     books (L + K) (c\<lparr>history := history s\<rparr>))"

lemma layer_books_objc [simp]: "layer_books ok L (s\<lparr>objc_log := l\<rparr>) = layer_books ok L s"
  "layer_books ok L (s\<lparr>object_words := m\<rparr>) = layer_books ok L s"
  by (simp_all add: layer_books_def)

lemma layer_books_context:
  assumes "keeps (\<lambda>_. True) m" and "layer_books ok L s"
  shows "wps (in_context (attempt m)) (\<lambda>x. layer_books (ok \<and> succeeded (fst (in_context (attempt m) s))) L) (\<lambda>_ _. True) s"
    and "wps (in_context m) (\<lambda>_. layer_books ok L) (\<lambda>_ _. True) s"
proof -
  obtain c K where c: "render_context s = Some c" "leak K" "ok \<Longrightarrow> K = {#}" "books (L + K) (c\<lparr>history := history s\<rparr>)"
    using assms(2) by (auto simp: layer_books_def)
  obtain r c' where run: "m (c\<lparr>history := history s\<rparr>) = (r, c')" by force
  let ?s = "s\<lparr>history := history c', render_context := Some c'\<rparr>"
  have step: "wps m (\<lambda>_ c'. books (L + K) c') (\<lambda>_ c'. \<exists>K'. leak K' \<and> books (L + K + K') c') (c\<lparr>history := history s\<rparr>)"
    using assms(1) c(4) by (simp add: keeps_def)
  have good: "layer_books ok L ?s" if "r = Inr x" for x
    using step run c that by (auto simp: wps_def layer_books_def)
  have bad: "layer_books False L ?s" if "r = Inl e" for e
    using step run c(2) that by (auto simp: wps_def layer_books_def add.assoc intro: leak_intros)
  show "wps (in_context (attempt m)) (\<lambda>x. layer_books (ok \<and> succeeded (fst (in_context (attempt m) s))) L) (\<lambda>_ _. True) s"
    using run c(1) good bad
    by (auto simp: in_context_def attempt_def wps_def sbind_def run_simps succeeded_def split: sum.split fault.split)
  show "wps (in_context m) (\<lambda>_. layer_books ok L) (\<lambda>_ _. True) s"
    using run c(1) good by (auto simp: in_context_def wps_def sbind_def run_simps split: sum.split)
qed

lemma layer_books_step:
  assumes "nonnull_handles d" "exact_counts d" and "layer_books ok L s"
  shows "wps (layer_step fuel p d rt op) (\<lambda>_. layer_books (ok \<and> op_ok fuel p d op s) L) (\<lambda>_ _. True) s"
proof (cases op)
  case (SetDrawableSize w h)
  have "keeps (\<lambda>_. True) (sc_request_resize w h)"
    unfolding sc_request_resize_def by (intro keeps_supd) simp_all
  from layer_books_context(2) [OF this assms(3)] SetDrawableSize show ?thesis by (simp add: set_drawable_size_def)
next
  case (NextDrawable layer)
  have "keeps (\<lambda>_. True) (sc_tick fuel p d)" by (rule sc_tick_keeps [OF assms(1,2)]) simp
  note tick = layer_books_context(1) [OF this assms(3)]
  show ?thesis
    unfolding NextDrawable layer_step.simps next_drawable_def init_with_layer_def super_init_def class_macro_def wps_sbind
      op_ok.simps
    by (rule wps_mono [OF tick])
      (auto split: option.split sum.split tick_outcome.split)
next
  case (Present drawable)
  have "keeps (\<lambda>_. True) (sc_submit_and_present p d idx)" for idx
    unfolding sc_submit_and_present_def by (intro keeps_submit sc_build_keeps assms(1,2)) simp_all
  from layer_books_context(1) [OF this assms(3)] Present show ?thesis by (simp add: present_def)
qed

lemma layer_books_run:
  assumes "nonnull_handles d" "exact_counts d" and "layer_books ok L s"
    and "seach (layer_step fuel p d rt) acts s = (Inr u, s')"
  shows "layer_books (ok \<and> ops_ok fuel p d rt acts s) L s'"
  using assms(3,4)
proof (induction acts arbitrary: ok s)
  case Nil
  then show ?case by (simp add: run_simps)
next
  case (Cons op acts)
  then obtain x s1 where step: "layer_step fuel p d rt op s = (Inr x, s1)"
    and rest: "seach (layer_step fuel p d rt) acts s1 = (Inr u, s')"
    by (auto simp: sbind_def split: prod.splits sum.splits)
  from wps_value [OF layer_books_step [OF assms(1,2) Cons.prems(1)] step]
  have "layer_books (ok \<and> op_ok fuel p d op s) L s1" .
  from Cons.IH [OF this rest] show ?case by (simp add: step conj_assoc)
qed

section \<open>Properties\<close>

text \<open>
  C14: The layer owns its window. Once a render context made by \<^verbatim>\<open>new\<close> is the global one, whatever the
  application does with the layer and its drawables, setting another context releases everything the first one held,
  its surface included. Only if one of the render context's operations behind the methods failed, an error the
  methods swallow, may something be left besides, and then only image views, framebuffers, semaphores and fences.
\<close>

theorem layer_lifetime:
  assumes "nonnull_handles d" "exact_counts d" and "holds (L + {#(KSurface, surf)#}) hist"
    and "sc_new p d hist sd surf w h = (Inr c, hist')"
    and "history s = hist'" and "render_context s = Some c"
    and "seach (layer_step fuel p d rt) acts s = (Inr (), s1)"
    and "set_global_render_context d c2 s1 = (r, s2)"
  shows "r = Inr () \<and> render_context s2 = Some c2 \<and>
    (\<exists>K. leak K \<and> (ops_ok fuel p d rt acts s \<longrightarrow> K = {#}) \<and> holds (L + K) (history s2))"
proof -
  have "books L c" "hist' = history c"
    using sc.new_books [OF assms(1-3) assms(4) [unfolded sc_new_def]] by simp_all
  then have "layer_books True L s"
    using assms(5,6) by (auto simp: layer_books_def intro!: exI [of _ "{#}"])
  from layer_books_run [OF assms(1,2) this assms(7)] obtain c1 K where
    c1: "render_context s1 = Some c1" "leak K" "ops_ok fuel p d rt acts s \<Longrightarrow> K = {#}"
    "books (L + K) (c1\<lparr>history := history s1\<rparr>)"
    by (auto simp: layer_books_def)
  obtain r' c' where drop: "drop_ctx d sc_destroy_swapchain_resources (c1\<lparr>history := history s1\<rparr>) = (r', c')" by force
  from sc.drop_releases [OF c1(4) drop] drop c1(1-3) assms(8) show ?thesis
    by (auto simp: set_global_render_context_def in_context_def sc_drop_def sbind_def run_simps)
qed

text \<open>The references to an object that the calls in a log have made and given up.\<close>

primrec references :: "objc_event list \<Rightarrow> obj \<Rightarrow> int" where
  "references [] obj = 0"
| "references (ev # l) obj =
     references l obj +
     (case ev of
        Send recv sel args r \<Rightarrow> if sel = ''alloc'' \<and> r = obj then 1 else 0
      | Release o' \<Rightarrow> if o' = obj then - 1 else 0
      | _ \<Rightarrow> 0)"

text \<open>
  \<^verbatim>\<open>MTLCreateSystemDefaultDevice\<close> returns a dangling pointer: with a runtime whose
  \<^verbatim>\<open>init\<close> returns its receiver, and a new object that had no references before, nothing holds
  the device when its address is returned.
\<close>

theorem default_device_dangles:
  assumes "\<And>l o'. rt_send rt l o' ''init'' [] = o'"
    and "\<And>cls. references (objc_log s) (rt_send rt (GetClass ''MTLDevice'' cls # objc_log s) cls ''alloc'' []) = 0"
    and "MTLCreateSystemDefaultDevice rt s = (Inr ptr, s')"
  shows "ptr = 0 \<or> references (objc_log s') ptr = 0"
  using assms
  by (auto simp: MTLCreateSystemDefaultDevice_def class_macro_def msg_send_def class_named_def objc_call_def
      sbind_def run_simps Let_def split: if_splits)

theorem default_device_dangles_witness:
  "\<exists>s'. MTLCreateSystemDefaultDevice demo_runtime \<lparr>history = [], objc_log = []\<rparr> = (Inr 4160 :: (unit, obj) outcome, s') \<and>
     references (objc_log s') 4160 = 0"
proof -
  let ?s = "\<lparr>history = [], objc_log = []\<rparr>"
  obtain s' where run: "MTLCreateSystemDefaultDevice demo_runtime ?s = (Inr 4160 :: (unit, obj) outcome, s')"
    by (simp add: MTLCreateSystemDefaultDevice_def class_macro_def objc_eval demo_runtime_def cong: sbind_weak_cong)
  have "rt_send demo_runtime l o' ''init'' [] = o'" for l o' by (simp add: demo_runtime_def)
  from default_device_dangles [OF this _ run] run show ?thesis by simp
qed

definition layer_start :: framework_world where
  "layer_start = \<lparr>history = history sc_demo, objc_log = [], g_shared_device = Some demo_device,
     render_context = Some sc_demo, object_words = (\<lambda>_. 0)\<rparr>"

lemmas layer_eval = next_drawable_def in_context_def present_def init_with_layer_def super_init_def class_macro_def
  set_drawable_size_def sc_request_resize_def demo_runtime_def layer_start_def

lemma layer_demo_ops:
  "\<exists>s1 s2. seach (layer_step 1 Dev steady_driver demo_runtime) [NextDrawable 1, Present 4160]
     layer_start = (Inr (), s1) \<and> set_global_render_context steady_driver sc_demo s1 = (Inr (), s2)"
  unfolding layer_start_def sc_demo_def
  by (simp add: layer_eval objc_eval context_eval sc_eval set_global_render_context_def cong: sbind_weak_cong)

lemma layer_demo_ok: "ops_ok 1 Dev steady_driver demo_runtime [NextDrawable 1, Present 4160] layer_start"
  unfolding layer_start_def sc_demo_def
  by (simp add: layer_eval objc_eval context_eval sc_eval succeeded_def cong: sbind_weak_cong)

theorem layer_lifetime_witness:
  "\<exists>s1 s2. seach (layer_step 1 Dev steady_driver demo_runtime) [NextDrawable 1, Present 4160] layer_start = (Inr (), s1) \<and>
     set_global_render_context steady_driver sc_demo s1 = (Inr (), s2) \<and> holds {#} (history s2)"
proof -
  obtain s1 s2 where run: "seach (layer_step 1 Dev steady_driver demo_runtime)
      [NextDrawable 1, Present 4160] layer_start = (Inr (), s1)"
    and set: "set_global_render_context steady_driver sc_demo s1 = (Inr (), s2)"
    using layer_demo_ops by blast
  have "history layer_start = history sc_demo" "render_context layer_start = Some sc_demo" by (simp_all add: layer_start_def)
  from layer_lifetime [OF steady_conforms demo_start_holds sc_demo_new this run set] layer_demo_ok run set show ?thesis by auto
qed

end
