(* ===== verification/GlBuffers.thy ===== *)
theory GlBuffers
  imports Resource MetalLayer
begin

text \<open>
  The buffer objects of \<^verbatim>\<open>src/frameworks/opengl_sys.rs\<close>: the table of the global
  \<^verbatim>\<open>GlContext\<close>, and the six C entry points. They are \<^verbatim>\<open>extern "C"\<close> functions, out of
  which a panic does not unwind: it ends the process, so no lock is left poisoned. The shared device is the
  global of \<^verbatim>\<open>metal_sys.rs\<close>.
\<close>

section \<open>State\<close>

definition GL_ARRAY_BUFFER :: u32 where "GL_ARRAY_BUFFER = 0x8892"
definition GL_ELEMENT_ARRAY_BUFFER :: u32 where "GL_ELEMENT_ARRAY_BUFFER = 0x8893"
definition GL_TRIANGLES :: u32 where "GL_TRIANGLES = 4"
definition GL_UNSIGNED_INT :: u32 where "GL_UNSIGNED_INT = 0x1405"

record gl_buffer =
  gb_buffer :: handle
  gb_memory :: handle
  gb_size :: u64

record gl_context =
  gl_buffers :: "u32 \<rightharpoonup> gl_buffer"
  bound_array_buffer :: u32
  bound_element_buffer :: u32
  next_id :: u32

definition new_gl_context :: gl_context where
  "new_gl_context = \<lparr>gl_buffers = Map.empty, bound_array_buffer = 0, bound_element_buffer = 0, next_id = 1\<rparr>"

text \<open>The global context, beside the globals of the other shims; it is made when it is first asked for.\<close>

record gl_world = framework_world +
  gl_global :: "gl_context option"

type_synonym 'a gl = "(gl_world, unit, 'a) smonad"

definition gl_ctx :: "gl_world \<Rightarrow> gl_context" where
  "gl_ctx s = (case gl_global s of Some c \<Rightarrow> c | None \<Rightarrow> new_gl_context)"

definition get_context :: "gl_context gl" where
  "get_context = sbind (supd (\<lambda>s. s\<lparr>gl_global := Some (gl_ctx s)\<rparr>)) (\<lambda>_. sget gl_ctx)"

definition set_context :: "(gl_context \<Rightarrow> gl_context) \<Rightarrow> unit gl" where
  "set_context f = supd (\<lambda>s. s\<lparr>gl_global := Some (f (gl_ctx s))\<rparr>)"

section \<open>Entry points\<close>

text \<open>The signed parameters are the words of their bits. A pointer is \<open>None\<close> when it is null.\<close>

definition gen_one :: "profile \<Rightarrow> u32 gl" where
  "gen_one p =
     sbind (sget (\<lambda>s. next_id (gl_ctx s))) (\<lambda>key.
     sbind (slift (rust_add p key 1)) (\<lambda>next.
     sbind (set_context (\<lambda>c. c\<lparr>next_id := next\<rparr>)) (\<lambda>_.
     sbind (set_context (\<lambda>c. c\<lparr>gl_buffers := (gl_buffers c)(key \<mapsto> \<lparr>gb_buffer = 0, gb_memory = 0, gb_size = 0\<rparr>)\<rparr>)) (\<lambda>_.
     sret key))))"

text \<open>The result is what is written behind the pointer \<^verbatim>\<open>buffers\<close>.\<close>

definition glGenBuffers :: "profile \<Rightarrow> u32 \<Rightarrow> bool \<Rightarrow> u32 list gl" where
  "glGenBuffers p n buffers_null =
     (if sint n \<le> 0 \<or> buffers_null then sret []
      else sbind (sget g_shared_device) (\<lambda>shared.
        case shared of
          None \<Rightarrow> sret []
        | Some _ \<Rightarrow> sbind get_context (\<lambda>_. scollect (\<lambda>_. gen_one p) [0..<unat n])))"

definition glBindBuffer :: "u32 \<Rightarrow> u32 \<Rightarrow> unit gl" where
  "glBindBuffer target buffer =
     sbind get_context (\<lambda>_.
       if target = GL_ARRAY_BUFFER then set_context (\<lambda>c. c\<lparr>bound_array_buffer := buffer\<rparr>)
       else if target = GL_ELEMENT_ARRAY_BUFFER then set_context (\<lambda>c. c\<lparr>bound_element_buffer := buffer\<rparr>)
       else sret ())"

definition current_id :: "u32 \<Rightarrow> gl_context \<Rightarrow> u32 option" where
  "current_id target ctx =
     (if target = GL_ARRAY_BUFFER then Some (bound_array_buffer ctx)
      else if target = GL_ELEMENT_ARRAY_BUFFER then Some (bound_element_buffer ctx)
      else None)"

text \<open>The early returns of the two upload functions, and what they do for the bound buffer.\<close>

definition with_bound :: "u32 \<Rightarrow> (u32 \<Rightarrow> gl_buffer \<Rightarrow> unit gl) \<Rightarrow> unit gl" where
  "with_bound target k =
     sbind (sget g_shared_device) (\<lambda>shared.
     case shared of
       None \<Rightarrow> sret ()
     | Some _ \<Rightarrow> sbind get_context (\<lambda>ctx.
         case current_id target ctx of
           None \<Rightarrow> sret ()
         | Some key \<Rightarrow>
             if key = 0 then sret ()
             else (case gl_buffers ctx key of None \<Rightarrow> sret () | Some gl_buf \<Rightarrow> k key gl_buf)))"

text \<open>\<^verbatim>\<open>unwrap\<close> of the result of a call.\<close>

definition unwrapped :: "('s, 'e, 'a) smonad \<Rightarrow> ('s, 'f, 'a) smonad" where
  "unwrapped m = sbind (attempt m) (\<lambda>r. case r of Inl _ \<Rightarrow> sfail (Panic Unwrapped) | Inr x \<Rightarrow> sret x)"

definition HOST_MEMORY :: u32 where
  "HOST_MEMORY = 2 OR 4"

text \<open>The search for a memory type, which starts from index 0 as the answer.\<close>

fun host_type :: "profile \<Rightarrow> memory_properties \<Rightarrow> u32 \<Rightarrow> nat list \<Rightarrow> (unit, u32) outcome" where
  "host_type p mem_props type_bits [] = Inr 0"
| "host_type p mem_props type_bits (i # is) =
     bnd (rust_shl p 1 i) (\<lambda>bit :: u32.
     if type_bits AND bit \<noteq> 0 then
       bnd (index (memory_types mem_props) i) (\<lambda>flags.
       if contains_flags flags HOST_MEMORY then Inr (of_nat i) else host_type p mem_props type_bits is)
     else host_type p mem_props type_bits is)"

text \<open>Map a range, copy into it, unmap.\<close>

definition write_mapped :: "driver \<Rightarrow> handle \<Rightarrow> u64 \<Rightarrow> u64 \<Rightarrow> (nat \<Rightarrow> u8) \<Rightarrow> unit gl" where
  "write_mapped d memory off len data =
     sbind (unwrapped (vk_call (\<lambda>h. d_map_memory d h memory off len) (EMap memory off len))) (\<lambda>_ :: unit.
     sbind (vk_do (EWrite memory off (map data [0..<unat len]))) (\<lambda>_.
     vk_do (EUnmap memory)))"

definition release_buffer :: "gl_buffer \<Rightarrow> unit gl" where
  "release_buffer gl_buf =
     (if gb_buffer gl_buf \<noteq> 0 then
        sbind (vk_do (EDestroy KBuffer (gb_buffer gl_buf))) (\<lambda>_. vk_do (EDestroy KMemory (gb_memory gl_buf)))
      else sret ())"

definition glBufferData :: "profile \<Rightarrow> driver \<Rightarrow> memory_properties \<Rightarrow> u32 \<Rightarrow> u64 \<Rightarrow> (nat \<Rightarrow> u8) option \<Rightarrow> u32
    \<Rightarrow> unit gl" where
  "glBufferData p d mem_props target len data usage =
     (if sint len \<le> 0 then sret ()
      else with_bound target (\<lambda>key gl_buf.
        sbind (release_buffer gl_buf) (\<lambda>_.
        sbind (unwrapped (create d (BufferInfo len
          {if target = GL_ARRAY_BUFFER then VERTEX_BUFFER else INDEX_BUFFER, BUFFER_TRANSFER_DST}))) (\<lambda>buffer.
        sbind (sget (\<lambda>s. d_buffer_requirements d (history s) buffer)) (\<lambda>(req_size, req_bits).
        sbind (vk_do EQuery) (\<lambda>_.
        sbind (slift (host_type p mem_props req_bits [0..<unat (memory_type_count mem_props)])) (\<lambda>mem_type_index.
        sbind (unwrapped (create d (MemoryInfo
          \<lparr>mi_next = NoImport, mi_size = req_size, mi_type_index = mem_type_index\<rparr>))) (\<lambda>memory.
        sbind (unwrapped (vk_call (\<lambda>h. d_bind_buffer_memory d h buffer memory) (EBind buffer memory))) (\<lambda>_ :: unit.
        sbind (case data of None \<Rightarrow> sret () | Some bytes \<Rightarrow> write_mapped d memory 0 len bytes) (\<lambda>_.
        set_context (\<lambda>c. c\<lparr>gl_buffers := (gl_buffers c)(key \<mapsto>
          \<lparr>gb_buffer = buffer, gb_memory = memory, gb_size = len\<rparr>)\<rparr>)))))))))))"

definition glBufferSubData :: "driver \<Rightarrow> u32 \<Rightarrow> u64 \<Rightarrow> u64 \<Rightarrow> (nat \<Rightarrow> u8) option \<Rightarrow> unit gl" where
  "glBufferSubData d target off len data =
     (case data of
        None \<Rightarrow> sret ()
      | Some bytes \<Rightarrow>
          if sint len \<le> 0 then sret ()
          else with_bound target (\<lambda>key gl_buf.
            if gb_memory gl_buf \<noteq> 0 then write_mapped d (gb_memory gl_buf) off len bytes else sret ()))"

definition delete_one :: "u32 \<Rightarrow> unit gl" where
  "delete_one key =
     sbind (sget (\<lambda>s. gl_buffers (gl_ctx s) key)) (\<lambda>found.
     case found of
       None \<Rightarrow> sret ()
     | Some gl_buf \<Rightarrow>
         sbind (set_context (\<lambda>c. c\<lparr>gl_buffers := (gl_buffers c)(key := None)\<rparr>)) (\<lambda>_. release_buffer gl_buf))"

definition glDeleteBuffers :: "u32 \<Rightarrow> (nat \<Rightarrow> u32) option \<Rightarrow> unit gl" where
  "glDeleteBuffers n buffers =
     (case buffers of
        None \<Rightarrow> sret ()
      | Some ids \<Rightarrow>
          if sint n \<le> 0 then sret ()
          else sbind (sget g_shared_device) (\<lambda>shared.
            case shared of
              None \<Rightarrow> sret ()
            | Some _ \<Rightarrow> sbind get_context (\<lambda>_. seach (\<lambda>i. delete_one (ids i)) [0..<unat n])))"

definition glDrawElements :: "u32 \<Rightarrow> u32 \<Rightarrow> u32 \<Rightarrow> u64 \<Rightarrow> unit gl" where
  "glDrawElements mode n type_enum indices =
     (if sint n \<le> 0 \<or> mode \<noteq> GL_TRIANGLES \<or> type_enum \<noteq> GL_UNSIGNED_INT then sret ()
      else sbind (sget g_shared_device) (\<lambda>shared.
        case shared of
          None \<Rightarrow> sret ()
        | Some _ \<Rightarrow> sbind get_context (\<lambda>ctx.
            let vbo_id = bound_array_buffer ctx; ibo_id = bound_element_buffer ctx
            in if vbo_id = 0 \<or> ibo_id = 0 then sret ()
               else (case (gl_buffers ctx vbo_id, gl_buffers ctx ibo_id) of
                 (Some vbo, Some ibo) \<Rightarrow>
                   if gb_buffer vbo \<noteq> 0 \<and> gb_buffer ibo \<noteq> 0 then
                     sbind (vk_do (ECommand 0 (BindVertexBuffers 0 [gb_buffer vbo] [0]))) (\<lambda>_.
                     sbind (vk_do (ECommand 0 (BindIndexBuffer (gb_buffer ibo) indices))) (\<lambda>_.
                     vk_do (ECommand 0 (DrawIndexed n 1 0 0 0))))
                   else sret ()
               | _ \<Rightarrow> sret ()))))"

text \<open>The first host-visible and coherent type, and index 0, whatever it is, when there is none.\<close>

lemma host_type_spec:
  assumes "\<forall>i\<in>set is. i < length (memory_types mem_props)" and "length (memory_types mem_props) \<le> 32"
  shows "host_type p mem_props type_bits is =
    Inr (case find (fits mem_props type_bits HOST_MEMORY) is of Some i \<Rightarrow> of_nat i | None \<Rightarrow> 0)"
  using assms
proof (induction "is")
  case (Cons i "is")
  then have "i < 32" by simp
  then show ?case using Cons by (simp add: rust_shl_ok and_exp_eq_0_iff_not_bit fits_def)
qed simp

section \<open>Rules for the parts\<close>

definition unwrap_fault :: "'e fault \<Rightarrow> 'f fault" where
  "unwrap_fault e = (case e of Error _ \<Rightarrow> Panic Unwrapped | Panic r \<Rightarrow> Panic r | OutOfFuel \<Rightarrow> OutOfFuel)"

lemma wps_unwrapped [simp]: "wps (unwrapped m) Q E = wps m Q (\<lambda>e. E (unwrap_fault e))"
  by (auto simp: fun_eq_iff wps_def unwrapped_def sbind_def attempt_def sfail_def sret_def unwrap_fault_def
      split: prod.split sum.split fault.split)

lemma gl_ctx_simps [simp]:
  "gl_global s = Some c \<Longrightarrow> gl_ctx s = c" "gl_ctx (s\<lparr>history := h\<rparr>) = gl_ctx s"
  by (simp_all add: gl_ctx_def)

lemma wps_get_context [simp]: "wps get_context Q E = (\<lambda>s. Q (gl_ctx s) (s\<lparr>gl_global := Some (gl_ctx s)\<rparr>))"
  by (simp add: fun_eq_iff get_context_def)

lemma wps_set_context [simp]: "wps (set_context f) Q E = (\<lambda>s. Q () (s\<lparr>gl_global := Some (f (gl_ctx s))\<rparr>))"
  by (simp add: fun_eq_iff set_context_def)

section \<open>The books\<close>

definition buffer_ledger :: "gl_buffer \<Rightarrow> ledger" where
  "buffer_ledger b = opt_handle KBuffer (gb_buffer b) + opt_handle KMemory (gb_memory b)"

definition table_ledger :: "(u32 \<rightharpoonup> gl_buffer) \<Rightarrow> ledger" where
  "table_ledger m = (\<Sum>key\<in>dom m. buffer_ledger (the (m key)))"

lemma table_ledger_empty [simp]: "table_ledger Map.empty = {#}"
  by (simp add: table_ledger_def)

lemma table_ledger_update:
  assumes "finite (dom m)"
  shows "table_ledger (m(key \<mapsto> b)) = buffer_ledger b + table_ledger (m(key := None))"
proof -
  have "(\<Sum>k\<in>dom m - {key}. buffer_ledger (the ((m(key \<mapsto> b)) k))) = (\<Sum>k\<in>dom m - {key}. buffer_ledger (the ((m(key := None)) k)))"
    by (rule sum.cong) auto
  then show ?thesis using assms by (simp add: table_ledger_def sum.insert_remove)
qed

lemma table_ledger_entry:
  "finite (dom m) \<Longrightarrow> m key = Some b \<Longrightarrow> table_ledger m = buffer_ledger b + table_ledger (m(key := None))"
  using table_ledger_update [of m key b] by (simp add: map_upd_triv)

lemma table_ledger_absent: "m key = None \<Longrightarrow> m(key := None) = m"
  by auto

text \<open>
  The well-formed table: finite, the keys below the counter and not null, and a buffer has memory exactly when it
  has a Vulkan buffer.
\<close>

definition table_ok :: "gl_context \<Rightarrow> bool" where
  "table_ok c \<longleftrightarrow> finite (dom (gl_buffers c)) \<and> 0 < next_id c \<and>
     (\<forall>key b. gl_buffers c key = Some b \<longrightarrow> 0 < key \<and> key < next_id c \<and> (gb_buffer b = 0 \<longleftrightarrow> gb_memory b = 0))"

definition gl_books :: "ledger \<Rightarrow> gl_world \<Rightarrow> bool" where
  "gl_books own s \<longleftrightarrow> table_ok (gl_ctx s) \<and> holds (own + table_ledger (gl_buffers (gl_ctx s))) (history s)"

lemma gl_books_history:
  "gl_books own s \<Longrightarrow> gained ev = {#} \<Longrightarrow> lost ev = {#} \<Longrightarrow> gl_books own (record_event ev s)"
  by (simp add: gl_books_def)

lemma gl_books_get: "gl_books own s \<Longrightarrow> gl_books own (s\<lparr>gl_global := Some (gl_ctx s)\<rparr>)"
  by (simp add: gl_books_def)

lemma books_gen_one:
  assumes "gl_books own s"
  shows "wps (gen_one Dev) (\<lambda>_. gl_books own) (\<lambda>_ _. True) s"
proof -
  let ?c = "gl_ctx s"
  have c: "table_ok ?c" "holds (own + table_ledger (gl_buffers ?c)) (history s)"
    using assms by (simp_all add: gl_books_def)
  have fresh: "gl_buffers ?c (next_id ?c) = None"
    using c(1) by (cases "gl_buffers ?c (next_id ?c)") (auto simp: table_ok_def)
  have below: "unat (next_id ?c) + 1 < 2 ^ 32 \<Longrightarrow> key \<le> next_id ?c \<Longrightarrow> key < next_id ?c + 1" for key
    by (simp add: word_less_nat_alt word_le_nat_alt unat_word_ariths)
  have "0 < next_id ?c + 1" if "unat (next_id ?c) + 1 < 2 ^ 32"
    using below [OF that, of 0] by simp
  with c fresh below show ?thesis
    by (auto simp: gen_one_def rust_add_def gl_books_def table_ok_def table_ledger_update table_ledger_absent
        buffer_ledger_def order.strict_implies_order split: if_splits)
qed

lemma books_gen:
  assumes "gl_books own s"
  shows "wps (glGenBuffers Dev n buffers_null) (\<lambda>_. gl_books own) (\<lambda>_ _. True) s"
  using gl_books_get [OF assms] assms
  by (auto simp: glGenBuffers_def split: option.split
      intro!: wps_scollect [where I = "\<lambda>_ _. gl_books own"] books_gen_one)

lemma books_bind:
  "gl_books own s \<Longrightarrow> wps (glBindBuffer target buffer) (\<lambda>_. gl_books own) E s"
  by (auto simp: glBindBuffer_def gl_books_def table_ok_def)

text \<open>The early returns change nothing but that the context exists.\<close>

lemma wps_with_bound:
  assumes "gl_books own s"
    and "\<And>key b. gl_buffers (gl_ctx s) key = Some b \<Longrightarrow> current_id target (gl_ctx s) = Some key \<Longrightarrow>
      wps (k key b) (\<lambda>_. gl_books own) E (s\<lparr>gl_global := Some (gl_ctx s)\<rparr>)"
  shows "wps (with_bound target k) (\<lambda>_. gl_books own) E s"
  using assms gl_books_get [OF assms(1)] by (auto simp: with_bound_def split: option.split)

definition release_buffer_events :: "gl_buffer \<Rightarrow> history" where
  "release_buffer_events b = (if gb_buffer b \<noteq> 0
     then [EDestroy KMemory (gb_memory b), EDestroy KBuffer (gb_buffer b)] else [])"

lemma wps_release_buffer [simp]:
  "wps (release_buffer b) Q E = (\<lambda>s. Q () (s\<lparr>history := release_buffer_events b @ history s\<rparr>))"
  by (simp add: fun_eq_iff release_buffer_def release_buffer_events_def)

lemma holds_release_buffer:
  "(gb_buffer b = 0 \<longleftrightarrow> gb_memory b = 0) \<Longrightarrow>
    holds own (release_buffer_events b @ h) \<longleftrightarrow> holds (own + buffer_ledger b) h"
  by (auto simp: release_buffer_events_def buffer_ledger_def add_mset_commute)

text \<open>An entry whose handles are released leaves the books of the other entries.\<close>

lemma books_released:
  assumes "gl_books own s" and "gl_buffers (gl_ctx s) key = Some b"
  shows "holds (own + table_ledger ((gl_buffers (gl_ctx s))(key := None))) (release_buffer_events b @ history s)"
proof -
  let ?m = "gl_buffers (gl_ctx s)"
  have ok: "table_ok (gl_ctx s)" and books: "holds (own + table_ledger ?m) (history s)"
    using assms(1) by (simp_all add: gl_books_def)
  then have "table_ledger ?m = buffer_ledger b + table_ledger (?m(key := None))"
    using assms(2) by (intro table_ledger_entry) (simp_all add: table_ok_def)
  with ok assms(2) books show ?thesis by (subst holds_release_buffer) (auto simp: table_ok_def ac_simps)
qed

lemma books_delete_one:
  assumes "gl_books own s"
  shows "wps (delete_one key) (\<lambda>_ s'. gl_books own s' \<and> gl_buffers (gl_ctx s') = (gl_buffers (gl_ctx s))(key := None)) E s"
proof (cases "gl_buffers (gl_ctx s) key")
  case None
  then show ?thesis using assms by (simp add: delete_one_def table_ledger_absent)
next
  case (Some b)
  let ?m = "gl_buffers (gl_ctx s)"
  have ok: "table_ok (gl_ctx s)" using assms by (simp add: gl_books_def)
  have "holds (own + table_ledger (?m(key := None))) (release_buffer_events b @ history s)"
    using assms Some by (rule books_released)
  moreover have "table_ok ((gl_ctx s)\<lparr>gl_buffers := ?m(key := None)\<rparr>)"
    using ok by (auto simp: table_ok_def split: if_splits)
  ultimately show ?thesis using Some by (simp add: delete_one_def gl_books_def)
qed

lemma books_delete_all:
  assumes "gl_books own s"
  shows "wps (seach (\<lambda>i. delete_one (ids i)) is)
    (\<lambda>_ s'. gl_books own s' \<and> gl_buffers (gl_ctx s') = gl_buffers (gl_ctx s) |` (- ids ` set is)) E s"
  using assms
proof (induction "is" arbitrary: s)
  case (Cons i "is")
  show ?case
    unfolding seach.simps wps_sbind
    by (rule wps_mono [OF books_delete_one [OF Cons.prems, where E = E]])
      (rule wps_mono, rule Cons.IH, auto simp: restrict_map_def fun_eq_iff)
qed (simp add: restrict_map_def)

lemma books_write_mapped:
  "gl_books own s \<Longrightarrow> wps (write_mapped d memory off len data) (\<lambda>_. gl_books own) (\<lambda>_ _. True) s"
  by (auto simp: write_mapped_def gl_books_def intro!: wps_vk_call)

lemma books_sub_data:
  "gl_books own s \<Longrightarrow> wps (glBufferSubData d target off len data) (\<lambda>_. gl_books own) (\<lambda>_ _. True) s"
  by (auto simp: glBufferSubData_def split: option.split
      intro!: wps_with_bound books_write_mapped dest: gl_books_get)

text \<open>A fresh buffer takes the place of an entry whose handles have been released.\<close>

lemma books_replaced:
  assumes "table_ok c" and "gl_buffers c key = Some b" and "b' \<noteq> 0" "m' \<noteq> 0"
    and "gl_global s = Some (c\<lparr>gl_buffers := (gl_buffers c)(key \<mapsto> \<lparr>gb_buffer = b', gb_memory = m', gb_size = n\<rparr>)\<rparr>)"
    and "holds (add_mset (KMemory, m') (add_mset (KBuffer, b')
      (own + table_ledger ((gl_buffers c)(key := None))))) (history s)"
  shows "gl_books own s"
proof -
  have "finite (dom (gl_buffers c))" using assms(1) by (simp add: table_ok_def)
  from table_ledger_update [OF this] assms show ?thesis
    by (auto simp: gl_books_def table_ok_def buffer_ledger_def)
qed

lemma books_data:
  assumes "gl_books own s" and "nonnull_handles d"
  shows "wps (glBufferData p d mem_props target len data usage) (\<lambda>_. gl_books own) (\<lambda>_ _. True) s"
proof -
  let ?c = "gl_ctx s" and ?m = "gl_buffers (gl_ctx s)"
  have ok: "table_ok ?c" using assms(1) by (simp add: gl_books_def)
  note released = books_released [OF assms(1)]
  have handle: "d_create d h ci = Inr x \<Longrightarrow> x \<noteq> 0" for h ci x
    using assms(2) by (auto simp: nonnull_handles_def)
  have replaced: "gl_books own s'" if "?m key = Some b" "d_create d h1 ci1 = Inr b'" "d_create d h2 ci2 = Inr m'"
    "gl_global s' = Some (?c\<lparr>gl_buffers := ?m(key \<mapsto> \<lparr>gb_buffer = b', gb_memory = m', gb_size = len\<rparr>)\<rparr>)"
    "holds (add_mset (KMemory, m') (add_mset (KBuffer, b') (own + table_ledger (?m(key := None))))) (history s')"
    for s' key b h1 ci1 b' h2 ci2 m'
    by (rule books_replaced [OF ok that(1) handle [OF that(2)] handle [OF that(3)] that(4,5)])
  show ?thesis
    unfolding glBufferData_def
    by (auto simp: write_mapped_def assms(1) split: sum.split option.split prod.split
        intro!: wps_with_bound [OF assms(1)] wps_create wps_vk_call)
      (rule replaced, assumption, assumption, assumption, simp, simp add: released; fail)+
qed

lemma books_delete:
  assumes "gl_books own s"
  shows "wps (glDeleteBuffers n buffers) (\<lambda>_. gl_books own) E s"
proof -
  have "wps (seach (\<lambda>i. delete_one (ids i)) [0..<unat n]) (\<lambda>_. gl_books own) E (s\<lparr>gl_global := Some (gl_ctx s)\<rparr>)" for ids
    by (rule wps_mono [OF books_delete_all [OF gl_books_get [OF assms]]]) auto
  then show ?thesis using assms by (auto simp: glDeleteBuffers_def split: option.split)
qed

lemma books_draw:
  "gl_books own s \<Longrightarrow> wps (glDrawElements mode n type_enum indices) (\<lambda>_. gl_books own) E s"
  by (auto simp: glDrawElements_def Let_def gl_books_def split: option.split)

section \<open>Sequences of calls\<close>

datatype gl_op =
    GlGen u32 bool | GlBind u32 u32 | GlData u32 u64 "(nat \<Rightarrow> u8) option" u32
  | GlSubData u32 u64 u64 "(nat \<Rightarrow> u8) option" | GlDelete u32 "(nat \<Rightarrow> u32) option" | GlDraw u32 u32 u32 u64

fun gl_step :: "profile \<Rightarrow> driver \<Rightarrow> memory_properties \<Rightarrow> gl_op \<Rightarrow> unit gl" where
  "gl_step p d mem_props (GlGen n buffers_null) = sbind (glGenBuffers p n buffers_null) (\<lambda>_. sret ())"
| "gl_step p d mem_props (GlBind target buffer) = glBindBuffer target buffer"
| "gl_step p d mem_props (GlData target len data usage) = glBufferData p d mem_props target len data usage"
| "gl_step p d mem_props (GlSubData target off len data) = glBufferSubData d target off len data"
| "gl_step p d mem_props (GlDelete n buffers) = glDeleteBuffers n buffers"
| "gl_step p d mem_props (GlDraw mode n type_enum indices) = glDrawElements mode n type_enum indices"

lemma books_run:
  assumes "gl_books own s" and "nonnull_handles d"
  shows "wps (seach (gl_step Dev d mem_props) acts) (\<lambda>_. gl_books own) (\<lambda>_ _. True) s"
proof (rule wps_seach [where I = "\<lambda>_. gl_books own"])
  fix op rest and s' :: gl_world
  assume "gl_books own s'"
  then show "wps (gl_step Dev d mem_props op) (\<lambda>_. gl_books own) (\<lambda>_ _. True) s'"
    by (cases op) (simp_all add: books_gen books_bind books_data [OF _ assms(2)] books_sub_data books_delete books_draw)
qed (use assms in simp_all)

section \<open>What the memory of a buffer holds\<close>

text \<open>The byte last written at an off since the memory was allocated.\<close>

primrec contents :: "history \<Rightarrow> handle \<Rightarrow> nat \<Rightarrow> u8 option" where
  "contents [] memory i = None"
| "contents (ev # h) memory i =
     (case ev of
        EWrite m off bytes \<Rightarrow>
          if m = memory \<and> unat off \<le> i \<and> i < unat off + length bytes then Some (bytes ! (i - unat off))
          else contents h memory i
      | ECreate ci (Inr m) \<Rightarrow> if kind_of ci = KMemory \<and> m = memory then None else contents h memory i
      | _ \<Rightarrow> contents h memory i)"

definition bound_to :: "u32 \<Rightarrow> u32 \<Rightarrow> gl_buffer \<Rightarrow> gl_world \<Rightarrow> bool" where
  "bound_to target key b s \<longleftrightarrow> g_shared_device s \<noteq> None \<and> current_id target (gl_ctx s) = Some key \<and> key \<noteq> 0 \<and>
     gl_buffers (gl_ctx s) key = Some b"

lemma current_id_table [simp]: "current_id target (c\<lparr>gl_buffers := m\<rparr>) = current_id target c"
  by (simp add: current_id_def)

lemma wps_with_bound_to:
  assumes "bound_to target key b s"
  shows "wps (with_bound target k) Q E s \<longleftrightarrow> wps (k key b) Q E (s\<lparr>gl_global := Some (gl_ctx s)\<rparr>)"
  using assms by (auto simp: with_bound_def bound_to_def)

lemma data_contents:
  assumes "nonnull_handles d" and "0 < sint len" and "bound_to target key b s"
  shows "wps (glBufferData p d mem_props target len (Some data) usage)
    (\<lambda>_ s'. \<exists>b. bound_to target key b s' \<and> gb_size b = len \<and> gb_memory b \<noteq> 0 \<and>
      (\<forall>i. contents (history s') (gb_memory b) i = (if i < unat len then Some (data i) else None)))
    (\<lambda>_ _. True) s"
  using assms(2,3)
  by (auto simp: glBufferData_def wps_with_bound_to [OF assms(3)] write_mapped_def bound_to_def nonnullD [OF assms(1)]
      split: sum.split prod.split intro!: wps_create wps_vk_call)

lemma sub_data_contents:
  assumes "0 < sint len" and "bound_to target key b s" and "gb_memory b \<noteq> 0"
  shows "wps (glBufferSubData d target off len (Some data))
    (\<lambda>_ s'. bound_to target key b s' \<and> (\<forall>i. contents (history s') (gb_memory b) i =
      (if unat off \<le> i \<and> i < unat off + unat len then Some (data (i - unat off))
       else contents (history s) (gb_memory b) i))) (\<lambda>_ _. True) s"
  using assms
  by (auto simp: glBufferSubData_def wps_with_bound_to [OF assms(2)] write_mapped_def bound_to_def
      intro!: wps_vk_call)

text \<open>Deleting changes nothing in the context but the table.\<close>

lemma delete_one_context:
  "wps (delete_one key) (\<lambda>_ s'. gl_ctx s' = (gl_ctx s)\<lparr>gl_buffers := (gl_buffers (gl_ctx s))(key := None)\<rparr> \<and>
     g_shared_device s' = g_shared_device s) E s"
  by (cases "gl_buffers (gl_ctx s) key") (simp_all add: delete_one_def table_ledger_absent)

lemma delete_all_context:
  "wps (seach (\<lambda>i. delete_one (ids i)) is) (\<lambda>_ s'. gl_ctx s' =
     (gl_ctx s)\<lparr>gl_buffers := gl_buffers (gl_ctx s) |` (- ids ` set is)\<rparr> \<and> g_shared_device s' = g_shared_device s) E s"
proof (induction "is" arbitrary: s)
  case (Cons i "is")
  show ?case
    unfolding seach.simps wps_sbind
    by (rule wps_mono [OF delete_one_context [where E = E]])
      (rule wps_mono, rule Cons.IH, auto simp: restrict_map_def fun_eq_iff)
qed (simp add: restrict_map_def)

section \<open>Properties\<close>

text \<open>
  C11: The table keeps its books. In the checked profile (where the name counter cannot wrap) any sequence of
  the six entry points leaves exactly the buffers and memories that the table names, with the table well
  formed; and deleting the names of the table releases all of them, each once.
\<close>

theorem gl_lifetime:
  assumes "nonnull_handles d" and "gl_global s = None" and "holds own (history s)"
    and "seach (gl_step Dev d mem_props) acts s = (Inr (), s1)"
    and "g_shared_device s1 \<noteq> None" and "0 < sint n" and "dom (gl_buffers (gl_ctx s1)) \<subseteq> ids ` {..<unat n}"
    and "glDeleteBuffers n (Some ids) s1 = (Inr (), s2)"
  shows "table_ok (gl_ctx s1) \<and> holds (own + table_ledger (gl_buffers (gl_ctx s1))) (history s1) \<and>
    gl_buffers (gl_ctx s2) = Map.empty \<and> holds own (history s2)"
proof -
  have "gl_books own s"
    using assms(2,3) by (simp add: gl_books_def gl_ctx_def new_gl_context_def table_ok_def)
  from wps_value [OF books_run [OF this assms(1)] assms(4)] have books: "gl_books own s1" .
  from wps_value [OF books_delete_all [OF gl_books_get [OF this]]] assms(5-8)
  have s2: "gl_books own s2" and rest: "gl_buffers (gl_ctx s2) = gl_buffers (gl_ctx s1) |` (- ids ` set [0..<unat n])"
    by (fastforce simp: glDeleteBuffers_def get_context_def run_sbind run_simps)+
  from rest assms(7) have empty: "gl_buffers (gl_ctx s2) = Map.empty"
    by (auto simp: restrict_map_def fun_eq_iff dom_def atLeast0LessThan)
  with s2 have "holds own (history s2)" by (simp add: gl_books_def)
  with empty books show ?thesis by (simp add: gl_books_def)
qed

definition gl_start :: gl_world where
  "gl_start = \<lparr>history = [], objc_log = [], g_shared_device = Some demo_device, render_context = None,
     object_words = (\<lambda>_. 0), gl_global = None\<rparr>"

definition gl_demo_ops :: "gl_op list" where
  "gl_demo_ops = [GlGen 2 False, GlBind GL_ARRAY_BUFFER 1, GlBind GL_ELEMENT_ARRAY_BUFFER 2,
     GlData GL_ARRAY_BUFFER 4 (Some of_nat) 0, GlData GL_ELEMENT_ARRAY_BUFFER 12 None 0,
     GlDraw GL_TRIANGLES 3 GL_UNSIGNED_INT 0]"

lemmas gl_eval = glGenBuffers_def gen_one_def glBindBuffer_def glBufferData_def glBufferSubData_def with_bound_def
  current_id_def get_context_def set_context_def unwrapped_def write_mapped_def release_buffer_def delete_one_def
  glDeleteBuffers_def glDrawElements_def GL_ARRAY_BUFFER_def GL_ELEMENT_ARRAY_BUFFER_def GL_TRIANGLES_def
  GL_UNSIGNED_INT_def HOST_MEMORY_def contains_flags_def rust_shl_def gl_ctx_def new_gl_context_def

lemma gl_demo_run:
  "\<exists>s1. seach (gl_step Dev steady_driver demo_memory) gl_demo_ops gl_start = (Inr (), s1) \<and>
     g_shared_device s1 \<noteq> None \<and> dom (gl_buffers (gl_ctx s1)) = {2, 1}"
  unfolding gl_demo_ops_def gl_start_def
  by (simp add: context_eval gl_eval demo_memory_def cong: sbind_weak_cong)

theorem gl_lifetime_witness:
  "\<exists>s1 s2. seach (gl_step Dev steady_driver demo_memory) gl_demo_ops gl_start = (Inr (), s1) \<and>
     glDeleteBuffers 2 (Some (\<lambda>i. of_nat i + 1)) s1 = (Inr (), s2) \<and> holds {#} (history s2)"
proof -
  let ?ids = "\<lambda>i. of_nat i + 1 :: u32"
  obtain s1 where run: "seach (gl_step Dev steady_driver demo_memory) gl_demo_ops gl_start = (Inr (), s1)"
    and s1: "g_shared_device s1 \<noteq> None" "dom (gl_buffers (gl_ctx s1)) = {2, 1}"
    using gl_demo_run by blast
  have wps: "wps (glDeleteBuffers 2 (Some ?ids)) (\<lambda>_ _. True) (\<lambda>_ _. False) s1"
    using s1(1) by (auto simp: glDeleteBuffers_def intro: wps_mono [OF delete_all_context [where E = "\<lambda>_ _. False"]])
  then obtain s2 where del: "glDeleteBuffers 2 (Some ?ids) s1 = (Inr (), s2)" by (rule wps_total) simp
  have start: "gl_global gl_start = None" "holds {#} (history gl_start)" by (simp_all add: gl_start_def holds_def)
  have "{..<unat (2 :: u32)} = {0, 1}" by auto
  then have "dom (gl_buffers (gl_ctx s1)) \<subseteq> ?ids ` {..<unat (2 :: u32)}" using s1(2) by simp
  from gl_lifetime [OF steady_conforms(1) start run s1(1) _ this del] run del show ?thesis by simp
qed

text \<open>
  What an upload leaves. After \<^verbatim>\<open>glBufferData\<close> and \<^verbatim>\<open>glBufferSubData\<close> the
  memory of the bound buffer holds the first data overlaid with the second, and nothing else. The range of the
  second is not compared with the size of the buffer: bytes beyond it are written all the same.
\<close>

theorem gl_upload:
  assumes "nonnull_handles d" and "bound_to target key b s" and "0 < sint len" and "0 < sint n"
    and "glBufferData p d mem_props target len (Some data) usage s = (Inr (), s1)"
    and "glBufferSubData d target off n (Some patch) s1 = (Inr (), s2)"
  shows "\<exists>b. bound_to target key b s2 \<and> gb_size b = len \<and>
    (\<forall>i. contents (history s2) (gb_memory b) i =
      (if unat off \<le> i \<and> i < unat off + unat n then Some (patch (i - unat off))
       else if i < unat len then Some (data i) else None))"
proof -
  from wps_value [OF data_contents [OF assms(1,3,2)] assms(5)] obtain b where
    b: "bound_to target key b s1" "gb_size b = len" "gb_memory b \<noteq> 0"
      "\<And>i. contents (history s1) (gb_memory b) i = (if i < unat len then Some (data i) else None)" by blast
  from wps_value [OF sub_data_contents [OF assms(4) b(1,3)] assms(6)] b(2,4) show ?thesis by auto
qed

text \<open>A patch that starts at the last byte of four and is three bytes long.\<close>

theorem gl_upload_witness:
  "\<exists>(b :: gl_buffer) (s2 :: gl_world). gb_size b = 4 \<and> contents (history s2) (gb_memory b) 2 = Some 2 \<and>
     contents (history s2) (gb_memory b) 5 = Some 9"
proof -
  let ?d = steady_driver and ?b = "\<lparr>gb_buffer = 0, gb_memory = 0, gb_size = 0\<rparr>"
  let ?s = "gl_start\<lparr>gl_global := Some (new_gl_context\<lparr>gl_buffers := [1 \<mapsto> ?b], bound_array_buffer := 1\<rparr>)\<rparr>"
  have bound: "bound_to GL_ARRAY_BUFFER 1 ?b ?s" by (simp add: bound_to_def current_id_def gl_start_def)
  have "\<exists>s1. glBufferData Dev ?d demo_memory GL_ARRAY_BUFFER 4 (Some of_nat) 0 ?s = (Inr (), s1) \<and>
    (\<exists>s2. glBufferSubData ?d GL_ARRAY_BUFFER 3 3 (Some (\<lambda>_. 9)) s1 = (Inr (), s2))"
    by (simp add: context_eval gl_eval demo_memory_def gl_start_def cong: sbind_weak_cong)
  then obtain s1 s2 where run: "glBufferData Dev ?d demo_memory GL_ARRAY_BUFFER 4 (Some of_nat) 0 ?s = (Inr (), s1)"
    "glBufferSubData ?d GL_ARRAY_BUFFER 3 3 (Some (\<lambda>_. 9)) s1 = (Inr (), s2)" by blast
  have "0 < sint (4 :: u64)" "0 < sint (3 :: u64)" by simp_all
  from gl_upload [OF steady_conforms(1) bound this run] obtain b :: gl_buffer where "gb_size b = 4"
    and "\<forall>i. contents (history s2) (gb_memory b) i = (if unat (3 :: u64) \<le> i \<and> i < unat (3 :: u64) + unat (3 :: u64)
      then Some 9 else if i < unat (4 :: u64) then Some (of_nat i) else None)"
    by blast
  then show ?thesis by (intro exI [of _ b] exI [of _ s2]) simp
qed

text \<open>
  \<^verbatim>\<open>glDrawElements\<close> records its three commands exactly when both bindings name uploaded
  buffers, and it records them into the null command buffer: nothing it draws can ever be submitted.
\<close>

theorem gl_draw_effect:
  "history (snd (glDrawElements mode n type_enum indices s)) =
    (if 0 < sint n \<and> mode = GL_TRIANGLES \<and> type_enum = GL_UNSIGNED_INT then
       (case (g_shared_device s, gl_buffers (gl_ctx s) (bound_array_buffer (gl_ctx s)),
            gl_buffers (gl_ctx s) (bound_element_buffer (gl_ctx s))) of
          (Some _, Some vbo, Some ibo) \<Rightarrow>
            if bound_array_buffer (gl_ctx s) \<noteq> 0 \<and> bound_element_buffer (gl_ctx s) \<noteq> 0 \<and>
              gb_buffer vbo \<noteq> 0 \<and> gb_buffer ibo \<noteq> 0
            then [ECommand 0 (DrawIndexed n 1 0 0 0), ECommand 0 (BindIndexBuffer (gb_buffer ibo) indices),
              ECommand 0 (BindVertexBuffers 0 [gb_buffer vbo] [0])]
            else []
        | _ \<Rightarrow> [])
     else []) @ history s"
  by (auto simp: glDrawElements_def get_context_def run_sbind run_simps run_vk_do Let_def sbind_def split: option.split)

text \<open>
  Deleting a bound buffer leaves its name bound, where OpenGL resets the binding to zero. The name is not
  in the table any more, so every later upload to that target is silently dropped.
\<close>

theorem gl_delete_keeps_binding:
  assumes "g_shared_device s \<noteq> None" and "0 < sint n" and "key \<in> ids ` {..<unat n}"
    and "current_id target (gl_ctx s) = Some key"
    and "glDeleteBuffers n (Some ids) s = (Inr (), s1)"
  shows "current_id target (gl_ctx s1) = Some key \<and>
    history (snd (glBufferData p d mem_props target len data usage s1)) = history s1"
proof -
  have "seach (\<lambda>i. delete_one (ids i)) [0..<unat n] (s\<lparr>gl_global := Some (gl_ctx s)\<rparr>) = (Inr (), s1)"
    using assms(1,2,5) by (auto simp: glDeleteBuffers_def get_context_def run_sbind run_simps)
  from wps_value [OF delete_all_context this] assms(3,4)
  have "current_id target (gl_ctx s1) = Some key" "gl_buffers (gl_ctx s1) key = None"
    by (auto simp: restrict_map_def atLeast0LessThan)
  then show ?thesis
    by (auto simp: glBufferData_def with_bound_def get_context_def run_sbind run_simps sbind_def
        split: if_splits option.splits)
qed

theorem gl_delete_keeps_binding_witness:
  "\<exists>s1. glDeleteBuffers 1 (Some (\<lambda>_. 1)) (gl_start\<lparr>gl_global := Some (new_gl_context\<lparr>bound_array_buffer := 1\<rparr>)\<rparr>)
     = (Inr (), s1) \<and> current_id GL_ARRAY_BUFFER (gl_ctx s1) = Some 1"
proof -
  let ?s = "gl_start\<lparr>gl_global := Some (new_gl_context\<lparr>bound_array_buffer := 1\<rparr>)\<rparr>"
  have "\<exists>s1. glDeleteBuffers 1 (Some (\<lambda>_. 1)) ?s = (Inr (), s1)"
    by (simp add: context_eval gl_eval gl_start_def cong: sbind_weak_cong)
  then obtain s1 where run: "glDeleteBuffers 1 (Some (\<lambda>_. 1)) ?s = (Inr (), s1)" by blast
  have "g_shared_device ?s \<noteq> None" "current_id GL_ARRAY_BUFFER (gl_ctx ?s) = Some 1"
    by (simp_all add: gl_start_def current_id_def)
  from gl_delete_keeps_binding [OF this(1) _ _ this(2) run] run show ?thesis by auto
qed

end
