(* ===== verification/Swizzle.thy ===== *)
theory Swizzle
  imports Objc
begin

text \<open>
  The installation of the crate's methods into the Objective-C runtime, \<^verbatim>\<open>install\<close> of
  \<^verbatim>\<open>src/bridge/swizzle.rs\<close>. A class that does not exist is allocated, given the methods and
  registered; the methods of a class that does exist are replaced.
\<close>

section \<open>Operations\<close>

datatype swizzle_error = ClassAllocationFailed string | MethodAddFailed string

type_synonym 's swizzle = "('s host_world_scheme, swizzle_error, unit) smonad"

definition ensure_class :: "objc_runtime \<Rightarrow> string \<Rightarrow> string
    \<Rightarrow> ('s host_world_scheme, swizzle_error, obj \<times> bool) smonad" where
  "ensure_class rt name superclass_name =
     sbind (class_named rt name) (\<lambda>existing.
     if existing \<noteq> 0 then sret (existing, False)
     else sbind (class_named rt superclass_name) (\<lambda>super_cls.
       sbind (objc_call (\<lambda>l. rt_allocate_class rt l super_cls name) (AllocateClass super_cls name)) (\<lambda>cls.
       if cls = 0 then sfail (Error (ClassAllocationFailed name)) else sret (cls, True))))"

definition add_or_replace :: "objc_runtime \<Rightarrow> obj \<Rightarrow> string \<Rightarrow> imp \<Rightarrow> string \<Rightarrow> bool \<Rightarrow> 's swizzle" where
  "add_or_replace rt cls sel_name imp types fresh =
     (if fresh then
        sbind (objc_call (\<lambda>l. rt_add_method rt l cls sel_name) (AddMethod cls sel_name imp types)) (\<lambda>ok.
        if ok then sret () else sfail (Error (MethodAddFailed sel_name)))
      else supd (\<lambda>s. s\<lparr>objc_log := ReplaceMethod cls sel_name imp types # objc_log s\<rparr>))"

definition object_get_class :: "objc_runtime \<Rightarrow> obj \<Rightarrow> ('s host_world_scheme, 'e, obj) smonad" where
  "object_get_class rt cls = objc_call (\<lambda>l. rt_meta_class rt l cls) (MetaClass cls)"

definition register_class :: "obj \<Rightarrow> ('s host_world_scheme, 'e, unit) smonad" where
  "register_class cls = supd (\<lambda>s. s\<lparr>objc_log := RegisterClass cls # objc_log s\<rparr>)"

text \<open>A method to install: whether it belongs to the metaclass, its selector, function and type encoding.\<close>

type_synonym method_entry = "bool \<times> string \<times> imp \<times> string"

text \<open>
  What the four installers share behind \<open>ensure_class\<close>: the methods, in order, up to the first that is
  refused, and the registration of a new class.
\<close>

definition install_methods :: "objc_runtime \<Rightarrow> obj \<Rightarrow> obj \<Rightarrow> bool \<Rightarrow> method_entry list \<Rightarrow> 's swizzle" where
  "install_methods rt cls meta fresh entries =
     sbind (seach (\<lambda>(on_meta, sel_name, imp, types).
       add_or_replace rt (if on_meta then meta else cls) sel_name imp types fresh) entries) (\<lambda>_.
     if fresh then register_class cls else sret ())"

abbreviation rect_type :: string where
  "rect_type \<equiv> ''{CGRect={CGPoint=dd}{CGSize=dd}}''"

definition nsapplication_methods :: "method_entry list" where
  "nsapplication_methods =
     [(True, ''sharedApplication'', SharedApplicationImpl, ''@@:''),
      (False, ''run'', RunImpl, ''v@:''),
      (False, ''terminate:'', ApplicationTerminate, ''v@:@'')]"

definition install_nsapplication :: "objc_runtime \<Rightarrow> 's swizzle" where
  "install_nsapplication rt =
     sbind (ensure_class rt ''NSApplication'' ''NSObject'') (\<lambda>(cls, fresh).
     sbind (object_get_class rt cls) (\<lambda>meta.
     install_methods rt cls meta fresh nsapplication_methods))"

definition nswindow_methods :: "method_entry list" where
  "nswindow_methods =
     [(False, ''initWithContentRect:styleMask:backing:defer:'', WindowInit, ''@@:'' @ rect_type @ ''LLB''),
      (False, ''setTitle:'', WindowSetTitle, ''v@:@''),
      (False, ''setDelegate:'', WindowSetDelegate, ''v@:@''),
      (False, ''makeKeyAndOrderFront:'', WindowMakeKeyAndOrderFront, ''v@:@''),
      (False, ''frame'', WindowFrame, rect_type @ ''@:''),
      (False, ''setFrame:display:'', WindowSetFrameDisplay, ''v@:'' @ rect_type @ ''B''),
      (False, ''orderOut:'', WindowOrderOut, ''v@:@''),
      (False, ''close'', WindowClose, ''v@:''),
      (False, ''contentView'', WindowContentView, ''@@:''),
      (False, ''center'', WindowCenter, ''v@:''),
      (False, ''styleMask'', WindowStyleMask, ''L@:'')]"

definition install_nswindow :: "objc_runtime \<Rightarrow> 's swizzle" where
  "install_nswindow rt =
     sbind (ensure_class rt ''NSWindow'' ''NSResponder'') (\<lambda>(cls, fresh).
     install_methods rt cls 0 fresh nswindow_methods)"

definition nsview_methods :: "method_entry list" where
  "nsview_methods =
     [(False, ''setWantsLayer:'', ViewSetWantsLayer, ''v@:B''),
      (False, ''wantsLayer'', ViewWantsLayer, ''B@:''),
      (False, ''layer'', ViewLayer, ''@@:''),
      (False, ''setLayer:'', ViewSetLayer, ''v@:@''),
      (False, ''frame'', ViewFrame, rect_type @ ''@:''),
      (False, ''bounds'', ViewBounds, rect_type @ ''@:''),
      (False, ''window'', ViewWindow, ''@@:'')]"

definition install_nsview :: "objc_runtime \<Rightarrow> 's swizzle" where
  "install_nsview rt =
     sbind (ensure_class rt ''NSView'' ''NSResponder'') (\<lambda>(cls, fresh).
     install_methods rt cls 0 fresh nsview_methods)"

definition nsscreen_methods :: "method_entry list" where
  "nsscreen_methods =
     [(True, ''screens'', ScreensFunc, ''@@:''),
      (True, ''mainScreen'', MainScreenFunc, ''@@:''),
      (False, ''frame'', ScreenFrame, rect_type @ ''@:''),
      (False, ''backingScaleFactor'', ScreenBackingScaleFactor, ''d@:'')]"

definition install_nsscreen :: "objc_runtime \<Rightarrow> 's swizzle" where
  "install_nsscreen rt =
     sbind (ensure_class rt ''NSScreen'' ''NSObject'') (\<lambda>(cls, fresh).
     sbind (object_get_class rt cls) (\<lambda>meta.
     install_methods rt cls meta fresh nsscreen_methods))"

definition install :: "objc_runtime \<Rightarrow> 's swizzle" where
  "install rt =
     sbind (install_nsapplication rt) (\<lambda>_.
     sbind (install_nswindow rt) (\<lambda>_.
     sbind (install_nsview rt) (\<lambda>_.
     install_nsscreen rt)))"

section \<open>What an installation leaves\<close>

definition method_event :: "obj \<Rightarrow> obj \<Rightarrow> bool \<Rightarrow> method_entry \<Rightarrow> objc_event" where
  "method_event cls meta fresh = (\<lambda>(on_meta, sel_name, imp, types).
     if fresh then AddMethod (if on_meta then meta else cls) sel_name imp types True
     else ReplaceMethod (if on_meta then meta else cls) sel_name imp types)"

text \<open>The class of a name has all methods of its table: a new one added and registered, an old one replaced.\<close>

definition installed :: "string \<Rightarrow> method_entry list \<Rightarrow> objc_event list \<Rightarrow> bool" where
  "installed name entries l \<longleftrightarrow> (\<exists>cls meta fresh. cls \<noteq> 0 \<and>
     (if fresh then (\<exists>sup. AllocateClass sup name cls \<in> set l) \<and> RegisterClass cls \<in> set l
      else GetClass name cls \<in> set l) \<and>
     (\<forall>entry\<in>set entries. (fst entry \<longrightarrow> MetaClass cls meta \<in> set l) \<and> method_event cls meta fresh entry \<in> set l))"

definition unregistered :: "objc_event list \<Rightarrow> bool" where
  "unregistered l \<longleftrightarrow> (\<forall>cls. RegisterClass cls \<notin> set l)"

lemma unregistered_simps [simp]:
  "unregistered []" "unregistered (ev # l) \<longleftrightarrow> (\<forall>cls. ev \<noteq> RegisterClass cls) \<and> unregistered l"
  "unregistered (l @ l') \<longleftrightarrow> unregistered l \<and> unregistered l'"
  by (auto simp: unregistered_def)

lemma wps_add_or_replace [simp]:
  "wps (add_or_replace rt cls sel_name imp types fresh) Q E = (\<lambda>s.
     if fresh then
       if rt_add_method rt (objc_log s) cls sel_name
       then Q () (s\<lparr>objc_log := AddMethod cls sel_name imp types True # objc_log s\<rparr>)
       else E (Error (MethodAddFailed sel_name)) (s\<lparr>objc_log := AddMethod cls sel_name imp types False # objc_log s\<rparr>)
     else Q () (s\<lparr>objc_log := ReplaceMethod cls sel_name imp types # objc_log s\<rparr>))"
  by (auto simp: fun_eq_iff add_or_replace_def)

text \<open>The methods of a class one by one: all of them, or up to one that is refused.\<close>

lemma wps_methods:
  fixes s :: "'s host_world_scheme"
  shows "wps (seach (\<lambda>(on_meta, sel_name, imp, types).
       add_or_replace rt (if on_meta then meta else cls) sel_name imp types fresh) entries)
     (\<lambda>_ s'. \<exists>l. objc_log s' = l @ objc_log s \<and> unregistered l \<and> (\<forall>entry\<in>set entries. method_event cls meta fresh entry \<in> set l))
     (\<lambda>e s'. fresh \<and> (\<exists>sel_name c imp types l. e = Error (MethodAddFailed sel_name) \<and> unregistered l \<and>
       objc_log s' = AddMethod c sel_name imp types False # l @ objc_log s)) s"
proof (induction entries arbitrary: s)
  case (Cons entry entries)
  obtain on_meta sel_name imp types where entry: "entry = (on_meta, sel_name, imp, types)" by (cases entry) auto
  have ih: "wps (seach (\<lambda>(on_meta, sel_name, imp, types).
       add_or_replace rt (if on_meta then meta else cls) sel_name imp types fresh) entries)
     (\<lambda>_ s'. \<exists>l. objc_log s' = l @ objc_log s \<and> unregistered l \<and>
       (\<forall>entry\<in>set (entry # entries). method_event cls meta fresh entry \<in> set l))
     (\<lambda>e s'. fresh \<and> (\<exists>sel_name c imp types l. e = Error (MethodAddFailed sel_name) \<and> unregistered l \<and>
       objc_log s' = AddMethod c sel_name imp types False # l @ objc_log s)) s1"
    if "objc_log s1 = method_event cls meta fresh entry # objc_log s" for s1 :: "'s host_world_scheme"
  proof (rule wps_mono [OF Cons.IH], goal_cases)
    case (1 x s')
    then obtain l where "objc_log s' = l @ objc_log s1" "unregistered l"
      "\<forall>entry\<in>set entries. method_event cls meta fresh entry \<in> set l" by blast
    with that show ?case
      by (intro exI [of _ "l @ [method_event cls meta fresh entry]"]) (auto simp: method_event_def split: prod.split)
  next
    case (2 e s')
    then obtain sel_name c imp types l where "fresh" "e = Error (MethodAddFailed sel_name)" "unregistered l"
      "objc_log s' = AddMethod c sel_name imp types False # l @ objc_log s1" by blast
    with that show ?case
      by (intro conjI exI [of _ "l @ [method_event cls meta fresh entry]"] exI)
        (auto simp: method_event_def split: prod.split)
  qed
  show ?case
    using ih by (auto simp: entry method_event_def intro!: exI [of _ "[]"])
qed (auto intro: exI [of _ "[]"])

lemma installed_mono: "installed name entries l \<Longrightarrow> set l \<subseteq> set l' \<Longrightarrow> installed name entries l'"
  unfolding installed_def
proof (elim exE, goal_cases)
  case (1 cls meta fresh)
  then show ?case
    by (intro exI [of _ cls] exI [of _ meta] exI [of _ fresh]) (cases fresh; auto)
qed

text \<open>What an installer may fail with: no class, or a refused method of a class that stays unregistered.\<close>

definition half_built :: "swizzle_error fault \<Rightarrow> objc_event list \<Rightarrow> bool" where
  "half_built e l \<longleftrightarrow> (\<exists>name. e = Error (ClassAllocationFailed name)) \<or>
     (\<exists>sel_name c imp types l1 sup name cls l2. e = Error (MethodAddFailed sel_name) \<and> unregistered l1 \<and>
       l = AddMethod c sel_name imp types False # l1 @ AllocateClass sup name cls # l2)"

text \<open>The methods of a class, from a log whose newest calls \<open>recent\<close> got the class and its metaclass.\<close>

lemma wps_install_methods:
  fixes s :: "'s host_world_scheme"
  assumes "objc_log s = recent @ ev # base" and "unregistered recent" and "cls \<noteq> 0"
    and "ev = (if fresh then AllocateClass super_cls name cls else GetClass name cls)"
    and "\<forall>entry\<in>set entries. fst entry \<longrightarrow> MetaClass cls meta \<in> set recent"
  shows "wps (install_methods rt cls meta fresh entries)
    (\<lambda>_ s'. \<exists>l. objc_log s' = l @ base \<and> installed name entries l) (\<lambda>e s'. half_built e (objc_log s')) s"
proof -
  have inst: "installed name entries (l' @ l @ recent @ [ev])"
    if "\<forall>entry\<in>set entries. method_event cls meta fresh entry \<in> set l" "fresh \<Longrightarrow> RegisterClass cls \<in> set l'" for l l'
    unfolding installed_def
    by (intro exI [of _ cls] exI [of _ meta] exI [of _ fresh]) (use that assms(3-5) in auto)
  show ?thesis
    unfolding install_methods_def wps_sbind
  proof (rule wps_mono [OF wps_methods], goal_cases)
    case (1 x s')
    then obtain l where l: "objc_log s' = l @ recent @ [ev] @ base"
      "\<forall>entry\<in>set entries. method_event cls meta fresh entry \<in> set l" using assms(1) by auto
    show ?case
      using inst [OF l(2), of "[RegisterClass cls]"] inst [OF l(2), of "[]"] l(1)
      by (cases fresh) (auto simp: register_class_def intro!: exI [of _ "RegisterClass cls # l @ recent @ [ev]"] exI [of _ "l @ recent @ [ev]"])
  next
    case (2 e s')
    then obtain sel_name c imp types l where l: "e = Error (MethodAddFailed sel_name)" "unregistered l" "fresh"
      "objc_log s' = AddMethod c sel_name imp types False # l @ recent @ ev # base" using assms(1) by auto
    then show ?case
      unfolding half_built_def using assms(2,4)
      by (intro disjI2 exI [of _ sel_name] exI [of _ c] exI [of _ imp] exI [of _ types] exI [of _ "l @ recent"] exI) auto
  qed
qed

text \<open>What a part of the installation promises; for one class, with its metaclass or without; and one after the other.\<close>

definition installs :: "'s swizzle \<Rightarrow> (string \<times> method_entry list) list \<Rightarrow> bool" where
  "installs m tables \<longleftrightarrow> (\<forall>s. wps m
     (\<lambda>_ s'. \<exists>l. objc_log s' = l @ objc_log s \<and> (\<forall>(name, entries)\<in>set tables. installed name entries l))
     (\<lambda>e s'. half_built e (objc_log s')) s)"

lemma wps_ensure_class:
  fixes s :: "'s host_world_scheme"
  assumes "\<And>cls fresh sup base s1. cls \<noteq> 0 \<Longrightarrow>
      objc_log s1 = (if fresh then AllocateClass sup name cls else GetClass name cls) # base @ objc_log s \<Longrightarrow> Q (cls, fresh) s1"
    and "\<And>s1. E (Error (ClassAllocationFailed name)) s1"
  shows "wps (ensure_class rt name super_cls) Q E s"
  by (auto simp: ensure_class_def intro!: assms(2) assms(1) [where base = "[]" and fresh = False]
    assms(1) [where base = "[_, _]" and fresh = True])

lemma installs_class:
  assumes "\<forall>entry\<in>set entries. fst entry \<longrightarrow> with_meta"
  shows "installs (sbind (ensure_class rt name super_name) (\<lambda>(cls, fresh).
    sbind (if with_meta then object_get_class rt cls else sret 0) (\<lambda>meta.
    install_methods rt cls meta fresh entries))) [(name, entries)]"
proof -
  have methods: "wps (install_methods rt cls meta fresh entries)
      (\<lambda>_ s'. \<exists>l. objc_log s' = l @ objc_log s \<and> installed name entries l) (\<lambda>e s'. half_built e (objc_log s')) s1"
    if "cls \<noteq> 0" "with_meta \<longrightarrow> MetaClass cls meta \<in> set recent" "unregistered recent"
      "objc_log s1 = recent @ (if fresh then AllocateClass sup name cls else GetClass name cls) # base @ objc_log s"
    for cls meta fresh sup base recent and s s1 :: "'a host_world_scheme"
  proof (rule wps_mono [OF wps_install_methods [OF that(4) that(3,1) refl]])
    show "\<forall>entry\<in>set entries. fst entry \<longrightarrow> MetaClass cls meta \<in> set recent" using assms that(2) by auto
    show "\<exists>l. objc_log s' = l @ objc_log s \<and> installed name entries l"
      if "\<exists>l. objc_log s' = l @ base @ objc_log s \<and> installed name entries l" for s' :: "'a host_world_scheme"
    proof -
      from that obtain l where "objc_log s' = (l @ base) @ objc_log s" "installed name entries l" by auto
      then show ?thesis using installed_mono [of name entries l "l @ base"] by auto
    qed
  qed
  show ?thesis
    unfolding installs_def wps_sbind list.set ball_simps prod.case
  proof (intro allI wps_ensure_class, goal_cases)
    case (1 s cls fresh sup base s1)
    show ?case
    proof (cases with_meta)
      case True
      then show ?thesis
        using 1 by (auto simp: object_get_class_def intro!: methods [where recent = "[MetaClass cls (rt_meta_class rt (objc_log s1) cls)]"])
    next
      case False
      then show ?thesis using 1 by (auto intro!: methods [where recent = "[]"])
    qed
  qed (simp add: half_built_def)
qed

lemma sbind_sret: "sbind (sret x) f = f x"
  by (simp add: fun_eq_iff run_sbind)

lemma installers:
  "installs (install_nsapplication rt) [(''NSApplication'', nsapplication_methods)]"
  "installs (install_nswindow rt) [(''NSWindow'', nswindow_methods)]"
  "installs (install_nsview rt) [(''NSView'', nsview_methods)]"
  "installs (install_nsscreen rt) [(''NSScreen'', nsscreen_methods)]"
proof -
  have flat: "\<forall>entry\<in>set nswindow_methods. fst entry \<longrightarrow> False" "\<forall>entry\<in>set nsview_methods. fst entry \<longrightarrow> False"
    by (simp_all add: nswindow_methods_def nsview_methods_def)
  show "installs (install_nswindow rt) [(''NSWindow'', nswindow_methods)]"
    unfolding install_nswindow_def using installs_class [OF flat(1)] by (simp add: sbind_sret)
  show "installs (install_nsview rt) [(''NSView'', nsview_methods)]"
    unfolding install_nsview_def using installs_class [OF flat(2)] by (simp add: sbind_sret)
  show "installs (install_nsapplication rt) [(''NSApplication'', nsapplication_methods)]"
    unfolding install_nsapplication_def using installs_class [where with_meta = True] by simp
  show "installs (install_nsscreen rt) [(''NSScreen'', nsscreen_methods)]"
    unfolding install_nsscreen_def using installs_class [where with_meta = True] by simp
qed

definition method_tables :: "(string \<times> method_entry list) list" where
  "method_tables = [(''NSApplication'', nsapplication_methods), (''NSWindow'', nswindow_methods),
     (''NSView'', nsview_methods), (''NSScreen'', nsscreen_methods)]"

lemma installs_sbind:
  fixes m :: "'s swizzle"
  assumes "installs m tables" and "installs m' tables'"
  shows "installs (sbind m (\<lambda>_. m')) (tables @ tables')"
  unfolding installs_def wps_sbind
proof (intro allI, rule wps_mono [OF assms(1) [unfolded installs_def, rule_format]], goal_cases)
  case (1 s x s1)
  then obtain l where l: "objc_log s1 = l @ objc_log s" "\<forall>(name, entries)\<in>set tables. installed name entries l" by blast
  show ?case
  proof (rule wps_mono [OF assms(2) [unfolded installs_def, rule_format]], goal_cases)
    case (1 y s2)
    then obtain l' where l': "objc_log s2 = l' @ objc_log s1" "\<forall>(name, entries)\<in>set tables'. installed name entries l'" by blast
    have "installed name entries (l' @ l)" if "(name, entries) \<in> set (tables @ tables')" for name entries
      using that l(2) l'(2) by (auto elim!: installed_mono)
    with l l' show ?case by (intro exI [of _ "l' @ l"]) auto
  qed
qed

lemma installs_install: "installs (install rt) method_tables"
  unfolding install_def
  using installs_sbind [OF installers(1) installs_sbind [OF installers(2) installs_sbind [OF installers(3,4)]]]
  by (simp add: method_tables_def)

lemmas installer_defs = install_nsapplication_def install_nswindow_def install_nsview_def install_nsscreen_def

section \<open>Properties\<close>

text \<open>
  C24: What the installation leaves. If \<^verbatim>\<open>install\<close> succeeds, every method of the four tables has been
  given to its class or metaclass: added to a class that was then registered, if there was none of that name, and
  replaced in the existing class otherwise. If it fails at a method, the class it was building is left
  allocated and unregistered, and what was installed before stays.
\<close>

theorem install_outcome:
  "case install rt s of
     (Inr _, s') \<Rightarrow> \<exists>l. objc_log s' = l @ objc_log s \<and> (\<forall>(name, entries)\<in>set method_tables. installed name entries l)
   | (Inl e, s') \<Rightarrow> half_built e (objc_log s')"
  using installs_install [of rt] unfolding installs_def wps_def by (auto split: prod.splits sum.splits)

theorem install_outcome_witness:
  "\<exists>s'. install demo_runtime \<lparr>history = [], objc_log = []\<rparr> = (Inr (), s') \<and>
     installed ''NSView'' nsview_methods (objc_log s')"
proof -
  let ?s = "\<lparr>history = [], objc_log = []\<rparr>"
  have "\<exists>s'. install demo_runtime ?s = (Inr (), s')"
    unfolding install_def installer_defs
    by (simp add: ensure_class_def install_methods_def add_or_replace_def object_get_class_def register_class_def
        nsapplication_methods_def nswindow_methods_def nsview_methods_def nsscreen_methods_def demo_runtime_def
        objc_eval cong: sbind_weak_cong)
  then obtain s' where run: "install demo_runtime ?s = (Inr (), s')" by blast
  from install_outcome [where rt = demo_runtime and s = ?s] run show ?thesis by (auto simp: method_tables_def)
qed

end
