(* ===== verification/Windows.thy ===== *)
theory Windows
  imports Complex_Main Swizzle
begin

text \<open>
  The windows, views and screens the methods of \<^verbatim>\<open>src/bridge/swizzle.rs\<close> implement, over the
  window table and the monitor table of \<^verbatim>\<open>src/frameworks/appkit.rs\<close>. A method that sends a message
  to a delegate does so last, with no lock held, so what the delegate does in return is the next operation
  of the sequence.
\<close>

section \<open>Geometry\<close>

text \<open>A double: the two infinities, the quiet NaN, and the finite values, of which the signed zeros are one.\<close>

datatype f64 = NaN | PosInf | NegInf | Finite rat

text \<open>IEEE equality, under which NaN differs from itself.\<close>

definition f64_eq :: "f64 \<Rightarrow> f64 \<Rightarrow> bool" where
  "f64_eq a b \<longleftrightarrow> a \<noteq> NaN \<and> a = b"

text \<open>The cast \<^verbatim>\<open>as u32\<close>: it truncates, saturates, and maps NaN to zero.\<close>

fun as_u32 :: "f64 \<Rightarrow> u32" where
  "as_u32 NaN = 0"
| "as_u32 PosInf = - 1"
| "as_u32 NegInf = 0"
| "as_u32 (Finite x) = (if x \<le> 0 then 0 else if 4294967295 \<le> x then - 1 else of_int \<lfloor>x\<rfloor>)"

record ns_point =
  pt_x :: f64
  pt_y :: f64

record ns_size =
  sz_width :: f64
  sz_height :: f64

record ns_rect =
  r_origin :: ns_point
  r_size :: ns_size

definition default_point :: ns_point where
  "default_point = \<lparr>pt_x = Finite 0, pt_y = Finite 0\<rparr>"

definition default_rect :: ns_rect where
  "default_rect = \<lparr>r_origin = default_point, r_size = \<lparr>sz_width = Finite 0, sz_height = Finite 0\<rparr>\<rparr>"

definition size_eq :: "ns_size \<Rightarrow> ns_size \<Rightarrow> bool" where
  "size_eq a b \<longleftrightarrow> f64_eq (sz_width a) (sz_width b) \<and> f64_eq (sz_height a) (sz_height b)"

definition full_hd :: ns_rect where
  "full_hd = \<lparr>r_origin = default_point, r_size = \<lparr>sz_width = Finite 1920, sz_height = Finite 1080\<rparr>\<rparr>"

section \<open>State\<close>

record window_state =
  ws_frame :: ns_rect
  ws_title :: "u8 list"
  ws_is_key :: bool
  ws_wants_layer :: bool
  ws_layer :: obj
  ws_delegate :: obj

definition default_window_state :: window_state where
  "default_window_state = \<lparr>ws_frame = default_rect, ws_title = [], ws_is_key = False, ws_wants_layer = False,
     ws_layer = 0, ws_delegate = 0\<rparr>"

text \<open>The calls of the trait \<^verbatim>\<open>Compositor\<close>.\<close>

datatype compositor_call = WindowShown u64 u32 u32 obj | WindowResized u64 u32 u32 | WindowClosed u64

text \<open>
  The globals: the window table, the monitors (none until the table is first used), the compositor (an implementation
  of the trait, by number), the calls it has received, newest first, and the application object.
\<close>

record app_world = host_world +
  window_states :: "u64 \<rightharpoonup> window_state"
  monitor_table :: "ns_rect list option"
  compositor :: "nat option"
  compositor_calls :: "compositor_call list"
  shared_app :: obj

type_synonym 'a app = "(app_world, unit, 'a) smonad"

text \<open>An access makes the entry if there is none.\<close>

definition window_entry :: "app_world \<Rightarrow> obj \<Rightarrow> window_state" where
  "window_entry s obj = (case window_states s obj of Some ws \<Rightarrow> ws | None \<Rightarrow> default_window_state)"

definition with_window_state :: "obj \<Rightarrow> (window_state \<Rightarrow> ('a \<times> window_state) app) \<Rightarrow> 'a app" where
  "with_window_state obj f =
     sbind (sget (\<lambda>s. window_entry s obj)) (\<lambda>ws.
     sbind (supd (\<lambda>s. s\<lparr>window_states := (window_states s)(obj \<mapsto> ws)\<rparr>)) (\<lambda>_.
     sbind (f ws) (\<lambda>(r, ws').
     sbind (supd (\<lambda>s. s\<lparr>window_states := (window_states s)(obj \<mapsto> ws')\<rparr>)) (\<lambda>_.
     sret r))))"

definition remove_window_state :: "obj \<Rightarrow> unit app" where
  "remove_window_state obj = supd (\<lambda>s. s\<lparr>window_states := (window_states s)(obj := None)\<rparr>)"

definition monitors :: "app_world \<Rightarrow> ns_rect list" where
  "monitors s = (case monitor_table s of Some ms \<Rightarrow> ms | None \<Rightarrow> [full_hd])"

definition with_monitors :: "(ns_rect list \<Rightarrow> 'a) \<Rightarrow> 'a app" where
  "with_monitors f = sbind (supd (\<lambda>s. s\<lparr>monitor_table := Some (monitors s)\<rparr>)) (\<lambda>_. sget (\<lambda>s. f (monitors s)))"

definition set_monitors :: "ns_rect list \<Rightarrow> unit app" where
  "set_monitors ms = supd (\<lambda>s. s\<lparr>monitor_table := Some ms\<rparr>)"

text \<open>The first compositor stays.\<close>

definition install_compositor :: "nat \<Rightarrow> unit app" where
  "install_compositor k = supd (\<lambda>s. s\<lparr>compositor := (case compositor s of None \<Rightarrow> Some k | Some c \<Rightarrow> Some c)\<rparr>)"

definition tell_compositor :: "compositor_call \<Rightarrow> unit app" where
  "tell_compositor call =
     sbind (sget compositor) (\<lambda>c.
     if c = None then sret () else supd (\<lambda>s. s\<lparr>compositor_calls := call # compositor_calls s\<rparr>))"

section \<open>Windows\<close>

definition window_init :: "obj \<Rightarrow> ns_rect \<Rightarrow> obj app" where
  "window_init recv rect =
     sbind (with_window_state recv (\<lambda>ws. sret ((), ws\<lparr>ws_frame := rect\<rparr>))) (\<lambda>_. sret recv)"

definition window_set_title :: "objc_runtime \<Rightarrow> obj \<Rightarrow> obj \<Rightarrow> unit app" where
  "window_set_title rt recv title =
     sbind (ns_string_to_rust rt title) (\<lambda>s. with_window_state recv (\<lambda>ws. sret ((), ws\<lparr>ws_title := s\<rparr>)))"

definition window_set_delegate :: "obj \<Rightarrow> obj \<Rightarrow> unit app" where
  "window_set_delegate recv delegate = with_window_state recv (\<lambda>ws. sret ((), ws\<lparr>ws_delegate := delegate\<rparr>))"

definition tell_delegate :: "objc_runtime \<Rightarrow> obj \<Rightarrow> string \<Rightarrow> obj \<Rightarrow> unit app" where
  "tell_delegate rt delegate sel recv =
     (if delegate \<noteq> 0 then sbind (msg_send rt delegate sel [Ptr recv]) (\<lambda>_. sret ()) else sret ())"

definition window_make_key_and_order_front :: "objc_runtime \<Rightarrow> obj \<Rightarrow> unit app" where
  "window_make_key_and_order_front rt recv =
     sbind (with_window_state recv (\<lambda>ws.
       sret ((ws_layer ws, as_u32 (sz_width (r_size (ws_frame ws))), as_u32 (sz_height (r_size (ws_frame ws))),
         ws_delegate ws, ws_is_key ws), ws\<lparr>ws_is_key := True\<rparr>))) (\<lambda>(layer, wd, ht, delegate, was_key).
     sbind (tell_compositor (WindowShown recv wd ht layer)) (\<lambda>_.
     if \<not> was_key then tell_delegate rt delegate ''windowDidBecomeKey:'' recv else sret ()))"

definition window_frame :: "obj \<Rightarrow> ns_rect app" where
  "window_frame recv = with_window_state recv (\<lambda>ws. sret (ws_frame ws, ws))"

definition window_set_frame_display :: "objc_runtime \<Rightarrow> obj \<Rightarrow> ns_rect \<Rightarrow> unit app" where
  "window_set_frame_display rt recv rect =
     sbind (with_window_state recv (\<lambda>ws.
       sret ((\<not> size_eq (r_size (ws_frame ws)) (r_size rect), ws_delegate ws), ws\<lparr>ws_frame := rect\<rparr>))) (\<lambda>(resized, delegate).
     if resized then
       sbind (tell_compositor (WindowResized recv (as_u32 (sz_width (r_size rect))) (as_u32 (sz_height (r_size rect))))) (\<lambda>_.
       tell_delegate rt delegate ''windowDidResize:'' recv)
     else sret ())"

definition window_order_out :: "obj \<Rightarrow> unit app" where
  "window_order_out recv = with_window_state recv (\<lambda>ws. sret ((), ws\<lparr>ws_is_key := False\<rparr>))"

definition window_close :: "obj \<Rightarrow> unit app" where
  "window_close recv = sbind (tell_compositor (WindowClosed recv)) (\<lambda>_. remove_window_state recv)"

definition window_content_view :: "obj \<Rightarrow> obj app" where
  "window_content_view recv = sret recv"

definition window_center :: "obj \<Rightarrow> unit app" where
  "window_center recv = sret ()"

definition window_style_mask :: "obj \<Rightarrow> u64 app" where
  "window_style_mask recv = sret 0"

section \<open>Views\<close>

definition view_set_wants_layer :: "obj \<Rightarrow> u8 \<Rightarrow> unit app" where
  "view_set_wants_layer recv wants = with_window_state recv (\<lambda>ws. sret ((), ws\<lparr>ws_wants_layer := (wants \<noteq> 0)\<rparr>))"

definition view_wants_layer :: "obj \<Rightarrow> u8 app" where
  "view_wants_layer recv = with_window_state recv (\<lambda>ws. sret (if ws_wants_layer ws then 1 else 0, ws))"

text \<open>A layer is made on the first request; if its class cannot be made there is none.\<close>

definition view_layer :: "objc_runtime \<Rightarrow> obj \<Rightarrow> obj app" where
  "view_layer rt recv =
     with_window_state recv (\<lambda>ws.
       sbind (if ws_layer ws = 0 then
           sbind (attempt (ensure_class rt ''CAMetalLayer'' ''NSObject'')) (\<lambda>r.
           case r of
             Inl _ \<Rightarrow> sret ws
           | Inr (cls, fresh) \<Rightarrow>
               sbind (if fresh then register_class cls else sret ()) (\<lambda>_.
               sbind (msg_send rt cls ''alloc'' []) (\<lambda>obj.
               sbind (msg_send rt obj ''init'' []) (\<lambda>layer.
               sret (ws\<lparr>ws_layer := layer\<rparr>)))))
         else sret ws) (\<lambda>ws. sret (ws_layer ws, ws)))"

definition view_set_layer :: "obj \<Rightarrow> obj \<Rightarrow> unit app" where
  "view_set_layer recv layer = with_window_state recv (\<lambda>ws. sret ((), ws\<lparr>ws_layer := layer\<rparr>))"

definition view_frame :: "obj \<Rightarrow> ns_rect app" where
  "view_frame recv = with_window_state recv (\<lambda>ws. sret (ws_frame ws, ws))"

definition view_bounds :: "obj \<Rightarrow> ns_rect app" where
  "view_bounds recv =
     with_window_state recv (\<lambda>ws. sret (\<lparr>r_origin = default_point, r_size = r_size (ws_frame ws)\<rparr>, ws))"

definition view_window :: "obj \<Rightarrow> obj app" where
  "view_window recv = sret recv"

section \<open>Screens and the application\<close>

text \<open>A screen is an \<^verbatim>\<open>NSValue\<close> around the index of a monitor.\<close>

definition add_screen :: "objc_runtime \<Rightarrow> obj \<Rightarrow> nat \<Rightarrow> unit app" where
  "add_screen rt array i =
     sbind (class_named rt ''NSValue'') (\<lambda>value.
     sbind (msg_send rt value ''valueWithPointer:'' [Ptr (of_nat i)]) (\<lambda>nsvalue.
     sbind (msg_send rt array ''addObject:'' [Ptr nsvalue]) (\<lambda>_. sret ())))"

definition screens_func :: "objc_runtime \<Rightarrow> obj app" where
  "screens_func rt =
     sbind (class_named rt ''NSMutableArray'') (\<lambda>cls.
     sbind (msg_send rt cls ''alloc'' []) (\<lambda>obj.
     sbind (msg_send rt obj ''init'' []) (\<lambda>array.
     sbind (with_monitors length) (\<lambda>n.
     sbind (seach (add_screen rt array) [0..<n]) (\<lambda>_.
     sret array)))))"

definition main_screen_func :: "objc_runtime \<Rightarrow> obj app" where
  "main_screen_func rt =
     sbind (screens_func rt) (\<lambda>array.
     sbind (msg_send rt array ''count'' []) (\<lambda>n.
     if n = 0 then sret 0 else msg_send rt array ''objectAtIndex:'' [Ptr 0]))"

definition screen_frame :: "objc_runtime \<Rightarrow> obj \<Rightarrow> ns_rect app" where
  "screen_frame rt recv =
     sbind (msg_send rt recv ''pointerValue'' []) (\<lambda>idx.
     with_monitors (\<lambda>ms. case get ms (unat idx) of Some r \<Rightarrow> r | None \<Rightarrow> full_hd))"

definition screen_backing_scale_factor :: "f64 app" where
  "screen_backing_scale_factor = sret (Finite 1)"

definition shared_application_impl :: "objc_runtime \<Rightarrow> obj app" where
  "shared_application_impl rt =
     sbind (sget shared_app) (\<lambda>app.
     if app = 0 then
       sbind (class_named rt ''NSApplication'') (\<lambda>cls.
       sbind (msg_send rt cls ''alloc'' []) (\<lambda>obj.
       sbind (msg_send rt obj ''init'' []) (\<lambda>app.
       sbind (supd (\<lambda>s. s\<lparr>shared_app := app\<rparr>)) (\<lambda>_. sret app))))
     else sret app)"

section \<open>What the compositor knows\<close>

text \<open>The size of a window the compositor was told last, until the window was closed.\<close>

primrec told :: "compositor_call list \<Rightarrow> obj \<Rightarrow> (u32 \<times> u32) option" where
  "told [] w = None"
| "told (call # calls) w =
     (case call of
        WindowShown w' wd ht layer \<Rightarrow> if w' = w then Some (wd, ht) else told calls w
      | WindowResized w' wd ht \<Rightarrow> if w' = w then Some (wd, ht) else told calls w
      | WindowClosed w' \<Rightarrow> if w' = w then None else told calls w)"

definition pixel_size :: "ns_rect \<Rightarrow> u32 \<times> u32" where
  "pixel_size r = (as_u32 (sz_width (r_size r)), as_u32 (sz_height (r_size r)))"

text \<open>
  What the application and the embedder can do next. A window is initialised before it is shown, or after it
  was closed.
\<close>

inductive app_step :: "objc_runtime \<Rightarrow> app_world \<Rightarrow> app_world \<Rightarrow> bool" for rt where
  init: "told (compositor_calls s) w = None \<Longrightarrow> window_init w rect s = (Inr x, s') \<Longrightarrow> app_step rt s s'"
| set_title: "window_set_title rt w title s = (Inr x, s') \<Longrightarrow> app_step rt s s'"
| set_delegate: "window_set_delegate w delegate s = (Inr x, s') \<Longrightarrow> app_step rt s s'"
| make_key: "window_make_key_and_order_front rt w s = (Inr x, s') \<Longrightarrow> app_step rt s s'"
| set_frame: "window_set_frame_display rt w rect s = (Inr x, s') \<Longrightarrow> app_step rt s s'"
| order_out: "window_order_out w s = (Inr x, s') \<Longrightarrow> app_step rt s s'"
| close: "window_close w s = (Inr x, s') \<Longrightarrow> app_step rt s s'"
| read_frame: "m \<in> {window_frame w, view_frame w, view_bounds w} \<Longrightarrow> m s = (Inr r, s') \<Longrightarrow> app_step rt s s'"
| wants_layer: "view_set_wants_layer w wants s = (Inr x, s') \<Longrightarrow> app_step rt s s'"
| read_wants: "view_wants_layer w s = (Inr b, s') \<Longrightarrow> app_step rt s s'"
| layer: "view_layer rt w s = (Inr l, s') \<Longrightarrow> app_step rt s s'"
| set_layer: "view_set_layer w l s = (Inr x, s') \<Longrightarrow> app_step rt s s'"
| screens: "m \<in> {screens_func rt, main_screen_func rt, shared_application_impl rt} \<Longrightarrow> m s = (Inr l, s') \<Longrightarrow> app_step rt s s'"
| screen: "screen_frame rt w s = (Inr r, s') \<Longrightarrow> app_step rt s s'"
| embedder: "m \<in> {set_monitors ms, install_compositor k} \<Longrightarrow> m s = (Inr x, s') \<Longrightarrow> app_step rt s s'"

definition in_sync :: "app_world \<Rightarrow> bool" where
  "in_sync s \<longleftrightarrow> (\<forall>w sz. told (compositor_calls s) w = Some sz \<longrightarrow> compositor s \<noteq> None \<and>
     (\<exists>ws. window_states s w = Some ws \<and> pixel_size (ws_frame ws) = sz))"

lemma wps_window_state [simp]:
  "wps (with_window_state obj (\<lambda>ws. sret (g ws))) Q E = (\<lambda>s. Q (fst (g (window_entry s obj)))
     (s\<lparr>window_states := (window_states s)(obj \<mapsto> snd (g (window_entry s obj)))\<rparr>))"
  by (simp add: fun_eq_iff with_window_state_def case_prod_beta)

lemma in_sync_entry:
  assumes "in_sync s" and "told (compositor_calls s) w \<noteq> None \<Longrightarrow> pixel_size (ws_frame ws') = pixel_size (ws_frame (window_entry s w))"
  shows "in_sync (s\<lparr>window_states := (window_states s)(w \<mapsto> ws')\<rparr>)"
proof -
  have "compositor s \<noteq> None \<and> (\<exists>ws''. ((window_states s)(w \<mapsto> ws')) v = Some ws'' \<and> pixel_size (ws_frame ws'') = sz)"
    if "told (compositor_calls s) v = Some sz" for v sz
    using assms(1) [unfolded in_sync_def, rule_format, OF that] assms(2) that by (cases "v = w") (auto simp: window_entry_def)
  then show ?thesis by (simp add: in_sync_def)
qed

lemma in_sync_call:
  assumes "in_sync s" and "compositor s \<noteq> None" and "window_states s w = Some ws" and "pixel_size (ws_frame ws) = (wd, ht)"
  shows "in_sync (s\<lparr>compositor_calls := WindowShown w wd ht l # compositor_calls s\<rparr>)"
    and "in_sync (s\<lparr>compositor_calls := WindowResized w wd ht # compositor_calls s\<rparr>)"
  using assms by (auto simp: in_sync_def)

lemma in_sync_other [simp]:
  "in_sync (s\<lparr>objc_log := l\<rparr>) = in_sync s" "in_sync (s\<lparr>monitor_table := ms\<rparr>) = in_sync s"
  "in_sync (s\<lparr>shared_app := a\<rparr>) = in_sync s"
  by (simp_all add: in_sync_def)

lemma size_eq_pixels: "size_eq (r_size r) (r_size r') \<Longrightarrow> pixel_size r = pixel_size r'"
  by (auto simp: size_eq_def f64_eq_def pixel_size_def)

lemma in_sync_untold:
  "in_sync s \<Longrightarrow> told (compositor_calls s) w = Some sz \<Longrightarrow> compositor s \<noteq> None"
  unfolding in_sync_def by blast

lemma in_sync_set_frame:
  assumes "in_sync s"
  shows "wps (window_set_frame_display rt w rect) (\<lambda>_. in_sync) E s"
proof -
  let ?s = "s\<lparr>window_states := (window_states s)(w \<mapsto> (window_entry s w)\<lparr>ws_frame := rect\<rparr>)\<rparr>"
  have same: "in_sync ?s" if "size_eq (r_size (ws_frame (window_entry s w))) (r_size rect) \<or> compositor s = None"
    using that by (intro in_sync_entry [OF assms]) (auto simp: size_eq_pixels dest: in_sync_untold [OF assms])
  have told: "in_sync (?s\<lparr>compositor_calls := WindowResized w (as_u32 (sz_width (r_size rect))) (as_u32 (sz_height (r_size rect)))
      # compositor_calls s\<rparr>)" if "compositor s \<noteq> None"
    using assms that by (auto simp: in_sync_def pixel_size_def)
  show ?thesis
    using same told by (auto simp: window_set_frame_display_def tell_compositor_def tell_delegate_def)
qed

lemma in_sync_make_key:
  assumes "in_sync s"
  shows "wps (window_make_key_and_order_front rt w) (\<lambda>_. in_sync) E s"
proof -
  let ?ws = "window_entry s w"
  let ?s = "s\<lparr>window_states := (window_states s)(w \<mapsto> ?ws\<lparr>ws_is_key := True\<rparr>)\<rparr>"
  have same: "in_sync ?s" by (intro in_sync_entry [OF assms]) simp
  have told: "in_sync (?s\<lparr>compositor_calls := WindowShown w (as_u32 (sz_width (r_size (ws_frame ?ws))))
      (as_u32 (sz_height (r_size (ws_frame ?ws)))) (ws_layer ?ws) # compositor_calls s\<rparr>)" if "compositor s \<noteq> None"
    using assms that by (auto simp: in_sync_def pixel_size_def)
  show ?thesis
    using same told by (auto simp: window_make_key_and_order_front_def tell_compositor_def tell_delegate_def)
qed

lemma in_sync_close:
  assumes "in_sync s"
  shows "wps (window_close w) (\<lambda>_. in_sync) E s"
  using assms by (auto simp: window_close_def tell_compositor_def remove_window_state_def in_sync_def split: if_splits)

text \<open>Computations that only talk to the runtime.\<close>

definition objc_only :: "app_world \<Rightarrow> app_world \<Rightarrow> bool" where
  "objc_only s s' \<longleftrightarrow> (\<exists>l. s' = s\<lparr>objc_log := l\<rparr>)"

lemma objc_only_simps [simp]: "objc_only s s" "objc_only s (s\<lparr>objc_log := l\<rparr>)"
  by (auto simp: objc_only_def) (metis app_world.surjective app_world.update_convs(1) host_world.update_convs(1))

lemma objc_only_in_sync: "objc_only s s' \<Longrightarrow> in_sync s' = in_sync s"
  "objc_only s s' \<Longrightarrow> window_entry s' w = window_entry s w"
  "objc_only s s' \<Longrightarrow> compositor_calls s' = compositor_calls s"
  by (auto simp: objc_only_def window_entry_def)

lemma in_sync_with_state:
  assumes "in_sync s"
    and "\<And>s1. wps (f (window_entry s w)) (\<lambda>(r, ws') s'. objc_only s1 s' \<and> ws_frame ws' = ws_frame (window_entry s w)) (\<lambda>_ _. True) s1"
  shows "wps (with_window_state w f) (\<lambda>_. in_sync) (\<lambda>_ _. True) s"
proof -
  let ?s1 = "s\<lparr>window_states := (window_states s)(w \<mapsto> window_entry s w)\<rparr>"
  have "in_sync ?s1" and entry: "window_entry ?s1 w = window_entry s w"
    by (intro in_sync_entry [OF assms(1)]) (simp_all add: window_entry_def)
  then have "in_sync (s'\<lparr>window_states := (window_states s')(w \<mapsto> ws')\<rparr>)"
    if "objc_only ?s1 s'" "ws_frame ws' = ws_frame (window_entry s w)" for s' ws'
    using that objc_only_in_sync [OF that(1)] entry by (intro in_sync_entry) simp_all
  then show ?thesis
    unfolding with_window_state_def wps_sbind wps_sget wps_supd
    by (intro wps_mono [OF assms(2)]) auto
qed

lemma in_sync_layer:
  assumes "in_sync s"
  shows "wps (view_layer rt w) (\<lambda>_. in_sync) (\<lambda>_ _. True) s"
  unfolding view_layer_def
  by (rule in_sync_with_state [OF assms]) (auto simp: ensure_class_def register_class_def)

lemma wps_ns_string_to_rust:
  "wps (ns_string_to_rust rt title) (\<lambda>_ s'. objc_only s s') E s"
  by (auto simp: ns_string_to_rust_def)

lemma in_sync_set_title:
  assumes "in_sync s"
  shows "wps (window_set_title rt w title) (\<lambda>_. in_sync) (\<lambda>_ _. True) s"
  unfolding window_set_title_def wps_sbind
  by (rule wps_mono [OF wps_ns_string_to_rust])
    (auto simp: objc_only_in_sync assms intro!: in_sync_entry)

lemma in_sync_screens:
  "in_sync s \<Longrightarrow> wps (screens_func rt) (\<lambda>_. in_sync) E s"
  by (auto simp: screens_func_def add_screen_def with_monitors_def intro!: wps_seach [where I = "\<lambda>_. in_sync"])

text \<open>The operations that only change an entry, and not its frame.\<close>

lemmas entry_ops = window_set_delegate_def window_order_out_def window_frame_def view_frame_def view_bounds_def
  view_set_wants_layer_def view_wants_layer_def view_set_layer_def

lemma app_step_in_sync: "app_step rt s s' \<Longrightarrow> in_sync s \<Longrightarrow> in_sync s'"
proof (induction rule: app_step.induct)
  case (init s w rect x s')
  then have "wps (window_init w rect) (\<lambda>_. in_sync) (\<lambda>_ _. True) s"
    by (auto simp: window_init_def intro: in_sync_entry)
  from wps_value [OF this init(2)] show ?case .
next
  case (screens m s l s')
  have "wps (screens_func rt) (\<lambda>_ s. in_sync s) (\<lambda>_ _. True) s" by (rule in_sync_screens [OF screens(3)])
  then have "wps (main_screen_func rt) (\<lambda>_. in_sync) (\<lambda>_ _. True) s"
    unfolding main_screen_func_def wps_sbind by (rule wps_mono) auto
  moreover have "wps (shared_application_impl rt) (\<lambda>_. in_sync) (\<lambda>_ _. True) s"
    using screens(3) by (auto simp: shared_application_impl_def)
  ultimately have "wps m (\<lambda>_. in_sync) (\<lambda>_ _. True) s"
    using screens(1) in_sync_screens [OF screens(3)] by blast
  from wps_value [OF this screens(2)] show ?case .
next
  case (set_title w title s x s')
  from wps_value [OF in_sync_set_title [OF set_title(2)] set_title(1)] show ?case .
next
  case (make_key w s x s')
  from wps_value [OF in_sync_make_key [OF make_key(2)] make_key(1)] show ?case .
next
  case (set_frame w rect s x s')
  from wps_value [OF in_sync_set_frame [OF set_frame(2)] set_frame(1)] show ?case .
next
  case (close w s x s')
  from wps_value [OF in_sync_close [OF close(2)] close(1)] show ?case .
next
  case (layer w s l s')
  from wps_value [OF in_sync_layer [OF layer(2)] layer(1)] show ?case .
next
  case (read_frame m w s r s')
  then have "wps m (\<lambda>_. in_sync) (\<lambda>_ _. True) s" by (auto simp: entry_ops intro: in_sync_entry)
  from wps_value [OF this read_frame(2)] show ?case .
next
  case (screen w s r s')
  then have "wps (screen_frame rt w) (\<lambda>_. in_sync) (\<lambda>_ _. True) s" by (auto simp: screen_frame_def with_monitors_def)
  from wps_value [OF this screen(1)] show ?case .
next
  case (embedder m ms k s x s')
  then have "wps m (\<lambda>_. in_sync) (\<lambda>_ _. True) s"
    by (auto simp: set_monitors_def install_compositor_def in_sync_def split: option.split)
  from wps_value [OF this embedder(2)] show ?case .
qed (erule wps_value [rotated], simp add: entry_ops in_sync_entry)+

section \<open>The screens\<close>

text \<open>The objects added to an array, in the order of the calls, from a log that has the newest call first.\<close>

fun added :: "obj \<Rightarrow> objc_event list \<Rightarrow> obj list" where
  "added array [] = []"
| "added array (Send recv sel args r # l) =
     added array l @ (if recv = array \<and> sel = ''addObject:'' then [case args of [Ptr x] \<Rightarrow> x | _ \<Rightarrow> 0] else [])"
| "added array (_ # l) = added array l"

text \<open>
  What Foundation promises of \<^verbatim>\<open>NSValue\<close>: the value made from a pointer gives it back.
\<close>

definition boxes_pointers :: "objc_runtime \<Rightarrow> bool" where
  "boxes_pointers rt \<longleftrightarrow> (\<forall>l l' cls x.
     rt_send rt l (rt_send rt l' cls ''valueWithPointer:'' [Ptr x]) ''pointerValue'' [] = x)"

text \<open>The boxes added so far, one for each index in order.\<close>

definition boxed :: "objc_runtime \<Rightarrow> obj \<Rightarrow> nat \<Rightarrow> objc_event list \<Rightarrow> bool" where
  "boxed rt array k l \<longleftrightarrow> length (added array l) = k \<and>
     (\<forall>i<k. \<exists>l' cls. added array l ! i = rt_send rt l' cls ''valueWithPointer:'' [Ptr (of_nat i)])"

lemma boxed_step:
  "boxed rt array k l \<Longrightarrow> added array l' = added array l @ [rt_send rt h cls ''valueWithPointer:'' [Ptr (of_nat k)]] \<Longrightarrow>
     boxed rt array (Suc k) l'"
  by (auto simp: boxed_def nth_append less_Suc_eq)

lemma wps_add_screens:
  assumes "P \<Longrightarrow> boxed rt array k (objc_log s)" and "k \<le> n"
  shows "wps (seach (add_screen rt array) [k..<n])
    (\<lambda>_ s'. monitor_table s' = monitor_table s \<and> (P \<longrightarrow> boxed rt array n (objc_log s'))) E s"
  using assms
proof (induction "n - k" arbitrary: k s)
  case (Suc m)
  then have "[k..<n] = k # [Suc k..<n]" by (simp add: upt_conv_Cons)
  moreover have "wps (add_screen rt array k) (\<lambda>_ s'. monitor_table s' = monitor_table s \<and>
      (P \<longrightarrow> boxed rt array (Suc k) (objc_log s'))) E s"
    using Suc.prems(1) by (auto simp: add_screen_def intro: boxed_step)
  then have "wps (add_screen rt array k) (\<lambda>_. wps (seach (add_screen rt array) [Suc k..<n])
      (\<lambda>_ s'. monitor_table s' = monitor_table s \<and> (P \<longrightarrow> boxed rt array n (objc_log s'))) E) E s"
    by (rule wps_mono) (use Suc.hyps Suc.prems(2) in \<open>auto intro: wps_mono [OF Suc.hyps(1)]\<close>)
  ultimately show ?case by simp
qed simp

lemma wps_screens_boxed:
  "wps (screens_func rt) (\<lambda>array s'. monitors s' = monitors s \<and>
     (added array (objc_log s) = [] \<longrightarrow> boxed rt array (length (monitors s)) (objc_log s'))) (\<lambda>_ _. True) s"
  unfolding screens_func_def wps_sbind wps_class_named wps_msg_send with_monitors_def wps_supd wps_sget
  by (rule wps_mono [OF wps_add_screens [where P = "added _ (objc_log s) = []"]])
    (auto simp: boxed_def monitors_def)

lemma make_key_run:
  "window_make_key_and_order_front rt w s =
     (let ws = window_entry s w
      in (Inr (), s\<lparr>objc_log := (if \<not> ws_is_key ws \<and> ws_delegate ws \<noteq> 0
             then [Send (ws_delegate ws) ''windowDidBecomeKey:'' [Ptr w]
               (rt_send rt (objc_log s) (ws_delegate ws) ''windowDidBecomeKey:'' [Ptr w])] else []) @ objc_log s,
           window_states := (window_states s)(w \<mapsto> ws\<lparr>ws_is_key := True\<rparr>),
           compositor_calls := (if compositor s = None then []
             else [WindowShown w (fst (pixel_size (ws_frame ws))) (snd (pixel_size (ws_frame ws))) (ws_layer ws)])
             @ compositor_calls s\<rparr>))"
  by (simp add: window_make_key_and_order_front_def with_window_state_def tell_compositor_def tell_delegate_def
      msg_send_def objc_call_run run_sbind run_simps sbind_def Let_def pixel_size_def)

section \<open>Properties\<close>

text \<open>
  C12: The compositor knows the size of every window. However the application and the embedder proceed (a
  window being initialised only before it is shown or after it was closed), the last size the compositor was told
  of a window that was not closed since is that of its frame in the table, in whole pixels.
\<close>

theorem compositor_in_sync:
  assumes "(app_step rt)\<^sup>*\<^sup>* s s'" and "compositor_calls s = []"
    and "told (compositor_calls s') w = Some sz"
  shows "\<exists>ws. window_states s' w = Some ws \<and> pixel_size (ws_frame ws) = sz"
proof -
  have "in_sync s" using assms(2) by (simp add: in_sync_def)
  with assms(1) have "in_sync s'" by (induction rule: rtranclp_induct) (auto intro: app_step_in_sync)
  with assms(3) show ?thesis unfolding in_sync_def by blast
qed

definition app_start :: app_world where
  "app_start = \<lparr>history = [], objc_log = [], window_states = Map.empty, monitor_table = None,
     compositor = Some 0, compositor_calls = [], shared_app = 0\<rparr>"

text \<open>A window of 640.9 by 480 points, shown and then resized to a width that is not a number.\<close>

definition demo_rect :: "f64 \<Rightarrow> ns_rect" where
  "demo_rect w = \<lparr>r_origin = default_point, r_size = \<lparr>sz_width = w, sz_height = Finite 480\<rparr>\<rparr>"

theorem compositor_in_sync_witness:
  "\<exists>s' ws. (app_step demo_runtime)\<^sup>*\<^sup>* app_start s' \<and> told (compositor_calls s') 7 = Some (0, 480) \<and>
     window_states s' 7 = Some ws \<and> pixel_size (ws_frame ws) = (0, 480)"
proof -
  let ?s1 = "snd (window_init 7 (demo_rect (Finite (6409 / 10))) app_start)"
  let ?s2 = "snd (window_make_key_and_order_front demo_runtime 7 ?s1)"
  let ?s3 = "snd (window_set_frame_display demo_runtime 7 (demo_rect NaN) ?s2)"
  note defs = window_init_def window_make_key_and_order_front_def window_set_frame_display_def with_window_state_def
    window_entry_def tell_compositor_def tell_delegate_def default_window_state_def size_eq_def f64_eq_def
    demo_rect_def app_start_def eval_rules
  have "window_init 7 (demo_rect (Finite (6409 / 10))) app_start = (Inr 7, ?s1)"
    by (simp add: defs cong: sbind_weak_cong)
  then have 1: "app_step demo_runtime app_start ?s1" by (intro app_step.init) (simp_all add: app_start_def)
  have "window_make_key_and_order_front demo_runtime 7 ?s1 = (Inr (), ?s2)"
    by (simp add: defs cong: sbind_weak_cong)
  then have 2: "app_step demo_runtime ?s1 ?s2" by (rule app_step.make_key)
  have "window_set_frame_display demo_runtime 7 (demo_rect NaN) ?s2 = (Inr (), ?s3)"
    by (simp add: defs cong: sbind_weak_cong)
  then have 3: "app_step demo_runtime ?s2 ?s3" by (rule app_step.set_frame)
  have run: "(app_step demo_runtime)\<^sup>*\<^sup>* app_start ?s3"
  proof -
    note step = rtranclp.rtrancl_into_rtrancl [where r = "app_step demo_runtime"]
    show ?thesis by (rule step, rule step, rule step, rule rtranclp.rtrancl_refl, rule 1, rule 2, rule 3)
  qed
  have "told (compositor_calls ?s3) 7 = Some (0, 480)" by (simp add: defs cong: sbind_weak_cong)
  from compositor_in_sync [OF run _ this] run this show ?thesis by (auto simp: app_start_def)
qed

text \<open>
  Screens are monitors. \<^verbatim>\<open>screens\<close> fills its array with one object per monitor, and the frame of
  the object at an index is that of the monitor at the index, as long as the monitor table stays.
\<close>

theorem screens_are_monitors:
  assumes "boxes_pointers rt" and "length (monitors s) < 2 ^ 64"
    and "screens_func rt s = (Inr array, s1)" and "added array (objc_log s) = []"
    and "monitors s2 = monitors s1"
  shows "length (added array (objc_log s1)) = length (monitors s) \<and>
    (\<forall>i<length (monitors s). fst (screen_frame rt (added array (objc_log s1) ! i) s2) = Inr (monitors s ! i))"
proof -
  from wps_value [OF wps_screens_boxed assms(3)] assms(4)
  have s1: "monitors s1 = monitors s" and boxed: "boxed rt array (length (monitors s)) (objc_log s1)" by auto
  have "fst (screen_frame rt (added array (objc_log s1) ! i) s2) = Inr (monitors s ! i)" if "i < length (monitors s)" for i
  proof -
    from boxed that obtain l cls where "added array (objc_log s1) ! i = rt_send rt l cls ''valueWithPointer:'' [Ptr (of_nat i)]"
      by (auto simp: boxed_def)
    then have "\<And>l. rt_send rt l (added array (objc_log s1) ! i) ''pointerValue'' [] = of_nat i"
      using assms(1) by (simp add: boxes_pointers_def)
    moreover have "unat (of_nat i :: u64) = i" using that assms(2) by (simp add: unat_of_nat take_bit_nat_eq_self_iff)
    ultimately show ?thesis
      using that s1 assms(5)
      by (simp add: screen_frame_def with_monitors_def msg_send_def objc_call_run run_sbind run_simps get_def monitors_def)
  qed
  with boxed show ?thesis by (simp add: boxed_def)
qed

lemmas app_eval = window_make_key_and_order_front_def window_close_def window_frame_def view_layer_def screens_func_def
  add_screen_def with_monitors_def monitors_def with_window_state_def window_entry_def tell_compositor_def
  tell_delegate_def remove_window_state_def default_window_state_def ensure_class_def demo_runtime_def app_start_def
  objc_eval upt_rec

theorem screens_are_monitors_witness:
  "\<exists>array s1. screens_func demo_runtime (app_start\<lparr>monitor_table := Some [full_hd, demo_rect (Finite 640)]\<rparr>) = (Inr array, s1) \<and>
     fst (screen_frame demo_runtime (added array (objc_log s1) ! 1) s1) = Inr (demo_rect (Finite 640))"
proof -
  let ?s = "app_start\<lparr>monitor_table := Some [full_hd, demo_rect (Finite 640)]\<rparr>"
  have "\<exists>array s1. screens_func demo_runtime ?s = (Inr array, s1)"
    by (simp add: app_eval cong: sbind_weak_cong)
  then obtain array s1 where run: "screens_func demo_runtime ?s = (Inr array, s1)" by blast
  have boxes: "boxes_pointers demo_runtime" by (simp add: boxes_pointers_def demo_runtime_def)
  have ms: "monitors ?s = [full_hd, demo_rect (Finite 640)]" by (simp add: monitors_def)
  have "added array (objc_log ?s) = []" by (simp add: app_start_def)
  from screens_are_monitors [OF boxes _ run this refl] ms run show ?thesis by auto
qed

text \<open>
  Two windows can be key. Making a second window key does not take the state from the first, and the only
  message sent goes to the delegate of the second.
\<close>

theorem two_key_windows:
  assumes "w \<noteq> v" and "window_make_key_and_order_front rt w s = (Inr (), s1)"
    and "window_make_key_and_order_front rt v s1 = (Inr (), s2)"
  shows "ws_is_key (window_entry s2 w) \<and> ws_is_key (window_entry s2 v) \<and>
    (\<exists>l. objc_log s2 = l @ objc_log s1 \<and>
      (\<forall>ev\<in>set l. \<exists>r. ev = Send (ws_delegate (window_entry s1 v)) ''windowDidBecomeKey:'' [Ptr v] r))"
proof -
  let ?new = "\<lambda>s w. snd (window_make_key_and_order_front rt w s)"
  have keys: "window_states (?new s w) = (window_states s)(w \<mapsto> (window_entry s w)\<lparr>ws_is_key := True\<rparr>)" for s w
    by (simp add: make_key_run Let_def)
  have "window_states s1 = (window_states s)(w \<mapsto> (window_entry s w)\<lparr>ws_is_key := True\<rparr>)"
    "window_states s2 = (window_states s1)(v \<mapsto> (window_entry s1 v)\<lparr>ws_is_key := True\<rparr>)"
    using keys [where s = s and w = w] keys [where s = s1 and w = v] assms(2,3) by simp_all
  then have "ws_is_key (window_entry s2 w) \<and> ws_is_key (window_entry s2 v)"
    using assms(1) by (simp add: window_entry_def)
  moreover have "objc_log s2 = objc_log (?new s1 v)" using assms(3) by simp
  ultimately show ?thesis by (simp add: make_key_run Let_def)
qed

theorem two_key_windows_witness:
  "\<exists>s1 s2. window_make_key_and_order_front demo_runtime 7 app_start = (Inr (), s1) \<and>
     window_make_key_and_order_front demo_runtime 8 s1 = (Inr (), s2) \<and>
     ws_is_key (window_entry s2 7) \<and> ws_is_key (window_entry s2 8)"
proof -
  obtain s1 where 1: "window_make_key_and_order_front demo_runtime 7 app_start = (Inr (), s1)" by (simp add: make_key_run Let_def)
  obtain s2 where 2: "window_make_key_and_order_front demo_runtime 8 s1 = (Inr (), s2)" by (simp add: make_key_run Let_def)
  from two_key_windows [OF _ 1 2] 1 2 show ?thesis by auto
qed

text \<open>
  A closed window comes back. After \<^verbatim>\<open>close\<close> the window is in no table; any later question, such
  as for its frame, is answered with the default and puts an entry back that nothing removes unless the window is
  closed again, which tells the compositor a second time.
\<close>

theorem closed_window_returns:
  assumes "window_close w s = (Inr (), s1)" and "m \<in> {window_frame w, view_frame w}"
  shows "window_states s1 w = None \<and>
    m s1 = (Inr default_rect, s1\<lparr>window_states := (window_states s1)(w \<mapsto> default_window_state)\<rparr>) \<and>
    (compositor s \<noteq> None \<longrightarrow> compositor_calls (snd (window_close w (snd (m s1)))) =
      WindowClosed w # WindowClosed w # compositor_calls s)"
  using assms
  by (auto simp: window_close_def tell_compositor_def remove_window_state_def window_frame_def view_frame_def
      with_window_state_def window_entry_def default_window_state_def sbind_def run_simps split: if_splits)

theorem closed_window_returns_witness:
  "\<exists>s1. window_close 7 app_start = (Inr (), s1) \<and> fst (window_frame 7 s1) = Inr default_rect"
proof -
  obtain s1 where 1: "window_close 7 app_start = (Inr (), s1)"
    by (simp add: app_eval cong: sbind_weak_cong)
  from closed_window_returns [OF 1, of "window_frame 7"] 1 show ?thesis by auto
qed

text \<open>
  A view has one layer. The first request that finds none makes it; every later one returns the same layer,
  without a call of the runtime.
\<close>

theorem layer_made_once:
  assumes "view_layer rt w s = (Inr layer, s1)" and "layer \<noteq> 0"
  shows "view_layer rt w s1 = (Inr layer, s1)"
proof -
  have "wps (view_layer rt w) (\<lambda>layer s'. \<exists>ws. window_states s' w = Some ws \<and> ws_layer ws = layer) (\<lambda>_ _. True) s"
    by (auto simp: view_layer_def with_window_state_def ensure_class_def register_class_def)
  from wps_value [OF this assms(1)] obtain ws where "window_states s1 w = Some ws" "ws_layer ws = layer" by blast
  then show ?thesis
    using assms(2)
    by (simp add: view_layer_def with_window_state_def window_entry_def run_sbind run_simps fun_upd_idem)
qed

theorem layer_made_once_witness:
  "\<exists>layer s1. view_layer demo_runtime 7 app_start = (Inr layer, s1) \<and> view_layer demo_runtime 7 s1 = (Inr layer, s1)"
proof -
  have "\<exists>s1. view_layer demo_runtime 7 app_start = (Inr 4160, s1)"
    by (simp add: app_eval cong: sbind_weak_cong)
  then obtain s1 where 1: "view_layer demo_runtime 7 app_start = (Inr 4160, s1)" by blast
  from layer_made_once [OF this] 1 show ?thesis by auto
qed

end
