(* ===== verification/CompositorBridge.thy ===== *)
theory CompositorBridge
  imports Monad
begin

text \<open>
  The server of \<^verbatim>\<open>src/bridge/compositor.rs\<close> over the native compositor host, and the function
  \<^verbatim>\<open>add\<close> of the crate root. The native functions are C code beside the crate; their answers are the
  functions of a record, and the state keeps the calls, newest first.
\<close>

section \<open>The native interface\<close>

record incoming_frame =
  if_client_token :: u64
  if_surface_port :: u32
  if_width :: u32
  if_height :: u32
  if_frame_index :: u32
  if_received_at_mach_time :: u64

record resolved_surface =
  rs_surface_ref :: u64
  rs_width :: u32
  rs_height :: u32
  rs_bytes_per_row :: u32
  rs_pixel_format :: u32

datatype native_event =
    HostCreate "u8 list" u64
  | SyncCreate "u8 list" u32 u64
  | SetFrameCallback u64
  | SetClientCallback u64
  | HostStart u64 u32
  | HostDestroy u64
  | SyncDestroy u64
  | ResolveSurface incoming_frame u32 resolved_surface
  | ReleaseSurface resolved_surface
  | PrintFrame u32 u64 u32 u32 u32
  | PrintClient u64 u32 bool
  | PrintReady

record native_core =
  n_host_create :: "native_event list \<Rightarrow> u8 list \<Rightarrow> u64"
  n_sync_create :: "native_event list \<Rightarrow> u8 list \<Rightarrow> u32 \<Rightarrow> u64"
  n_host_start :: "native_event list \<Rightarrow> u64 \<Rightarrow> u32"
  n_resolve :: "native_event list \<Rightarrow> incoming_frame \<Rightarrow> u32 \<times> resolved_surface" \<comment> \<open>the code and what it writes to the result\<close>

record native_world =
  native_log :: "native_event list"

type_synonym 'a native = "(native_world, unit, 'a) smonad"

definition native_call :: "(native_event list \<Rightarrow> 'a) \<Rightarrow> ('a \<Rightarrow> native_event) \<Rightarrow> 'a native" where
  "native_call reply ev = (\<lambda>s. let r = reply (native_log s) in (Inr r, s\<lparr>native_log := ev r # native_log s\<rparr>))"

definition native_do :: "native_event \<Rightarrow> unit native" where
  "native_do ev = supd (\<lambda>s. s\<lparr>native_log := ev # native_log s\<rparr>)"

section \<open>The server\<close>

definition on_frame_received :: "native_core \<Rightarrow> incoming_frame option \<Rightarrow> unit native" where
  "on_frame_received n frame_ptr =
     (case frame_ptr of
        None \<Rightarrow> sret ()
      | Some frame \<Rightarrow>
          sbind (native_call (\<lambda>l. n_resolve n l frame) (\<lambda>(code, resolved). ResolveSurface frame code resolved)) (\<lambda>(code, resolved).
          if code = 0 then
            sbind (native_do (PrintFrame (if_frame_index frame) (if_client_token frame) (rs_width resolved) (rs_height resolved)
              (rs_pixel_format resolved))) (\<lambda>_.
            native_do (ReleaseSurface resolved))
          else sret ()))"

definition on_client_changed :: "u64 \<Rightarrow> u32 \<Rightarrow> u32 \<Rightarrow> unit native" where
  "on_client_changed token pid connected = native_do (PrintClient token pid (connected = 1))"

record qmv_server =
  raw_host :: u64
  raw_sync :: u64

text \<open>\<^verbatim>\<open>assert!\<close> and \<^verbatim>\<open>CString::new(..).unwrap()\<close> panic; the result of starting the host is not looked at.\<close>

definition qmv_start :: "native_core \<Rightarrow> u8 list \<Rightarrow> u8 list \<Rightarrow> u32 \<Rightarrow> qmv_server native" where
  "qmv_start n service_name shm_name slots =
     (if 0 \<in> set service_name \<or> 0 \<in> set shm_name then sfail (Panic Unwrapped)
      else sbind (native_call (\<lambda>l. n_host_create n l service_name) (HostCreate service_name)) (\<lambda>host.
        if host = 0 then sfail (Panic Unwrapped)
        else sbind (native_call (\<lambda>l. n_sync_create n l shm_name slots) (SyncCreate shm_name slots)) (\<lambda>sync.
          if sync = 0 then sfail (Panic Unwrapped)
          else sbind (native_do (SetFrameCallback host)) (\<lambda>_.
            sbind (native_do (SetClientCallback host)) (\<lambda>_.
            sbind (native_call (\<lambda>l. n_host_start n l host) (HostStart host)) (\<lambda>_.
            sbind (native_do PrintReady) (\<lambda>_.
            sret \<lparr>raw_host = host, raw_sync = sync\<rparr>)))))))"

definition qmv_drop :: "qmv_server \<Rightarrow> unit native" where
  "qmv_drop server = sbind (native_do (HostDestroy (raw_host server))) (\<lambda>_. native_do (SyncDestroy (raw_sync server)))"

text \<open>\<^verbatim>\<open>add\<close> of \<^verbatim>\<open>src/lib.rs\<close>, all that the crate root holds.\<close>

definition add :: "profile \<Rightarrow> u64 \<Rightarrow> u64 \<Rightarrow> (unit, u64) outcome" where
  "add p left right = rust_add p left right"

section \<open>What is held\<close>

datatype native_kind = NHost | NSync | NSurface

fun native_gained :: "native_event \<Rightarrow> (native_kind \<times> u64) multiset" where
  "native_gained (HostCreate name h) = (if h = 0 then {#} else {#(NHost, h)#})"
| "native_gained (SyncCreate name slots y) = (if y = 0 then {#} else {#(NSync, y)#})"
| "native_gained (ResolveSurface frame code r) = (if code = 0 then {#(NSurface, rs_surface_ref r)#} else {#})"
| "native_gained _ = {#}"

fun native_lost :: "native_event \<Rightarrow> (native_kind \<times> u64) multiset" where
  "native_lost (HostDestroy h) = {#(NHost, h)#}"
| "native_lost (SyncDestroy y) = {#(NSync, y)#}"
| "native_lost (ReleaseSurface r) = {#(NSurface, rs_surface_ref r)#}"
| "native_lost _ = {#}"

text \<open>What exists after the calls of a log, provided that only what existed was given up.\<close>

fun native_held :: "native_event list \<Rightarrow> (native_kind \<times> u64) multiset option" where
  "native_held [] = Some {#}"
| "native_held (ev # l) =
     (case native_held l of
        None \<Rightarrow> None
      | Some m \<Rightarrow> if native_lost ev \<subseteq># m + native_gained ev then Some (m + native_gained ev - native_lost ev) else None)"

lemma wps_native [simp]:
  "wps (native_call reply ev) Q E = (\<lambda>s. Q (reply (native_log s)) (s\<lparr>native_log := ev (reply (native_log s)) # native_log s\<rparr>))"
  "wps (native_do e) Q' E' = (\<lambda>s. Q' () (s\<lparr>native_log := e # native_log s\<rparr>))"
  by (simp_all add: fun_eq_iff wps_def native_call_def native_do_def Let_def supd_def)

lemma wps_frames:
  assumes "native_held (native_log s) = Some m"
  shows "wps (seach (on_frame_received n) frames) (\<lambda>_ s'. native_held (native_log s') = Some m) E s"
  by (rule wps_seach [where I = "\<lambda>_ s. native_held (native_log s) = Some m"])
    (auto simp: assms on_frame_received_def case_prod_beta split: option.split)

lemma wps_start:
  assumes "native_held (native_log s) = Some m"
  shows "wps (qmv_start n service shm slots)
    (\<lambda>server s'. native_held (native_log s') = Some (m + {#(NHost, raw_host server), (NSync, raw_sync server)#}))
    (\<lambda>e s'. e = Panic Unwrapped \<and> (native_held (native_log s') = Some m \<or>
      (\<exists>host l. native_log s' = SyncCreate shm slots 0 # HostCreate service host # native_log s \<and> host \<noteq> 0 \<and>
        native_held (native_log s') = Some (m + {#(NHost, host)#})))) s"
  using assms by (auto simp: qmv_start_def)

section \<open>Properties\<close>

text \<open>
  C29: The server keeps its books. From its start over any sequence of frames (null, resolvable or not) to
  its drop, everything it took from the native core is given back exactly once: the host, the
  synchronisation object, and each resolved surface. Whether the host really started makes no difference:
  its return code is ignored.
\<close>

theorem server_lifetime:
  assumes "native_held (native_log s) = Some m"
    and "qmv_start n service shm slots s = (Inr server, s1)"
    and "seach (on_frame_received n) frames s1 = (Inr (), s2)"
    and "qmv_drop server s2 = (r, s3)"
  shows "native_held (native_log s3) = Some m"
proof -
  from wps_value [OF wps_start [OF assms(1)] assms(2)]
  have "native_held (native_log s1) = Some (m + {#(NHost, raw_host server), (NSync, raw_sync server)#})" .
  from wps_value [OF wps_frames [OF this] assms(3)] assms(4) show ?thesis
    by (auto simp: qmv_drop_def native_do_def run_sbind run_simps)
qed

text \<open>
  A start that fails panics, and when it fails because there is no synchronisation object, the host it has
  created stays, without an owner.
\<close>

theorem server_start_leaks:
  assumes "native_held (native_log s) = Some m"
    and "0 \<notin> set service" "0 \<notin> set shm" and "n_host_create n (native_log s) service = host" "host \<noteq> 0"
    and "n_sync_create n (HostCreate service host # native_log s) shm slots = 0"
    and "qmv_start n service shm slots s = (r, s1)"
  shows "r = Inl (Panic Unwrapped) \<and> native_held (native_log s1) = Some (m + {#(NHost, host)#})"
  using assms by (auto simp: qmv_start_def native_call_def sbind_def run_simps Let_def)

definition demo_core :: "u64 \<Rightarrow> native_core" where
  "demo_core sync = \<lparr>n_host_create = (\<lambda>l name. 5), n_sync_create = (\<lambda>l name slots. sync), n_host_start = (\<lambda>l host. 1),
     n_resolve = (\<lambda>l frame. (if if_surface_port frame = 0 then 1 else 0,
       \<lparr>rs_surface_ref = 9, rs_width = 64, rs_height = 32, rs_bytes_per_row = 256, rs_pixel_format = 1\<rparr>))\<rparr>"

definition demo_frame :: "u32 \<Rightarrow> incoming_frame" where
  "demo_frame port = \<lparr>if_client_token = 1, if_surface_port = port, if_width = 64, if_height = 32, if_frame_index = 0,
     if_received_at_mach_time = 0\<rparr>"

theorem server_lifetime_witness:
  "\<exists>server s1 s2 r s3. qmv_start (demo_core 6) [115] [109] 3 \<lparr>native_log = []\<rparr> = (Inr server, s1) \<and>
     seach (on_frame_received (demo_core 6)) [Some (demo_frame 4), None, Some (demo_frame 0)] s1 = (Inr (), s2) \<and>
     qmv_drop server s2 = (r, s3) \<and> native_held (native_log s3) = Some {#}"
proof -
  let ?n = "demo_core 6" and ?s = "\<lparr>native_log = []\<rparr>"
  let ?frames = "[Some (demo_frame 4), None, Some (demo_frame 0)]"
  have "\<exists>server s1. qmv_start ?n [115] [109] 3 ?s = (Inr server, s1) \<and> (\<exists>s2. seach (on_frame_received ?n) ?frames s1 = (Inr (), s2))"
    by (simp add: qmv_start_def on_frame_received_def demo_core_def demo_frame_def native_call_def native_do_def
        sbind_def run_simps Let_def)
  then obtain server s1 s2 where run: "qmv_start ?n [115] [109] 3 ?s = (Inr server, s1)"
    "seach (on_frame_received ?n) ?frames s1 = (Inr (), s2)" by blast
  obtain r s3 where drop: "qmv_drop server s2 = (r, s3)" by force
  have "native_held (native_log ?s) = Some {#}" by simp
  from server_lifetime [OF this run drop] run drop show ?thesis by blast
qed

theorem server_start_leaks_witness:
  "\<exists>s1. qmv_start (demo_core 0) [115] [109] 3 \<lparr>native_log = []\<rparr> = (Inl (Panic Unwrapped), s1) \<and>
     native_held (native_log s1) = Some {#(NHost, 5)#}"
proof -
  obtain r s1 where run: "qmv_start (demo_core 0) [115] [109] 3 \<lparr>native_log = []\<rparr> = (r, s1)" by force
  have "native_held (native_log \<lparr>native_log = []\<rparr>) = Some {#}"
    "n_host_create (demo_core 0) (native_log \<lparr>native_log = []\<rparr>) [115] = 5"
    "n_sync_create (demo_core 0) (HostCreate [115] 5 # native_log \<lparr>native_log = []\<rparr>) [109] 3 = 0"
    by (simp_all add: demo_core_def)
  from server_start_leaks [OF this(1) _ _ this(2) _ this(3) run] run show ?thesis by auto
qed

end
