(* ===== verification/FrameProtocol.thy ===== *)
theory FrameProtocol
  imports DemoDriver
begin

text \<open>
  The rules of the Vulkan specification that the frames of a window must follow, as a machine that reads the
  history of calls the way a validation layer does: which fences are signalled, unsignalled or handed to a
  submission, which semaphores have a signal nobody has waited for, which submissions may still be
  executing, and which images are acquired. A call that breaks a rule has no next state. Two more rules, on the reuse
  of command buffers and of the semaphores of presentations, are the predicate \<open>reuses_ok\<close>. The locale
  \<open>frame_client\<close> proves once, from what a tick, a submission and a drop promise, that a window owner who draws
  what the ticks hand out never breaks one; theory \<open>FrameLoop\<close> interprets it for both render contexts.
\<close>

section \<open>The machine\<close>

datatype fence_state = Signaled | Unsignaled | Pending

record layer =
  fence_states :: "handle \<rightharpoonup> fence_state"
  sem_signaled :: "handle \<rightharpoonup> bool"
  executing :: "(submit_info \<times> handle) list"
  acquired_images :: "(handle \<times> u32) set"

definition layer_init :: layer where
  "layer_init = \<lparr>fence_states = Map.empty, sem_signaled = Map.empty, executing = [], acquired_images = {}\<rparr>"

text \<open>What the host knows when a fence is seen signalled, and when the device is idle.\<close>

definition fence_done :: "handle \<Rightarrow> layer \<Rightarrow> layer" where
  "fence_done f l = l\<lparr>fence_states := (fence_states l)(f \<mapsto> Signaled),
     executing := filter (\<lambda>e. snd e \<noteq> f) (executing l)\<rparr>"

definition all_done :: "layer \<Rightarrow> layer" where
  "all_done l = l\<lparr>fence_states := (\<lambda>f. if fence_states l f = Some Pending then Some Signaled else fence_states l f),
     executing := []\<rparr>"

definition waited_on :: "handle \<Rightarrow> layer \<Rightarrow> bool" where
  "waited_on s l \<longleftrightarrow> (\<exists>e\<in>set (executing l). si_wait (fst e) = s)"

text \<open>The answers after which the presentation has waited for its semaphore.\<close>

definition present_waits :: "bool vkr \<Rightarrow> bool" where
  "present_waits r \<longleftrightarrow> (case r of Inr _ \<Rightarrow> True | Inl e \<Rightarrow> e \<in> {SUBOPTIMAL_KHR, ERROR_OUT_OF_DATE_KHR})"

fun layer_step :: "vk_event \<Rightarrow> layer \<Rightarrow> layer option" where
  "layer_step (ECreate ci (Inr x)) l =
     (case ci of
        FenceInfo s \<Rightarrow> Some (l\<lparr>fence_states := (fence_states l)(x \<mapsto> if s then Signaled else Unsignaled)\<rparr>)
      | SemaphoreInfo \<Rightarrow> Some (l\<lparr>sem_signaled := (sem_signaled l)(x \<mapsto> False)\<rparr>)
      | _ \<Rightarrow> Some l)"
| "layer_step (EDestroy k x) l =
     (if k = KFence then
        (if fence_states l x = Some Pending then None
         else Some (l\<lparr>fence_states := (fence_states l)(x := None)\<rparr>))
      else if k = KSemaphore then
        (if \<exists>e\<in>set (executing l). x \<in> {si_wait (fst e), si_signal (fst e)} then None
         else Some (l\<lparr>sem_signaled := (sem_signaled l)(x := None)\<rparr>))
      else if k = KSwapchain then
        (if executing l \<noteq> [] then None
         else Some (l\<lparr>acquired_images := {a \<in> acquired_images l. fst a \<noteq> x}\<rparr>))
      else if k \<in> {KImageView, KFramebuffer, KRenderPass} \<and> executing l \<noteq> [] then None
      else Some l)"
| "layer_step (EFreeCommandBuffers pool cbs) l =
     (if \<exists>e\<in>set (executing l). si_command_buffer (fst e) \<in> set cbs then None else Some l)"
| "layer_step (EWaitIdle r) l = Some (if r = Inr () then all_done l else l)"
| "layer_step (EWaitFence f t r) l =
     (if fence_states l f \<in> {Some Signaled, Some Pending}
      then Some (if r = Inr () then fence_done f l else l) else None)"
| "layer_step (EResetFence f r) l =
     (if fence_states l f \<in> {Some Signaled, Some Unsignaled}
      then Some (if r = Inr () then l\<lparr>fence_states := (fence_states l)(f \<mapsto> Unsignaled)\<rparr> else l) else None)"
| "layer_step (EFenceStatus f r) l =
     (if fence_states l f = None then None else Some (if r = Inr True then fence_done f l else l))"
| "layer_step (EAcquire sc t s r) l =
     (if sem_signaled l s = Some False \<and> \<not> waited_on s l
      then Some (case r of
             Inr (idx, _) \<Rightarrow> l\<lparr>sem_signaled := (sem_signaled l)(s \<mapsto> True),
               acquired_images := insert (sc, idx) (acquired_images l)\<rparr>
           | Inl _ \<Rightarrow> l)
      else None)"
| "layer_step (ESubmit q i f r) l =
     (if fence_states l f = Some Unsignaled \<and> sem_signaled l (si_wait i) = Some True
         \<and> sem_signaled l (si_signal i) = Some False
      then Some (if r = Inr () then l\<lparr>fence_states := (fence_states l)(f \<mapsto> Pending),
             sem_signaled := (sem_signaled l)(si_wait i \<mapsto> False, si_signal i \<mapsto> True),
             executing := (i, f) # executing l\<rparr> else l)
      else None)"
| "layer_step (EPresent q p r) l =
     (if sem_signaled l (pi_wait p) = Some True \<and> (pi_swapchain p, pi_image_index p) \<in> acquired_images l
      then Some (if present_waits r then l\<lparr>sem_signaled := (sem_signaled l)(pi_wait p \<mapsto> False),
             acquired_images := acquired_images l - {(pi_swapchain p, pi_image_index p)}\<rparr> else l)
      else None)"
| "layer_step ev l = Some l"

primrec layer_of :: "history \<Rightarrow> layer option" where
  "layer_of [] = Some layer_init"
| "layer_of (ev # h) = Option.bind (layer_of h) (layer_step ev)"

definition valid :: "history \<Rightarrow> bool" where
  "valid h \<longleftrightarrow> layer_of h \<noteq> None"

text \<open>
  Two rules say of work whose end the host only learns indirectly when it may be queued again. A command buffer must
  not be submitted while a submission of it may be executing. A presentation waits for its semaphore when the
  presentation engine gets to it, which is known to be over when its image is acquired again, or the device is
  idle; until then the semaphore must be neither signalled by a submission nor destroyed. \<open>presents\<close>: the
  presentations since the device was last idle, newest first; \<open>waiting\<close>: those that may still be waiting.
\<close>

primrec presents :: "history \<Rightarrow> present_info list" where
  "presents [] = []"
| "presents (ev # h) =
     (case ev of EPresent q p r \<Rightarrow> p # presents h
      | EWaitIdle r \<Rightarrow> if r = Inr () then [] else presents h
      | _ \<Rightarrow> presents h)"

primrec waiting :: "history \<Rightarrow> present_info list" where
  "waiting [] = []"
| "waiting (ev # h) =
     (case ev of EPresent q p r \<Rightarrow> if present_waits r then p # waiting h else waiting h
      | EAcquire sc t s r \<Rightarrow>
          (case r of Inr (idx, _) \<Rightarrow> filter (\<lambda>p. (pi_swapchain p, pi_image_index p) \<noteq> (sc, idx)) (waiting h)
           | Inl _ \<Rightarrow> waiting h)
      | EWaitIdle r \<Rightarrow> if r = Inr () then [] else waiting h
      | _ \<Rightarrow> waiting h)"

definition executing_in :: "history \<Rightarrow> (submit_info \<times> handle) list" where
  "executing_in h = (case layer_of h of None \<Rightarrow> [] | Some l \<Rightarrow> executing l)"

lemma executing_in_layer: "layer_of h = Some l \<Longrightarrow> executing_in h = executing l"
  by (simp add: executing_in_def)

definition reuse_ok :: "vk_event \<Rightarrow> history \<Rightarrow> bool" where
  "reuse_ok ev h =
     (case ev of
        ESubmit q i f r \<Rightarrow> si_signal i \<notin> pi_wait ` set (waiting h) \<and>
          si_command_buffer i \<notin> (si_command_buffer \<circ> fst) ` set (executing_in h)
      | EDestroy k x \<Rightarrow> k = KSemaphore \<longrightarrow> x \<notin> pi_wait ` set (waiting h)
      | _ \<Rightarrow> True)"

primrec reuses_ok :: "history \<Rightarrow> bool" where
  "reuses_ok [] = True"
| "reuses_ok (ev # h) \<longleftrightarrow> reuse_ok ev h \<and> reuses_ok h"

text \<open>With \<open>S\<close>, the rules on reuse too.\<close>

definition lawful :: "bool \<Rightarrow> history \<Rightarrow> bool" where
  "lawful S h \<longleftrightarrow> valid h \<and> (S \<longrightarrow> reuses_ok h)"

lemma reuse_ok_simps [simp]:
  "reuse_ok (EWaitFence f t r) h" "reuse_ok (EAcquire sc t s u) h" "reuse_ok (EResetFence f r) h"
  "reuse_ok (EPresent qu p b) h" "reuse_ok (EWaitIdle r) h" "reuse_ok (EFenceStatus f q) h"
  by (simp_all add: reuse_ok_def)

lemma valid_some [simp]: "layer_of h = Some l \<Longrightarrow> valid h"
  by (simp add: valid_def)

lemma valid_suffix: "valid (es @ h) \<Longrightarrow> valid h"
  by (induction es) (auto simp: valid_def Option.bind_eq_Some_conv)

section \<open>Idle devices\<close>

definition idle :: "layer \<Rightarrow> bool" where
  "idle l \<longleftrightarrow> executing l = [] \<and> Pending \<notin> ran (fence_states l)"

lemma idle_all_done [simp]: "idle (all_done l)"
  by (auto simp: idle_def all_done_def ran_def)

text \<open>With an idle device, releasing and creating breaks no rule, and what was reset or waited for stays so.\<close>

definition steady_events :: "vk_event set" where
  "steady_events = {ev. case ev of
     ECreate ci _ \<Rightarrow> ci \<noteq> FenceInfo False | EAllocCommandBuffers _ _ _ \<Rightarrow> True | EFreeCommandBuffers _ _ \<Rightarrow> True
   | EDestroy k _ \<Rightarrow> k \<notin> {KSemaphore, KFence} | EQuery \<Rightarrow> True | EWaitIdle _ \<Rightarrow> True | _ \<Rightarrow> False}"

definition settled :: "layer \<Rightarrow> layer \<Rightarrow> bool" where
  "settled l l' \<longleftrightarrow> idle l' \<and> (\<forall>f. fence_states l f = Some Signaled \<longrightarrow> fence_states l' f = Some Signaled) \<and>
     (\<forall>s. sem_signaled l s = Some False \<longrightarrow> sem_signaled l' s = Some False)"

lemma settled_trans: "settled a b \<Longrightarrow> settled b c \<Longrightarrow> settled a c"
  by (simp add: settled_def)

lemma idle_event:
  assumes "idle l" and "ev \<in> steady_events"
  shows "\<exists>l'. layer_step ev l = Some l' \<and> settled l l'"
  using assms
  by (cases "(ev, l)" rule: layer_step.cases)
    (auto simp: steady_events_def settled_def idle_def ran_def all_done_def split: create_info.split if_splits)

lemma idle_events:
  assumes "layer_of h = Some l" and "idle l" and "set es \<subseteq> steady_events"
  shows "\<exists>l'. layer_of (es @ h) = Some l' \<and> settled l l'"
  using assms(3)
proof (induction es)
  case Nil
  then show ?case using assms(1,2) by (simp add: settled_def)
next
  case (Cons ev es)
  then obtain l' where l': "layer_of (es @ h) = Some l'" "settled l l'" by auto
  then have "idle l'" by (simp add: settled_def)
  from idle_event [OF this, of ev] Cons.prems l' show ?case by (auto intro: settled_trans)
qed

lemma steady_presents:
  assumes "set es \<subseteq> steady_events" and "presents h = []" "waiting h = []"
  shows "presents (es @ h) = []" "waiting (es @ h) = []" "reuses_ok (es @ h) = reuses_ok h"
  using assms by (induction es) (auto simp: steady_events_def reuse_ok_def split: vk_event.splits)

text \<open>So does destroying, of anything.\<close>

lemma idle_destroy:
  assumes "layer_of h = Some l" and "idle l"
  shows "\<exists>l'. layer_of (EDestroy k x # h) = Some l' \<and> idle l'"
  using assms by (auto simp: idle_def ran_def)

section \<open>The ring of frames\<close>

text \<open>
  Between two frames every slot of the ring is free: its fence is signalled or handed to a submission, no
  signal of its semaphores is outstanding. When a tick has acquired an image, the current slot is taken.
  \<open>queued\<close>: what may still be executing are submissions of the slots, one per slot at most.
\<close>

definition slot_free :: "layer \<Rightarrow> frame_sync \<Rightarrow> bool" where
  "slot_free l f \<longleftrightarrow> fence_states l (in_flight f) \<in> {Some Signaled, Some Pending} \<and>
     sem_signaled l (image_available f) = Some False \<and> sem_signaled l (render_finished f) = Some False"

definition slot_taken :: "layer \<Rightarrow> frame_sync \<Rightarrow> bool" where
  "slot_taken l f \<longleftrightarrow> fence_states l (in_flight f) = Some Unsignaled \<and>
     sem_signaled l (image_available f) = Some True \<and> sem_signaled l (render_finished f) = Some False"

definition distinct_sync :: "frame_sync list \<Rightarrow> bool" where
  "distinct_sync fs \<longleftrightarrow> distinct (map in_flight fs) \<and> distinct (map image_available fs @ map render_finished fs)"

definition queued :: "frame_sync list \<Rightarrow> layer \<Rightarrow> bool" where
  "queued fs l \<longleftrightarrow> distinct (map snd (executing l)) \<and>
     (\<forall>e\<in>set (executing l). fence_states l (snd e) = Some Pending \<and>
        (\<exists>f\<in>set fs. si_wait (fst e) = image_available f \<and> si_signal (fst e) = render_finished f \<and> snd e = in_flight f))"

definition ringed :: "window_ctx \<Rightarrow> layer \<Rightarrow> bool" where
  "ringed c l \<longleftrightarrow> layer_of (history c) = Some l \<and> current_frame c < length (frames c) \<and>
     length (frames c) = MAX_FRAMES_IN_FLIGHT \<and>
     distinct_sync (frames c) \<and> queued (frames c) l \<and> (\<forall>f\<in>set (frames c). slot_free l f)"

definition ring :: "window_ctx \<Rightarrow> bool" where
  "ring c \<longleftrightarrow> (\<exists>l. ringed c l)"

definition armed :: "u32 \<Rightarrow> window_ctx \<Rightarrow> bool" where
  "armed idx c \<longleftrightarrow> (\<exists>l. layer_of (history c) = Some l \<and> current_frame c < length (frames c) \<and>
     length (frames c) = MAX_FRAMES_IN_FLIGHT \<and>
     distinct_sync (frames c) \<and> queued (frames c) l \<and>
     (\<forall>f\<in>set (frames c). f \<noteq> the_frame c \<longrightarrow> slot_free l f) \<and> slot_taken l (the_frame c) \<and>
     (swapchain c, idx) \<in> acquired_images l)"

lemma ring_valid: "ring c \<Longrightarrow> valid (history c)"
  by (auto simp: ring_def ringed_def)

lemma ring_updates [simp]:
  "ring (c\<lparr>pending_resize := m\<rparr>) = ring c" "ring (c\<lparr>state := st\<rparr>) = ring c"
  by (simp_all add: ring_def ringed_def)

lemma armed_valid: "armed idx c \<Longrightarrow> valid (history c)"
  by (auto simp: armed_def)

lemma the_frame_in: "current_frame c < length (frames c) \<Longrightarrow> the_frame c \<in> set (frames c)"
  by (simp add: the_frame_def)

text \<open>Slots of the ring share no handle.\<close>

lemma distinct_syncD:
  assumes "distinct_sync fs" and "f \<in> set fs" and "g \<in> set fs"
  shows "in_flight f = in_flight g \<longleftrightarrow> f = g" "image_available f = image_available g \<longleftrightarrow> f = g"
    "render_finished f = render_finished g \<longleftrightarrow> f = g" "image_available f \<noteq> render_finished g"
  using assms by (auto simp: distinct_sync_def distinct_map inj_on_def)

text \<open>At most one submission per slot is executing.\<close>

lemma queued_bound: "queued fs l \<Longrightarrow> length (executing l) \<le> length fs"
proof -
  assume q: "queued fs l"
  have "length (executing l) = card (set (map snd (executing l)))"
    using q by (simp only: queued_def distinct_card length_map)
  also have "\<dots> \<le> card (in_flight ` set fs)" using q by (intro card_mono) (auto simp: queued_def)
  also have "\<dots> \<le> length fs" by (metis card_image_le card_length finite_set le_trans)
  finally show ?thesis .
qed

text \<open>Waiting for the fence of the current slot frees its semaphore for an acquire.\<close>

lemma ringed_wait:
  assumes "ringed c l"
  shows "ringed (record_event (EWaitFence (in_flight (the_frame c)) t (Inr ())) c) (fence_done (in_flight (the_frame c)) l)"
    and "\<not> waited_on (image_available (the_frame c)) (fence_done (in_flight (the_frame c)) l)"
    and "fence_states (fence_done (in_flight (the_frame c)) l) (in_flight (the_frame c)) = Some Signaled"
proof -
  have c: "the_frame c \<in> set (frames c)" "distinct_sync (frames c)"
    using assms the_frame_in by (auto simp: ringed_def)
  have "fence_states l (in_flight (the_frame c)) \<in> {Some Signaled, Some Pending}"
    using assms c(1) by (auto simp: ringed_def slot_free_def)
  then show "ringed (record_event (EWaitFence (in_flight (the_frame c)) t (Inr ())) c) (fence_done (in_flight (the_frame c)) l)"
    using assms by (auto simp: ringed_def queued_def slot_free_def fence_done_def distinct_map_filter)
  show "\<not> waited_on (image_available (the_frame c)) (fence_done (in_flight (the_frame c)) l)"
    using assms distinct_syncD(2) [OF c(2,1)] by (auto simp: ringed_def queued_def waited_on_def fence_done_def)
qed (simp add: fence_done_def)

lemma the_frame_record [simp]: "the_frame (c\<lparr>history := h\<rparr>) = the_frame c"
  by (simp add: the_frame_def)

text \<open>An acquire takes the semaphore of the current slot; the reset of its fence arms the slot.\<close>

definition fetched :: "u32 \<Rightarrow> window_ctx \<Rightarrow> layer \<Rightarrow> bool" where
  "fetched idx c l \<longleftrightarrow> layer_of (history c) = Some l \<and> current_frame c < length (frames c) \<and>
     length (frames c) = MAX_FRAMES_IN_FLIGHT \<and>
     distinct_sync (frames c) \<and> queued (frames c) l \<and>
     (\<forall>f\<in>set (frames c). f \<noteq> the_frame c \<longrightarrow> slot_free l f) \<and>
     fence_states l (in_flight (the_frame c)) = Some Signaled \<and>
     sem_signaled l (image_available (the_frame c)) = Some True \<and>
     sem_signaled l (render_finished (the_frame c)) = Some False \<and> (swapchain c, idx) \<in> acquired_images l"

lemma ringed_acquire:
  assumes "ringed c l" and "\<not> waited_on (image_available (the_frame c)) l"
    and "fence_states l (in_flight (the_frame c)) = Some Signaled"
  shows "\<exists>l'. fetched idx (record_event (EAcquire (swapchain c) t (image_available (the_frame c)) (Inr (idx, b))) c) l'"
    and "ringed (record_event (EAcquire sc t (image_available (the_frame c)) (Inl e)) c) l"
proof -
  have c: "the_frame c \<in> set (frames c)" "distinct_sync (frames c)"
    using assms(1) the_frame_in by (auto simp: ringed_def)
  have free: "slot_free l f" if "f \<in> set (frames c)" for f using assms(1) that by (simp add: ringed_def)
  note sem = free [OF c(1), unfolded slot_free_def]
  show "\<exists>l'. fetched idx (record_event (EAcquire (swapchain c) t (image_available (the_frame c)) (Inr (idx, b))) c) l'"
    using assms sem free distinct_syncD(2,4) [OF c(2)] distinct_syncD(4) [OF c(2,1)] c
    by (fastforce simp: fetched_def ringed_def slot_free_def queued_def)
  show "ringed (record_event (EAcquire sc t (image_available (the_frame c)) (Inl e)) c) l"
    using assms sem by (simp add: ringed_def)
qed

lemma fetched_reset:
  assumes "fetched idx c l"
  shows "armed idx (record_event (EResetFence (in_flight (the_frame c)) (Inr ())) c)"
    and "valid (EResetFence (in_flight (the_frame c)) r # history c)"
proof -
  have c: "the_frame c \<in> set (frames c)" "distinct_sync (frames c)"
    using assms the_frame_in by (auto simp: fetched_def)
  have other: "snd e \<noteq> in_flight (the_frame c)" if "e \<in> set (executing l)" for e
    using assms that by (auto simp: fetched_def queued_def)
  show "armed idx (record_event (EResetFence (in_flight (the_frame c)) (Inr ())) c)"
    using assms other distinct_syncD(1) [OF c(2) _ c(1)]
    by (auto simp: armed_def fetched_def queued_def slot_free_def slot_taken_def)
  show "valid (EResetFence (in_flight (the_frame c)) r # history c)"
    using assms by (simp add: fetched_def valid_def)
qed

section \<open>The order of slots and images\<close>

text \<open>
  For the rules on reuse the order counts: which slot and which image a submission had. The slots used last, newest
  first, with the images shown last, are the \<open>past\<close>; \<open>recent\<close> is the past without the current slot,
  which was used longest ago. What may be executing and what may be waiting must come from there.
\<close>

definition previous :: "window_ctx \<Rightarrow> frame_sync list" where
  "previous c = rev (rotate (current_frame c) (frames c))"

definition shown :: "history \<Rightarrow> u32 list" where
  "shown h = map pi_image_index (presents h)"

definition past :: "window_ctx \<Rightarrow> (frame_sync \<times> u32) list" where
  "past c = zip (previous c) (shown (history c))"

definition recent :: "window_ctx \<Rightarrow> (frame_sync \<times> u32) list" where
  "recent c = zip (butlast (previous c)) (shown (history c))"

definition runs_of :: "(frame_sync \<times> u32) list \<Rightarrow> window_ctx \<Rightarrow> bool" where
  "runs_of ps c \<longleftrightarrow> (\<forall>e\<in>set (executing_in (history c)). \<exists>f i. (f, i) \<in> set ps \<and> snd e = in_flight f \<and>
     unat i < length (command_buffers c) \<and> si_command_buffer (fst e) = command_buffers c ! unat i)"

definition waits_of :: "(frame_sync \<times> u32) list \<Rightarrow> window_ctx \<Rightarrow> bool" where
  "waits_of ps c \<longleftrightarrow> (\<forall>w\<in>set (waiting (history c)). pi_swapchain w = swapchain c \<and>
     (\<exists>f. (f, pi_image_index w) \<in> set ps \<and> pi_wait w = render_finished f))"

definition sound :: "window_ctx \<Rightarrow> bool" where
  "sound c \<longleftrightarrow> reuses_ok (history c) \<and> distinct (command_buffers c)"

definition ordered :: "window_ctx \<Rightarrow> bool" where
  "ordered c \<longleftrightarrow> sound c \<and> distinct (map snd (past c)) \<and> runs_of (past c) c \<and> waits_of (past c) c"

text \<open>
  When a tick has handed out image \<open>idx\<close>, nothing recent had that image, and all that is under way is recent.
  Then the current slot is submitted, and joins what is under way.
\<close>

definition ready_for :: "u32 \<Rightarrow> window_ctx \<Rightarrow> bool" where
  "ready_for idx c \<longleftrightarrow> sound c \<and> distinct (idx # map snd (recent c)) \<and> runs_of (recent c) c \<and> waits_of (recent c) c"

definition sent :: "u32 \<Rightarrow> window_ctx \<Rightarrow> bool" where
  "sent idx c \<longleftrightarrow> sound c \<and> distinct (idx # map snd (recent c)) \<and> runs_of ((the_frame c, idx) # recent c) c \<and>
     waits_of (recent c) c"

definition ring_in :: "bool \<Rightarrow> window_ctx \<Rightarrow> bool" where
  "ring_in S c \<longleftrightarrow> ring c \<and> (S \<longrightarrow> ordered c)"

definition armed_in :: "bool \<Rightarrow> u32 \<Rightarrow> window_ctx \<Rightarrow> bool" where
  "armed_in S idx c \<longleftrightarrow> armed idx c \<and> (S \<longrightarrow> ready_for idx c)"

lemmas order_defs = ordered_def ready_for_def sent_def sound_def runs_of_def waits_of_def past_def recent_def previous_def

lemma ring_in_lawful: "ring_in S c \<Longrightarrow> lawful S (history c)"
  by (auto simp: ring_in_def lawful_def ordered_def sound_def dest: ring_valid)

lemma armed_in_lawful: "armed_in S idx c \<Longrightarrow> lawful S (history c)"
  by (auto simp: armed_in_def lawful_def ready_for_def sound_def dest: armed_valid)

lemma ring_in_updates [simp]:
  "ring_in S (c\<lparr>pending_resize := m\<rparr>) = ring_in S c" "ring_in S (c\<lparr>state := st\<rparr>) = ring_in S c"
  by (simp_all add: ring_in_def order_defs)

text \<open>The slot used longest ago is the current one.\<close>

lemma rotate_here:
  assumes "i < length fs"
  shows "\<exists>xs. rotate i fs = fs ! i # xs \<and> rotate (Suc i mod length fs) fs = xs @ [fs ! i]"
proof -
  have "rotate i fs \<noteq> []" "hd (rotate i fs) = fs ! i" using assms hd_rotate_conv_nth [of fs i] by (cases "fs = []"; simp)+
  then obtain xs where xs: "rotate i fs = fs ! i # xs" by (cases "rotate i fs") auto
  have "rotate (Suc i mod length fs) fs = rotate1 (rotate i fs)" by (simp add: rotate_conv_mod [symmetric])
  with xs show ?thesis by auto
qed

lemma zip_take_length: "zip xs (take (length xs) ys) = zip xs ys"
  by (rule nth_equalityI) auto

lemma past_recent:
  assumes "current_frame c < length (frames c)"
  shows "past c = recent c @ (if length (shown (history c)) < length (frames c) then []
    else [(the_frame c, shown (history c) ! (length (frames c) - 1))])"
proof -
  obtain xs where xs: "rotate (current_frame c) (frames c) = the_frame c # xs"
    using rotate_here [OF assms] by (auto simp: the_frame_def)
  then have len: "length (frames c) = Suc (length xs)" by (metis length_rotate length_Cons)
  have "zip (rev xs @ [the_frame c]) is = zip (rev xs) is @ zip [the_frame c] (drop (length xs) is)" for "is" :: "u32 list"
    using zip_take_length [of "rev xs" "is"] by (simp add: zip_append1)
  moreover have "zip [the_frame c] (drop (length xs) is) =
      (if length is < length (frames c) then [] else [(the_frame c, is ! (length (frames c) - 1))])" for "is" :: "u32 list"
    unfolding len by (cases "drop (length xs) is") (auto simp: nth_via_drop dest: arg_cong [where f = length])
  ultimately show ?thesis by (simp add: past_def recent_def previous_def xs)
qed

lemma recent_frames:
  assumes "current_frame c < length (frames c)" "distinct (frames c)" and "(f, i) \<in> set (recent c)"
  shows "f \<in> set (frames c)" "f \<noteq> the_frame c"
proof -
  obtain xs where xs: "rotate (current_frame c) (frames c) = the_frame c # xs"
    using rotate_here [OF assms(1)] by (auto simp: the_frame_def)
  then have "distinct (the_frame c # xs)" "set (the_frame c # xs) = set (frames c)"
    using assms(2) by (metis distinct_rotate, metis set_rotate)
  moreover have "f \<in> set xs" using assms(3) by (auto simp: recent_def previous_def xs dest: set_zip_leftD)
  ultimately show "f \<in> set (frames c)" "f \<noteq> the_frame c" by auto
qed

text \<open>One presentation further.\<close>

lemma past_advance:
  assumes "current_frame c < length (frames c)" and "c' = c\<lparr>history := h, current_frame := Suc (current_frame c) mod length (frames c)\<rparr>"
    and "presents h = p # presents (history c)"
  shows "past c' = (the_frame c, pi_image_index p) # recent c"
proof -
  obtain xs where "rotate (current_frame c) (frames c) = the_frame c # xs"
    "rotate (Suc (current_frame c) mod length (frames c)) (frames c) = xs @ [the_frame c]"
    using rotate_here [OF assms(1)] by (auto simp: the_frame_def)
  then show ?thesis using assms(2,3) by (simp add: past_def recent_def previous_def shown_def)
qed

lemma distinct_frames: "distinct_sync fs \<Longrightarrow> distinct fs"
  by (auto simp: distinct_sync_def distinct_map)

text \<open>The images come in turn: a new one as long as there are some, then the one shown longest ago.\<close>

definition next_up :: "u32 \<Rightarrow> u32 list \<Rightarrow> bool" where
  "next_up idx is \<longleftrightarrow> (if length is < MAX_FRAMES_IN_FLIGHT then idx \<notin> set is else idx = is ! (MAX_FRAMES_IN_FLIGHT - 1))"

lemma ordered_wait:
  assumes "ringed c l" "ordered c"
  shows "ordered (record_event (EWaitFence (in_flight (the_frame c)) t r) c)"
    and "runs_of (recent c) (record_event (EWaitFence (in_flight (the_frame c)) t (Inr ())) c)"
proof -
  let ?f = "the_frame c" and ?ev = "EWaitFence (in_flight (the_frame c)) t"
  have cur: "current_frame c < length (frames c)" "distinct_sync (frames c)" "layer_of (history c) = Some l"
    using assms(1) by (auto simp: ringed_def)
  have "fence_states l (in_flight ?f) \<in> {Some Signaled, Some Pending}"
    using assms(1) the_frame_in [OF cur(1)] by (auto simp: ringed_def slot_free_def)
  then have exec: "executing_in (?ev r # history c) =
      (if r = Inr () then filter (\<lambda>e. snd e \<noteq> in_flight ?f) (executing l) else executing l)" for r
    using cur(3) by (auto simp: executing_in_def fence_done_def)
  have same: "past (record_event (?ev r) c) = past c" "waits_of ps (record_event (?ev r) c) = waits_of ps c"
    "sound (record_event (?ev r) c) = sound c" for r ps
    by (simp_all add: order_defs shown_def)
  show "ordered (record_event (?ev r) c)"
    using assms(2) unfolding ordered_def same by (auto simp: runs_of_def exec executing_in_layer [OF cur(3)])
  show "runs_of (recent c) (record_event (?ev (Inr ())) c)"
    unfolding runs_of_def
  proof
    fix e assume "e \<in> set (executing_in (history (record_event (?ev (Inr ())) c)))"
    then have e: "e \<in> set (executing l)" "snd e \<noteq> in_flight ?f" by (simp_all add: exec)
    then obtain f i where fi: "(f, i) \<in> set (past c)" "snd e = in_flight f" "unat i < length (command_buffers c)"
      "si_command_buffer (fst e) = command_buffers c ! unat i"
      using assms(2) by (auto simp: ordered_def runs_of_def executing_in_layer [OF cur(3)])
    then have "f \<noteq> ?f" using e(2) by auto
    then have "(f, i) \<in> set (recent c)" using fi(1) past_recent [OF cur(1)] by (auto split: if_splits)
    with fi show "\<exists>f i. (f, i) \<in> set (recent c) \<and> snd e = in_flight f \<and>
        unat i < length (command_buffers (record_event (?ev (Inr ())) c)) \<and>
        si_command_buffer (fst e) = command_buffers (record_event (?ev (Inr ())) c) ! unat i" by auto
  qed
qed

lemma executing_in_step:
  assumes "valid (ev # h)"
  shows "\<And>sc t s r. ev = EAcquire sc t s r \<Longrightarrow> executing_in (ev # h) = executing_in h"
    and "\<And>f r. ev = EResetFence f r \<Longrightarrow> executing_in (ev # h) = executing_in h"
    and "\<And>q p r. ev = EPresent q p r \<Longrightarrow> executing_in (ev # h) = executing_in h"
    and "\<And>q i f. ev = ESubmit q i f (Inr ()) \<Longrightarrow> executing_in (ev # h) = (i, f) # executing_in h"
  using assms by (auto simp: executing_in_def valid_def Option.bind_eq_Some_conv split: if_splits sum.splits)

lemma ordered_acquire:
  assumes "ordered c" "runs_of (recent c) c" "current_frame c < length (frames c)" "length (frames c) = MAX_FRAMES_IN_FLIGHT"
    and v: "valid (EAcquire (swapchain c) t s r # history c)"
  shows "r = Inl e \<Longrightarrow> ordered (record_event (EAcquire (swapchain c) t s r) c)"
    and "r = Inr (idx, b) \<Longrightarrow> next_up idx (shown (history c)) \<Longrightarrow> ready_for idx (record_event (EAcquire (swapchain c) t s r) c)"
proof -
  let ?c = "record_event (EAcquire (swapchain c) t s r) c"
  have same: "past ?c = past c" "recent ?c = recent c" "runs_of ps ?c = runs_of ps c" "sound ?c = sound c" for ps
    using executing_in_step(1) [OF v refl] by (simp_all add: order_defs shown_def)
  show "ordered ?c" if "r = Inl e"
    using assms(1) that unfolding ordered_def same by (simp add: waits_of_def)
  show "ready_for idx ?c" if r: "r = Inr (idx, b)" and n: "next_up idx (shown (history c))"
  proof -
    let ?is = "shown (history c)"
    note past = past_recent [OF assms(3), unfolded assms(4)]
    have dist: "distinct (idx # map snd (recent c))"
    proof (cases "length ?is < MAX_FRAMES_IN_FLIGHT")
      case True
      then have "idx \<notin> set ?is" using n by (simp add: next_up_def)
      then have "idx \<notin> snd ` set (recent c)" by (auto simp: recent_def dest: set_zip_rightD)
      then show ?thesis using assms(1) past True by (simp add: ordered_def)
    next
      case False
      then show ?thesis using assms(1) past n by (simp add: ordered_def next_up_def)
    qed
    have "waits_of (recent c) ?c"
      unfolding waits_of_def
    proof
      fix w assume w: "w \<in> set (waiting (history ?c))"
      then have old: "w \<in> set (waiting (history c))" "(pi_swapchain w, pi_image_index w) \<noteq> (swapchain c, idx)"
        using r by auto
      from old(1) assms(1) obtain f where f: "pi_swapchain w = swapchain c" "(f, pi_image_index w) \<in> set (past c)"
        "pi_wait w = render_finished f" by (auto simp: ordered_def waits_of_def)
      with old(2) have "(f, pi_image_index w) \<in> set (recent c)"
        using n past by (auto simp: next_up_def split: if_splits)
      with f show "pi_swapchain w = swapchain ?c \<and>
          (\<exists>f. (f, pi_image_index w) \<in> set (recent c) \<and> pi_wait w = render_finished f)" by auto
    qed
    then show ?thesis using assms(1,2) dist unfolding ready_for_def same by (simp add: ordered_def)
  qed
qed

lemma ready_reset:
  assumes "ready_for idx c" "valid (EResetFence f r # history c)"
  shows "ready_for idx (record_event (EResetFence f r) c)"
  using assms executing_in_step(2) [OF assms(2) refl] by (simp add: order_defs shown_def)

lemma ready_submit:
  assumes "ready_for idx c" "current_frame c < length (frames c)" "distinct_sync (frames c)"
    and i: "unat idx < length (command_buffers c)" "si_command_buffer i = command_buffers c ! unat idx"
      "si_signal i = render_finished (the_frame c)"
  shows "reuse_ok (ESubmit q i f r) (history c)"
    and "valid (ESubmit q i (in_flight (the_frame c)) (Inr ()) # history c) \<Longrightarrow>
      sent idx (record_event (ESubmit q i (in_flight (the_frame c)) (Inr ())) c)"
proof -
  note recent = recent_frames [OF assms(2) distinct_frames [OF assms(3)]]
  have sem: "render_finished g \<noteq> si_signal i" if "(g, j) \<in> set (recent c)" for g j
    using recent [OF that] distinct_syncD(3) [OF assms(3) _ the_frame_in [OF assms(2)]] i(3) by auto
  have "command_buffers c ! unat j \<noteq> si_command_buffer i" if "(g, j) \<in> set (recent c)" "unat j < length (command_buffers c)" for g j
  proof -
    have "j \<noteq> idx" using assms(1) that(1) by (force simp: ready_for_def)
    then have "unat j \<noteq> unat idx" by (simp add: word_unat_eq_iff)
    then show ?thesis using assms(1) i(1,2) that(2) by (simp add: ready_for_def sound_def nth_eq_iff_index_eq)
  qed
  then have "si_command_buffer (fst e) \<noteq> si_command_buffer i" if "e \<in> set (executing_in (history c))" for e
    using assms(1) that by (fastforce simp: ready_for_def runs_of_def)
  moreover have "pi_wait w \<noteq> si_signal i" if "w \<in> set (waiting (history c))" for w
    using assms(1) that sem by (fastforce simp: ready_for_def waits_of_def)
  ultimately show ok: "reuse_ok (ESubmit q i f r) (history c)" for f r by (fastforce simp: reuse_ok_def)
  assume v: "valid (ESubmit q i (in_flight (the_frame c)) (Inr ()) # history c)"
  show "sent idx (record_event (ESubmit q i (in_flight (the_frame c)) (Inr ())) c)"
    using assms(1) i(1,2) ok executing_in_step(4) [OF v refl]
    by (fastforce simp: sent_def ready_for_def sound_def runs_of_def waits_of_def recent_def previous_def shown_def)
qed

lemma sent_present:
  assumes "sent idx c" "current_frame c < length (frames c)" "valid (EPresent q p r # history c)"
    and "pi_wait p = render_finished (the_frame c)" "pi_swapchain p = swapchain c" "pi_image_index p = idx"
  shows "ordered (c\<lparr>history := EPresent q p r # history c, current_frame := Suc (current_frame c) mod length (frames c)\<rparr>)"
    (is "ordered ?c")
proof -
  have past: "past ?c = (the_frame c, idx) # recent c"
    using past_advance [OF assms(2) refl, of "EPresent q p r # history c" p] assms(6) by simp
  have "executing_in (history ?c) = executing_in (history c)" using executing_in_step(3) [OF assms(3) refl] by simp
  then have "runs_of (past ?c) ?c" using assms(1) by (simp add: sent_def runs_of_def past)
  moreover have "waits_of (past ?c) ?c"
    using assms(1,4-6) by (auto simp: sent_def waits_of_def past split: if_splits)
  ultimately show ?thesis using assms(1) past by (simp add: ordered_def sent_def sound_def)
qed

section \<open>The frame calls follow the rules\<close>

lemma wps_current_sync:
  "current_frame c < length (frames c) \<Longrightarrow> Q (the_frame c) c \<Longrightarrow> wps current_sync Q E c"
  by (simp add: wps_def current_sync_run the_frame_def)

lemma wps_wait_acquire:
  assumes "ring_in S c" and f: "f = the_frame c" and E: "\<And>h. lawful S h \<Longrightarrow> E (c\<lparr>history := h\<rparr>)"
    and turn: "\<And>h idx b. S \<Longrightarrow> d_acquire d h (swapchain c) t' (image_available f) = Inr (idx, b) \<Longrightarrow> next_up idx (shown h)"
    and err: "\<And>h h' e. ring_in S (c\<lparr>history := h\<rparr>) \<Longrightarrow> d_acquire d h' (swapchain c) t' (image_available f) = Inl e \<Longrightarrow>
      wps (k (Inl e)) Q (\<lambda>_. E) (c\<lparr>history := h\<rparr>)"
    and ok: "\<And>h h' idx b l. fetched idx (c\<lparr>history := h\<rparr>) l \<Longrightarrow> (S \<Longrightarrow> ready_for idx (c\<lparr>history := h\<rparr>)) \<Longrightarrow>
      d_acquire d h' (swapchain c) t' (image_available f) = Inr (idx, b) \<Longrightarrow>
      wps (k (Inr (idx, b))) Q (\<lambda>_. E) (c\<lparr>history := h\<rparr>)"
  shows "wps (sbind (qmark VkError (wait_fence d (in_flight f) t)) (\<lambda>_.
      sbind (sget swapchain) (\<lambda>sc. sbind (attempt (acquire_image d sc t' (image_available f))) k)))
    Q (\<lambda>_. E) c"
proof -
  obtain l where l: "ringed c l" and S: "S \<Longrightarrow> ordered c" using assms(1) by (auto simp: ring_in_def ring_def)
  let ?w = "EWaitFence (in_flight f) t" and ?l = "fence_done (in_flight f) l"
  let ?c = "record_event (?w (Inr ())) c"
  note wait = ringed_wait(1) [OF l, where t = t, folded f] ringed_wait(2,3) [OF l, folded f]
  have cur: "current_frame c < length (frames c)" "length (frames c) = MAX_FRAMES_IN_FLIGHT"
    using l by (auto simp: ringed_def)
  have "valid (?w (Inl r) # history c)" for r
    using l the_frame_in [of c] unfolding f by (auto simp: ringed_def slot_free_def valid_def)
  moreover have "reuses_ok (history c)" if S using S [OF that] by (simp add: ordered_def sound_def)
  ultimately have waited: "lawful S (?w (Inl r) # history c)" for r by (simp add: lawful_def)
  have order: "ordered ?c" "runs_of (recent ?c) ?c" if S
    using ordered_wait [OF l S [OF that], of t, folded f] by (simp_all add: recent_def previous_def shown_def)
  have "wps (attempt (acquire_image d (swapchain c) t' (image_available f))) (\<lambda>x. wps (k x) Q (\<lambda>_. E)) (\<lambda>_. E) ?c"
    unfolding acquire_image_def wps_attempt
  proof (rule wps_vk_call, goal_cases)
    case (1 x)
    obtain idx b where x: "x = (idx, b)" by force
    let ?h = "EAcquire (swapchain c) t' (image_available f) (Inr (idx, b)) # ?w (Inr ()) # history c"
    obtain l' where l': "fetched idx (c\<lparr>history := ?h\<rparr>) l'"
      using ringed_acquire(1) [OF wait(1), where t = t' and idx = idx and b = b] wait(2,3) by (auto simp: f)
    have "ready_for idx (c\<lparr>history := ?h\<rparr>)" if S
    proof -
      have v: "valid (EAcquire (swapchain ?c) t' (image_available f) (Inr (idx, b)) # history ?c)"
        using l' by (simp add: fetched_def)
      have "next_up idx (shown (history ?c))" using turn [OF that] 1 x by simp
      from ordered_acquire(2) [OF order [OF that] _ _ v refl this] cur show ?thesis by simp
    qed
    from ok [OF l' this] 1 show ?case by (auto simp: x)
  next
    case (2 r)
    let ?h = "EAcquire (swapchain c) t' (image_available f) (Inl r) # ?w (Inr ()) # history c"
    have ring: "ring (c\<lparr>history := ?h\<rparr>)"
      using ringed_acquire(2) [OF wait(1)] wait(2,3) by (auto simp: f ring_def)
    have "ordered (c\<lparr>history := ?h\<rparr>)" if S
    proof -
      have v: "valid (EAcquire (swapchain ?c) t' (image_available f) (Inl r) # history ?c)"
        using ring_valid [OF ring] by simp
      from ordered_acquire(1) [OF order [OF that] _ _ v refl] cur show ?thesis by simp
    qed
    with ring have "ring_in S (c\<lparr>history := ?h\<rparr>)" by (simp add: ring_in_def)
    from err [OF this] 2 show ?case by simp
  qed
  then show ?thesis
    using E [OF waited] by (auto simp: wait_fence_def intro!: wps_vk_call)
qed

text \<open>The end of a tick that hands out an image.\<close>

lemma wps_reset_acquired:
  assumes "fetched idx c l" and S: "S \<Longrightarrow> ready_for idx c" and f: "f = the_frame c"
    and "\<And>h a. armed_in S idx (c\<lparr>history := h\<rparr>) \<Longrightarrow> aq_image_index a = idx \<Longrightarrow> Q (Acquired a) (c\<lparr>history := h\<rparr>)"
    and "\<And>h. lawful S h \<Longrightarrow> E (c\<lparr>history := h\<rparr>)"
  shows "wps (sbind (qmark VkError (reset_fence d (in_flight f))) (\<lambda>_. acquired_at idx)) Q (\<lambda>_. E) c"
proof -
  let ?r = "EResetFence (in_flight f)"
  have v: "valid (?r r # history c)" for r unfolding f by (rule fetched_reset(2) [OF assms(1)])
  have ready: "ready_for idx (record_event (?r r) c)" if S for r by (rule ready_reset [OF S [OF that] v])
  then have law: "lawful S (?r r # history c)" for r
    using v by (auto simp: lawful_def ready_for_def sound_def)
  have "armed idx (record_event (?r (Inr ())) c)" unfolding f by (rule fetched_reset(1) [OF assms(1)])
  with ready have "armed_in S idx (record_event (?r (Inr ())) c)" by (simp add: armed_in_def)
  then have "wps (acquired_at idx) Q (\<lambda>_. E) (record_event (?r (Inr ())) c)"
    using assms(4,5) law by (auto simp: acquired_at_def split: sum.split)
  then show ?thesis using law assms(5) by (auto simp: reset_fence_def intro!: wps_vk_call)
qed

text \<open>A submission of the armed slot, and the presentation that waits for it.\<close>

definition fired :: "u32 \<Rightarrow> window_ctx \<Rightarrow> bool" where
  "fired idx c \<longleftrightarrow> (\<exists>l. layer_of (history c) = Some l \<and> current_frame c < length (frames c) \<and>
     length (frames c) = MAX_FRAMES_IN_FLIGHT \<and>
     distinct_sync (frames c) \<and> queued (frames c) l \<and>
     (\<forall>f\<in>set (frames c). f \<noteq> the_frame c \<longrightarrow> slot_free l f) \<and>
     fence_states l (in_flight (the_frame c)) = Some Pending \<and>
     sem_signaled l (image_available (the_frame c)) = Some False \<and>
     sem_signaled l (render_finished (the_frame c)) = Some True \<and> (swapchain c, idx) \<in> acquired_images l)"

lemma armed_submit:
  assumes "armed idx c" and "si_wait i = image_available (the_frame c)" "si_signal i = render_finished (the_frame c)"
  shows "valid (ESubmit q i (in_flight (the_frame c)) r # history c)"
    and "fired idx (record_event (ESubmit q i (in_flight (the_frame c)) (Inr ())) c)"
proof -
  obtain l where len: "length (frames c) = MAX_FRAMES_IN_FLIGHT"
    and l: "layer_of (history c) = Some l" "current_frame c < length (frames c)"
    "distinct_sync (frames c)" "queued (frames c) l" "\<forall>f\<in>set (frames c). f \<noteq> the_frame c \<longrightarrow> slot_free l f"
    "slot_taken l (the_frame c)" "(swapchain c, idx) \<in> acquired_images l"
    using assms(1) by (auto simp: armed_def)
  let ?f = "the_frame c"
  note taken = l(6) [unfolded slot_taken_def]
  show "valid (ESubmit q i (in_flight ?f) r # history c)" using l(1) taken assms(2,3) by (simp add: valid_def)
  define l' where "l' = l\<lparr>fence_states := (fence_states l)(in_flight ?f \<mapsto> Pending),
    sem_signaled := (sem_signaled l)(image_available ?f \<mapsto> False, render_finished ?f \<mapsto> True),
    executing := (i, in_flight ?f) # executing l\<rparr>"
  have step: "layer_of (ESubmit q i (in_flight ?f) (Inr ()) # history c) = Some l'"
    using l(1) taken assms(2,3) by (simp add: l'_def)
  have "in_flight ?f \<notin> snd ` set (executing l)" using l(4) taken by (fastforce simp: queued_def)
  then have q: "queued (frames c) l'"
    using l(4) the_frame_in [OF l(2)] assms(2,3) by (auto simp: queued_def l'_def)
  have "slot_free l' f" if "f \<in> set (frames c)" "f \<noteq> ?f" for f
    using l(5) that distinct_syncD [OF l(3) that(1) the_frame_in [OF l(2)]]
      distinct_syncD(4) [OF l(3) the_frame_in [OF l(2)] that(1)]
    by (auto simp: slot_free_def l'_def)
  then show "fired idx (record_event (ESubmit q i (in_flight ?f) (Inr ())) c)"
    using step q len l(2,3,7) taken distinct_syncD(4) [OF l(3) the_frame_in [OF l(2)] the_frame_in [OF l(2)]]
    unfolding fired_def by (intro exI [of _ l']) (simp add: l'_def)
qed

lemma fired_present:
  assumes "fired idx c"
    and "pi_wait p = render_finished (the_frame c)" "pi_swapchain p = swapchain c" "pi_image_index p = idx"
  shows "valid (EPresent q p r # history c)" and "present_waits r \<Longrightarrow> ring (record_event (EPresent q p r) c)"
proof -
  obtain l where len: "length (frames c) = MAX_FRAMES_IN_FLIGHT"
    and l: "layer_of (history c) = Some l" "current_frame c < length (frames c)"
    "distinct_sync (frames c)" "queued (frames c) l" "\<forall>f\<in>set (frames c). f \<noteq> the_frame c \<longrightarrow> slot_free l f"
    "fence_states l (in_flight (the_frame c)) = Some Pending"
    "sem_signaled l (image_available (the_frame c)) = Some False"
    "sem_signaled l (render_finished (the_frame c)) = Some True" "(swapchain c, idx) \<in> acquired_images l"
    using assms(1) by (auto simp: fired_def)
  let ?f = "the_frame c"
  show "valid (EPresent q p r # history c)" using l(1,8,9) assms(2-) by (simp add: valid_def)
  assume "present_waits r"
  define l' where "l' = l\<lparr>sem_signaled := (sem_signaled l)(render_finished ?f \<mapsto> False),
    acquired_images := acquired_images l - {(swapchain c, idx)}\<rparr>"
  have step: "layer_of (EPresent q p r # history c) = Some l'"
    using l(1,8,9) assms(2-) \<open>present_waits r\<close> by (simp add: l'_def)
  have "slot_free l' f" if "f \<in> set (frames c)" for f
    using l(5-7) that distinct_syncD [OF l(3) that the_frame_in [OF l(2)]]
    by (cases "f = ?f") (auto simp: slot_free_def l'_def)
  moreover have "queued (frames c) l'" using l(4) by (simp add: queued_def l'_def)
  ultimately show "ring (record_event (EPresent q p r) c)"
    using step len l(2,3) by (auto simp: ring_def ringed_def)
qed

lemma ring_advance:
  "ring c \<Longrightarrow> i < length (frames c) \<Longrightarrow> ring (c\<lparr>current_frame := i\<rparr>)"
  by (auto simp: ring_def ringed_def)

lemma wps_submit_present:
  assumes "armed_in S idx c"
    and build: "\<And>c' w h e h' i. ring_in S c' \<Longrightarrow> d_present d h' i = Inl e \<Longrightarrow> e \<in> {SUBOPTIMAL_KHR, ERROR_OUT_OF_DATE_KHR} \<Longrightarrow>
      wps (build w h) (\<lambda>_ c''. ring_in S c'' \<and> pending_resize c'' = pending_resize c') (\<lambda>_ c''. lawful S (history c'')) c'"
  shows "wps (submit_and_present_with build d idx) (\<lambda>_ c'. ring_in S c' \<and> pending_resize c' = pending_resize c)
    (\<lambda>_ c'. lawful S (history c')) c"
proof -
  have arm: "armed idx c" and S: "S \<Longrightarrow> ready_for idx c" using assms(1) by (auto simp: armed_in_def)
  have cur: "current_frame c < length (frames c)" "distinct_sync (frames c)" using arm by (auto simp: armed_def)
  let ?f = "the_frame c" and ?q = "sd_graphics_queue (shared c)"
  let ?p = "\<lparr>pi_wait = render_finished ?f, pi_swapchain = swapchain c, pi_image_index = idx\<rparr>"
  let ?i = "submit_info_at c idx"
  have rest: "wps (sbind (attempt (queue_present d ?q ?p)) (\<lambda>result.
     sbind (supd (\<lambda>c. c\<lparr>current_frame := (current_frame c + 1) mod length (frames c)\<rparr>)) (\<lambda>_.
     case result of
       Inr _ \<Rightarrow> sret ()
     | Inl ERROR_OUT_OF_DATE_KHR \<Rightarrow> sbind (sget extent) (\<lambda>ext. build (ewidth ext) (eheight ext))
     | Inl SUBOPTIMAL_KHR \<Rightarrow> sbind (sget extent) (\<lambda>ext. build (ewidth ext) (eheight ext))
     | Inl e \<Rightarrow> sfail (Error (VkError e)))))
    (\<lambda>_ c'. ring_in S c' \<and> pending_resize c' = pending_resize c) (\<lambda>_ c'. lawful S (history c')) c1"
    if fire: "fired idx c1" "S \<Longrightarrow> sent idx c1"
      and same: "the_frame c1 = ?f" "pending_resize c1 = pending_resize c" "swapchain c1 = swapchain c" for c1
  proof -
    have len: "0 < length (frames c1)" "current_frame c1 < length (frames c1)" using fire(1) by (auto simp: fired_def)
    note present = fired_present [OF fire(1), of ?p, unfolded same, simplified]
    have law: "lawful S (EPresent ?q ?p r # history c1)" for r
      using present(1) fire(2) by (auto simp: lawful_def sent_def sound_def)
    have next_slot: "ring_in S (c1\<lparr>history := EPresent ?q ?p r # history c1,
        current_frame := Suc (current_frame c1) mod length (frames c1)\<rparr>)" if "present_waits r" for r
    proof -
      have "ring (c1\<lparr>history := EPresent ?q ?p r # history c1,
          current_frame := Suc (current_frame c1) mod length (frames c1)\<rparr>)"
        using present(2) [OF that] len same(1) ring_advance [of "record_event (EPresent ?q ?p r) c1"] by simp
      moreover have "ordered (c1\<lparr>history := EPresent ?q ?p r # history c1,
          current_frame := Suc (current_frame c1) mod length (frames c1)\<rparr>)" if S
        by (rule sent_present [OF fire(2) [OF that] len(2) present(1)]) (simp_all add: same)
      ultimately show ?thesis by (simp add: ring_in_def)
    qed
    have again: "wps (build w h) (\<lambda>_ c'. ring_in S c' \<and> pending_resize c' = pending_resize c) (\<lambda>_ c'. lawful S (history c'))
        (c1\<lparr>history := EPresent ?q ?p (Inl e) # history c1,
          current_frame := Suc (current_frame c1) mod length (frames c1)\<rparr>)"
      if "d_present d (history c1) ?p = Inl e" "e \<in> {SUBOPTIMAL_KHR, ERROR_OUT_OF_DATE_KHR}" for e w h
      using build [OF next_slot that, where w = w and h = h] that(2) same(2) by (simp add: present_waits_def)
    show ?thesis
      using law next_slot again same
      by (auto simp: queue_present_def present_waits_def split: vk_result.split intro!: wps_vk_call)
  qed
  have submitted: "lawful S (ESubmit ?q ?i (in_flight ?f) r # history c)"
    "fired idx (record_event (ESubmit ?q ?i (in_flight ?f) (Inr ())) c)"
    "S \<Longrightarrow> sent idx (record_event (ESubmit ?q ?i (in_flight ?f) (Inr ())) c)"
    if "unat idx < length (command_buffers c)" for r
  proof -
    note base = armed_submit [OF arm, of ?i, unfolded submit_info_at_def, simplified, folded submit_info_at_def]
    show "fired idx (record_event (ESubmit ?q ?i (in_flight ?f) (Inr ())) c)" using base(2) by simp
    have ready: "S \<Longrightarrow> reuse_ok (ESubmit ?q ?i (in_flight ?f) r) (history c)"
      "S \<Longrightarrow> sent idx (record_event (ESubmit ?q ?i (in_flight ?f) (Inr ())) c)" for r
      using ready_submit [OF S cur \<open>unat idx < _\<close>, of ?i] base(1) by (simp_all add: submit_info_at_def)
    show "S \<Longrightarrow> sent idx (record_event (ESubmit ?q ?i (in_flight ?f) (Inr ())) c)" by (rule ready(2))
    show "lawful S (ESubmit ?q ?i (in_flight ?f) r # history c)"
      using base(1) ready(1) S by (auto simp: lawful_def ready_for_def sound_def)
  qed
  show ?thesis
    unfolding submit_and_present_with_def wps_sbind
    by (rule wps_current_sync [OF cur(1)])
      (use rest submitted armed_in_lawful [OF assms(1)] in
        \<open>auto simp: queue_submit_def submit_info_at_def index_def split: sum.split intro!: wps_vk_call\<close>)
qed

section \<open>Builds and drops behind a wait for the device\<close>

definition created_in :: "history \<Rightarrow> frame_sync \<Rightarrow> bool" where
  "created_in es f \<longleftrightarrow> ECreate (FenceInfo True) (Inr (in_flight f)) \<in> set es \<and>
     ECreate SemaphoreInfo (Inr (image_available f)) \<in> set es \<and>
     ECreate SemaphoreInfo (Inr (render_finished f)) \<in> set es"

text \<open>What a build does: no frame call, and the frames are the old ones or, the first time, new ones.\<close>

definition builds :: "window_ctx \<Rightarrow> window_ctx \<Rightarrow> bool" where
  "builds c c' \<longleftrightarrow> (\<exists>es. history c' = es @ history c \<and> set es \<subseteq> steady_events \<and>
     current_frame c' = current_frame c \<and> pending_resize c' = pending_resize c \<and>
     (frames c' = frames c \<or> frames c = [] \<and> (\<forall>f\<in>set (frames c'). created_in es f)))"

lemma created_in_append: "created_in es f \<Longrightarrow> created_in (es' @ es) f" "created_in es' f \<Longrightarrow> created_in (es' @ es) f"
  by (auto simp: created_in_def)

interpretation build: preorder_on_states builds
proof
  show "builds c c" for c by (simp add: builds_def)
next
  fix a b c
  assume "builds a b" "builds b c"
  then obtain es es' where es: "history b = es @ history a" "set es \<subseteq> steady_events"
      "frames b = frames a \<or> frames a = [] \<and> (\<forall>f\<in>set (frames b). created_in es f)"
    and es': "history c = es' @ history b" "set es' \<subseteq> steady_events"
      "frames c = frames b \<or> frames b = [] \<and> (\<forall>f\<in>set (frames c). created_in es' f)"
    and same: "current_frame c = current_frame a" "pending_resize c = pending_resize a"
    by (auto simp: builds_def)
  from es(3) es'(3) have "frames c = frames a \<or> frames a = [] \<and> (\<forall>f\<in>set (frames c). created_in (es' @ es) f)"
    by (auto intro: created_in_append)
  with es(1,2) es'(1,2) same show "builds a c"
    unfolding builds_def by (intro exI [of _ "es' @ es"]) simp
qed

lemma builds_event: "ev \<in> steady_events \<Longrightarrow> builds c (record_event ev c)"
  unfolding builds_def by (intro exI [of _ "[ev]"]) simp

lemma steady_events_simps [simp]:
  "ECreate ci r \<in> steady_events \<longleftrightarrow> ci \<noteq> FenceInfo False" "EAllocCommandBuffers pool n q \<in> steady_events"
  "EFreeCommandBuffers pool cbs \<in> steady_events" "EQuery \<in> steady_events" "EWaitIdle u \<in> steady_events"
  "EDestroy k x \<in> steady_events \<longleftrightarrow> k \<notin> {KSemaphore, KFence}"
  by (simp_all add: steady_events_def)

lemma builds_calls:
  "(\<And>r. ev r \<in> steady_events) \<Longrightarrow> stable builds np (vk_call reply ev)"
  "ev' \<in> steady_events \<Longrightarrow> stable builds np (vk_do ev')"
  by (auto simp: stable_def builds_event intro!: wps_vk_call)

lemma builds_same:
  "(\<And>c. history (g c) = history c \<and> frames (g c) = frames c \<and> current_frame (g c) = current_frame c \<and>
     pending_resize (g c) = pending_resize c) \<Longrightarrow> stable builds np (supd g)"
  by (intro build.stable_supd) (simp add: builds_def)

lemma wps_create_frame_events:
  assumes "\<And>es f. set es \<subseteq> steady_events \<Longrightarrow> created_in es f \<Longrightarrow> Q f (c\<lparr>history := es @ history c\<rparr>)"
    and "\<And>es e. set es \<subseteq> steady_events \<Longrightarrow> \<not> is_panic e \<Longrightarrow> E e (c\<lparr>history := es @ history c\<rparr>)"
  shows "wps (create_frame d) Q E c"
proof -
  have Q: "Q f (c\<lparr>history := e1 # e2 # e3 # history c\<rparr>)"
    if "e3 = ECreate SemaphoreInfo (Inr (image_available f))" "e2 = ECreate SemaphoreInfo (Inr (render_finished f))"
      "e1 = ECreate (FenceInfo True) (Inr (in_flight f))" for e1 e2 e3 f
    using assms(1) [of "[e1, e2, e3]" f] that by (simp add: created_in_def)
  have E: "E (Error r) (c\<lparr>history := es\<rparr>)" if "\<exists>es'. es = es' @ history c \<and> set es' \<subseteq> steady_events" for es r
    using assms(2) that by fastforce
  show ?thesis
    unfolding create_frame_def create_def
    by (auto intro!: wps_vk_call Q E)
qed

lemma ensure_frames_builds: "stable builds False (ensure_frames d)"
  unfolding stable_def
proof
  fix c
  show "wps (ensure_frames d) (\<lambda>_. builds c) (\<lambda>e c'. builds c c' \<and> (False \<longrightarrow> \<not> is_panic e)) c"
  proof (cases "frames c = []")
    case True
    let ?I = "\<lambda>(ys :: (nat \<times> frame_sync) list) (zs :: nat list) s. \<exists>es. s = c\<lparr>history := es @ history c\<rparr> \<and>
      set es \<subseteq> steady_events \<and> (\<forall>f\<in>set (map snd ys). created_in es f)"
    have "wps (scollect (\<lambda>_. create_frame d) [0..<MAX_FRAMES_IN_FLIGHT])
        (\<lambda>fs s. builds c (s\<lparr>frames := fs\<rparr>)) (\<lambda>_. builds c) c"
    proof (rule wps_scollect [where I = ?I])
      show "?I [] [0..<MAX_FRAMES_IN_FLIGHT] c" by (rule exI [of _ "[]"]) simp
    next
      fix ys i zs s
      assume "?I ys (i # zs) s"
      then obtain es where es: "s = c\<lparr>history := es @ history c\<rparr>" "set es \<subseteq> steady_events"
        "\<forall>f\<in>set (map snd ys). created_in es f" by blast
      show "wps (create_frame d) (\<lambda>f. ?I (ys @ [(i, f)]) zs) (\<lambda>_. builds c) s"
      proof (rule wps_create_frame_events)
        fix es' f
        assume "set es' \<subseteq> steady_events" "created_in es' f"
        with es show "?I (ys @ [(i, f)]) zs (s\<lparr>history := es' @ history s\<rparr>)"
          by (intro exI [of _ "es' @ es"]) (auto intro: created_in_append)
      next
        fix es' and e :: "swapchain_error fault"
        assume "set es' \<subseteq> steady_events"
        with es show "builds c (s\<lparr>history := es' @ history s\<rparr>)"
          unfolding builds_def by (intro exI [of _ "es' @ es"]) simp
      qed
    next
      fix ys s
      assume "?I ys [] s"
      with True show "builds c (s\<lparr>frames := map snd ys\<rparr>)" by (auto simp: builds_def)
    qed
    with True show ?thesis by (simp add: ensure_frames_def)
  next
    case False
    then show ?thesis by (simp add: ensure_frames_def build.R_refl)
  qed
qed

lemma build_parts_build:
  "stable builds False release_swapchain_resources"
  "stable builds False (negotiate d pick counts w h)"
  "stable builds False (assemble d att x)"
  unfolding release_swapchain_resources_def negotiate_def assemble_def replace_swapchain_def create_views_def
    create_render_pass_def create_framebuffers_def allocate_commands_def alloc_command_buffers_def
    create_def query_def
  by (auto intro!: build.stable_intros builds_calls builds_same ensure_frames_builds split: prod.split)

text \<open>The command buffers are distinct as long as the driver allocates distinct ones.\<close>

definition distinct_buffers :: "driver \<Rightarrow> bool" where
  "distinct_buffers d \<longleftrightarrow> (\<forall>h pool n cbs. d_alloc_command_buffers d h pool n = Inr cbs \<longrightarrow> distinct cbs)"

definition unmixed :: "window_ctx \<Rightarrow> window_ctx \<Rightarrow> bool" where
  "unmixed c c' \<longleftrightarrow> (distinct (command_buffers c) \<longrightarrow> distinct (command_buffers c'))"

interpretation buffers: preorder_on_states unmixed
  by unfold_locales (auto simp: unmixed_def)

lemma unmixed_intros:
  "stable unmixed np (vk_call reply ev)" "stable unmixed np (vk_do ev')"
  "(\<And>c. command_buffers (g c) = command_buffers c \<or> command_buffers (g c) = []) \<Longrightarrow> stable unmixed np (supd g)"
proof -
  show "stable unmixed np (supd g)" if "\<And>c. command_buffers (g c) = command_buffers c \<or> command_buffers (g c) = []"
    by (intro buffers.stable_supd) (metis unmixed_def distinct.simps(1) that)
qed (auto simp: stable_def unmixed_def intro!: wps_vk_call)

lemma allocate_commands_unmixed: "distinct_buffers d \<Longrightarrow> stable unmixed False (allocate_commands d)"
  unfolding stable_def allocate_commands_def alloc_command_buffers_def
  by (auto simp: unmixed_def distinct_buffers_def intro!: wps_vk_call)

lemma build_parts_unmixed:
  "stable unmixed False release_swapchain_resources"
  "stable unmixed False (negotiate d pick counts w h)"
  "distinct_buffers d \<Longrightarrow> stable unmixed False (assemble d att x)"
  unfolding release_swapchain_resources_def negotiate_def assemble_def replace_swapchain_def create_views_def
    create_render_pass_def create_framebuffers_def create_def query_def ensure_frames_def create_frame_def
  by (auto intro!: buffers.stable_intros unmixed_intros allocate_commands_unmixed buffers.stable_if split: prod.split)

text \<open>A build on an idle device keeps the ring, and the first one makes it.\<close>

lemma created_free:
  assumes "layer_of h = Some l" "idle l" "layer_of (es @ h) = Some l'" "set es \<subseteq> steady_events" "created_in es f"
  shows "slot_free l' f"
proof -
  have later: "settled l1 l'" if "es = es2 @ ev # es1" "layer_of (ev # es1 @ h) = Some l1" for es1 es2 ev l1
  proof -
    have sub: "set es1 \<subseteq> steady_events" "ev \<in> steady_events" "set es2 \<subseteq> steady_events"
      using assms(4) that(1) by auto
    from idle_events [OF assms(1,2) sub(1)] obtain l0 where l0: "layer_of (es1 @ h) = Some l0" "idle l0"
      by (auto simp: settled_def)
    with idle_event [OF l0(2) sub(2)] that(2) have "idle l1" by (auto simp: settled_def)
    from idle_events [OF that(2) this sub(3)] show ?thesis using assms(3) that(1) by simp
  qed
  have at: "\<exists>es1 es2 l0. es = es2 @ ev # es1 \<and> layer_of (es1 @ h) = Some l0" if ev: "ev \<in> set es" for ev
  proof -
    from ev obtain es1 es2 where es: "es = es2 @ ev # es1" by (meson split_list)
    then have "valid (es1 @ h)" using assms(3) valid_suffix [of "es2 @ [ev]" "es1 @ h"] by simp
    with es show ?thesis by (auto simp: valid_def)
  qed
  have sem: "sem_signaled l' s = Some False" if "ECreate SemaphoreInfo (Inr s) \<in> set es" for s
    using at [OF that] by (fastforce dest: later simp: settled_def)
  have "fence_states l' x = Some Signaled" if "ECreate (FenceInfo True) (Inr x) \<in> set es" for x
    using at [OF that] by (fastforce dest: later simp: settled_def)
  with sem assms(5) show ?thesis by (simp add: slot_free_def created_in_def)
qed

lemma builds_ring:
  assumes "builds c c'" and l: "layer_of (history c) = Some l" "idle l" and "\<forall>f\<in>set (frames c). slot_free l f"
  shows "valid (history c')"
    and "current_frame c' < length (frames c') \<Longrightarrow> length (frames c') = MAX_FRAMES_IN_FLIGHT \<Longrightarrow>
      distinct_sync (frames c') \<Longrightarrow> \<exists>l'. ringed c' l' \<and> idle l'"
proof -
  from assms(1) obtain es where es: "history c' = es @ history c" "set es \<subseteq> steady_events"
    "frames c' = frames c \<or> frames c = [] \<and> (\<forall>f\<in>set (frames c'). created_in es f)"
    by (auto simp: builds_def)
  from idle_events [OF l es(2)] obtain l' where l': "layer_of (history c') = Some l'" "settled l l'"
    using es(1) by auto
  then show "valid (history c')" by simp
  have "slot_free l' f" if "f \<in> set (frames c')" for f
  proof (cases "frames c' = frames c")
    case True
    then have "slot_free l f" using that assms(4) by simp
    moreover from this l(2) have "fence_states l (in_flight f) = Some Signaled"
      by (auto simp: slot_free_def idle_def ran_def)
    ultimately show ?thesis using l'(2) by (simp add: slot_free_def settled_def)
  next
    case False
    then show ?thesis using es that created_free [OF l _ es(2)] l'(1) by simp
  qed
  then show "current_frame c' < length (frames c') \<Longrightarrow> length (frames c') = MAX_FRAMES_IN_FLIGHT \<Longrightarrow>
      distinct_sync (frames c') \<Longrightarrow> \<exists>l'. ringed c' l' \<and> idle l'"
    using l' by (auto simp: ringed_def queued_def settled_def idle_def)
qed

lemma ringed_updates [simp]:
  "ringed (c\<lparr>pending_resize := m\<rparr>) l = ringed c l" "ringed (c\<lparr>state := st\<rparr>) l = ringed c l"
  by (simp_all add: ringed_def)

lemma slot_free_all_done: "slot_free l f \<Longrightarrow> slot_free (all_done l) f"
  by (auto simp: slot_free_def all_done_def)

lemma wps_idle_wait:
  assumes "\<And>h. d_wait_idle d h = Inr ()" and "Q (Inr ()) (record_event (EWaitIdle (Inr ())) c)"
  shows "wps (attempt (wait_idle d)) Q E c"
  unfolding wait_idle_def wps_attempt by (rule wps_vk_call) (use assms in auto)

text \<open>Nothing is under way on an idle device, so nothing is out of order.\<close>

lemma idle_ordered:
  assumes "layer_of (history c) = Some l" "idle l" "presents (history c) = []" "waiting (history c) = []" "sound c"
  shows "ordered c"
  using assms
  by (simp add: ordered_def runs_of_def waits_of_def past_def shown_def executing_in_layer idle_def)

text \<open>A build that first waits for the device, from a ring.\<close>

lemma wps_waiting_build:
  assumes "\<And>h. d_wait_idle d h = Inr ()" and rest: "stable builds False rest"
    and buffers: "S \<Longrightarrow> stable unmixed False rest" and "ring_in S c"
  shows "wps (sbind (attempt (wait_idle d)) (\<lambda>_ :: unit vkr. rest))
    (\<lambda>_ c'. ring_in S c' \<and> pending_resize c' = pending_resize c) (\<lambda>_ c'. lawful S (history c')) c"
proof -
  obtain l where l: "ringed c l" and S: "S \<Longrightarrow> ordered c" using assms(4) by (auto simp: ring_in_def ring_def)
  let ?c = "record_event (EWaitIdle (Inr ())) c"
  have idle: "layer_of (history ?c) = Some (all_done l)" "\<forall>f\<in>set (frames ?c). slot_free (all_done l) f"
    using l by (auto simp: ringed_def slot_free_all_done)
  have cur: "current_frame c < length (frames c)" "length (frames c) = MAX_FRAMES_IN_FLIGHT" "distinct_sync (frames c)"
    using l by (auto simp: ringed_def)
  have quiet: "presents (history c') = []" "waiting (history c') = []" "S \<Longrightarrow> reuses_ok (history c')"
    if "builds ?c c'" for c'
  proof -
    from that obtain es where es: "history c' = es @ history ?c" "set es \<subseteq> steady_events" by (auto simp: builds_def)
    note same = steady_presents [OF es(2), of "history ?c", folded es(1), simplified]
    from same(1,2) show "presents (history c') = []" "waiting (history c') = []" .
    show "reuses_ok (history c')" if S using same(3) S [OF that] by (simp add: ordered_def sound_def)
  qed
  have "wps rest (\<lambda>_. builds ?c) (\<lambda>e s'. builds ?c s' \<and> (False \<longrightarrow> \<not> is_panic e)) ?c"
    using rest unfolding stable_def by blast
  moreover have "wps rest (\<lambda>_ c'. S \<longrightarrow> unmixed ?c c') (\<lambda>_ _. True) ?c"
    using buffers by (cases S) (auto simp: stable_def wps_def split: sum.splits prod.splits)
  ultimately have step: "wps rest (\<lambda>_ c'. builds ?c c' \<and> (S \<longrightarrow> unmixed ?c c')) (\<lambda>_. builds ?c) ?c"
    by (auto simp: wps_def split: sum.splits prod.splits)
  have "wps rest (\<lambda>_ c'. ring_in S c' \<and> pending_resize c' = pending_resize c) (\<lambda>_ c'. lawful S (history c')) ?c"
  proof (rule wps_mono [OF step])
    fix x c'
    assume b: "builds ?c c' \<and> (S \<longrightarrow> unmixed ?c c')"
    then have "frames c' = frames c" "current_frame c' = current_frame c" "pending_resize c' = pending_resize c"
      using cur(1) by (auto simp: builds_def)
    with builds_ring(2) [OF conjunct1 [OF b] idle(1) idle_all_done idle(2)] cur
    obtain l' where l': "ringed c' l'" "idle l'" by auto
    have "ordered c'" if S
    proof (rule idle_ordered)
      show "layer_of (history c') = Some l'" using l'(1) by (simp add: ringed_def)
      show "sound c'" using S [OF that] b that quiet(3) by (auto simp: sound_def ordered_def unmixed_def)
    qed (use l' quiet b in auto)
    with l' \<open>pending_resize c' = _\<close> show "ring_in S c' \<and> pending_resize c' = pending_resize c"
      by (auto simp: ring_def ring_in_def)
  next
    fix e c'
    assume "builds ?c c'"
    with builds_ring(1) [OF _ idle(1) idle_all_done idle(2)] quiet(3) show "lawful S (history c')"
      by (auto simp: lawful_def)
  qed
  then show ?thesis unfolding wps_sbind by (intro wps_idle_wait assms(1))
qed

lemma wps_waiting_drop:
  assumes "\<And>h. d_wait_idle d h = Inr ()" and "stable (extends (steady_events \<union> range (case_prod EDestroy))) False destroy"
    and "lawful S (history c)"
  shows "wps (drop_ctx d destroy) (\<lambda>_ c'. lawful S (history c')) (\<lambda>_ c'. lawful S (history c')) c"
proof -
  let ?S = "steady_events \<union> range (case_prod EDestroy)" and ?c = "record_event (EWaitIdle (Inr ())) c"
  obtain l where l: "layer_of (history c) = Some l" using assms(3) by (auto simp: valid_def lawful_def)
  have ok: "(\<exists>l'. layer_of (es @ history ?c) = Some l' \<and> idle l') \<and> waiting (es @ history ?c) = [] \<and>
      (S \<longrightarrow> reuses_ok (es @ history ?c))" if "set es \<subseteq> ?S" for es
    using that
  proof (induction es)
    case (Cons ev es)
    then obtain l' where l': "layer_of (es @ history ?c) = Some l'" "idle l'" and quiet: "waiting (es @ history ?c) = []"
      "S \<longrightarrow> reuses_ok (es @ history ?c)" by auto
    from Cons.prems consider "ev \<in> steady_events" | k x where "ev = EDestroy k x" by auto
    then show ?case
    proof cases
      case 1
      from idle_event [OF l'(2) this] l'(1)
      have "\<exists>l'. layer_of ((ev # es) @ history ?c) = Some l' \<and> idle l'" by (auto simp: settled_def)
      moreover have "waiting ((ev # es) @ history ?c) = []" "S \<longrightarrow> reuses_ok ((ev # es) @ history ?c)"
        using quiet 1 by (auto simp: steady_events_def reuse_ok_def split: vk_event.splits)
      ultimately show ?thesis by blast
    next
      case 2
      with idle_destroy [OF l'] quiet show ?thesis by (simp add: reuse_ok_def)
    qed
  qed (use l assms(3) in \<open>simp add: lawful_def\<close>)
  have d: "EDestroy k x \<in> ?S" for k x by (rule UnI2, rule image_eqI [of _ _ "(k, x)"]) simp_all
  let ?rest = "sbind destroy (\<lambda>_. sbind (sget swapchain) (\<lambda>sc.
     sbind (if sc \<noteq> 0 then vk_do (EDestroy KSwapchain sc) else sret ()) (\<lambda>_.
     sbind (sget frames) (\<lambda>fs. sbind (seach destroy_frame fs) (\<lambda>_.
     sbind (sget surface) (\<lambda>surf. vk_do (EDestroy KSurface surf)))))))"
  have "stable (extends ?S) False ?rest"
    unfolding destroy_frame_def
    by (intro ext.stable_intros ext.stable_if assms(2) ext_intros d)
  then have "wps ?rest (\<lambda>_. extends ?S ?c) (\<lambda>e s'. extends ?S ?c s' \<and> (False \<longrightarrow> \<not> is_panic e)) ?c"
    unfolding stable_def by blast
  then have "wps ?rest (\<lambda>_ c'. lawful S (history c')) (\<lambda>_ c'. lawful S (history c')) ?c"
    by (rule wps_mono) (auto simp: extends_def lawful_def dest!: ok)
  then show ?thesis unfolding drop_ctx_def wps_sbind [of "attempt _"] by (intro wps_idle_wait assms(1))
qed

section \<open>Window owners that draw what the ticks hand out\<close>

text \<open>
  One round of a window owner: perhaps a resize request, then a tick, and the submission of the image if
  there is one. The owner stops at the first failure.
\<close>

definition frame_round :: "tick_outcome win \<Rightarrow> (u32 \<Rightarrow> unit win) \<Rightarrow> unit win" where
  "frame_round tick submit =
     sbind tick (\<lambda>outcome. case outcome of Recreated \<Rightarrow> sret () | Acquired a \<Rightarrow> submit (aq_image_index a))"

primrec frame_loop :: "tick_outcome win \<Rightarrow> (u32 \<Rightarrow> unit win) \<Rightarrow> (u32 \<times> u32) option list \<Rightarrow> unit win" where
  "frame_loop tick submit [] = sret ()"
| "frame_loop tick submit (resize # rounds) =
     sbind (case resize of
              None \<Rightarrow> sret ()
            | Some (w, h) \<Rightarrow> supd (\<lambda>c. c\<lparr>pending_resize := request w h (pending_resize c)\<rparr>)) (\<lambda>_.
     sbind (frame_round tick submit) (\<lambda>_. frame_loop tick submit rounds))"

locale frame_client =
  fixes usable :: "driver \<Rightarrow> bool" and may_resize S :: bool
    and tick :: "driver \<Rightarrow> tick_outcome win" and submit :: "driver \<Rightarrow> u32 \<Rightarrow> unit win"
    and drop_it :: "driver \<Rightarrow> unit win"
  assumes tick_arms: "usable d \<Longrightarrow> ring_in S c \<Longrightarrow> (flag (pending_resize c) \<Longrightarrow> may_resize) \<Longrightarrow>
      wps (tick d) (\<lambda>out c'. (case out of Recreated \<Rightarrow> ring_in S c' | Acquired a \<Rightarrow> armed_in S (aq_image_index a) c')
        \<and> \<not> flag (pending_resize c')) (\<lambda>_ c'. lawful S (history c')) c"
    and submit_fires: "usable d \<Longrightarrow> armed_in S idx c \<Longrightarrow>
      wps (submit d idx) (\<lambda>_ c'. ring_in S c' \<and> pending_resize c' = pending_resize c) (\<lambda>_ c'. lawful S (history c')) c"
    and drop_follows: "usable d \<Longrightarrow> lawful S (history c) \<Longrightarrow>
      wps (drop_it d) (\<lambda>_ c'. lawful S (history c')) (\<lambda>_ c'. lawful S (history c')) c"
begin

lemma round_follows:
  assumes "usable d" "ring_in S c" "flag (pending_resize c) \<Longrightarrow> may_resize"
  shows "wps (frame_round (tick d) (submit d)) (\<lambda>_ c'. ring_in S c' \<and> \<not> flag (pending_resize c'))
    (\<lambda>_ c'. lawful S (history c')) c"
  unfolding frame_round_def wps_sbind
proof (rule wps_mono [OF tick_arms [OF assms(1,2)]], goal_cases)
  case 1
  then show ?case by (rule assms(3))
next
  case (2 out c1)
  then show ?case
  proof (cases out)
    case (Acquired a)
    with 2 have "armed_in S (aq_image_index a) c1" by simp
    from submit_fires [OF assms(1) this] 2 Acquired show ?thesis by (auto elim!: wps_mono)
  qed simp
qed

lemma loop_follows:
  assumes "usable d" "ring_in S c" "flag (pending_resize c) \<Longrightarrow> may_resize"
    and "\<exists>r\<in>set rounds. r \<noteq> None \<Longrightarrow> may_resize"
  shows "wps (frame_loop (tick d) (submit d) rounds) (\<lambda>_. ring_in S) (\<lambda>_ c'. lawful S (history c')) c"
  using assms(2-)
proof (induction rounds arbitrary: c)
  case (Cons resize rounds)
  have rest: "wps (sbind (frame_round (tick d) (submit d)) (\<lambda>_. frame_loop (tick d) (submit d) rounds))
      (\<lambda>_. ring_in S) (\<lambda>_ c'. lawful S (history c')) c'"
    if "ring_in S c'" "flag (pending_resize c') \<Longrightarrow> may_resize" for c'
    unfolding wps_sbind
  proof (rule wps_mono [OF round_follows [OF assms(1) that(1)]], goal_cases)
    case 1
    then show ?case by (rule that(2))
  next
    case (2 x c1)
    then show ?case using Cons.prems(3) by (intro Cons.IH) auto
  qed
  show ?case
  proof (cases resize)
    case (Some wh)
    then have may_resize using Cons.prems(3) by simp
    with Some rest Cons.prems(1) show ?thesis by (auto split: prod.split)
  qed (use rest Cons.prems in simp)
qed simp

lemma life_follows:
  assumes "usable d" "ring_in S c" "flag (pending_resize c) \<Longrightarrow> may_resize"
    and "\<exists>r\<in>set rounds. r \<noteq> None \<Longrightarrow> may_resize"
    and "frame_loop (tick d) (submit d) rounds c = (r, c')" and "drop_it d c' = (r', c'')"
  shows "lawful S (history c'')" and "r = Inr () \<Longrightarrow>
    \<exists>l. layer_of (history c') = Some l \<and> length (executing l) \<le> MAX_FRAMES_IN_FLIGHT"
proof -
  have "wps (frame_loop (tick d) (submit d) rounds) (\<lambda>_. ring_in S) (\<lambda>_ c'. lawful S (history c')) c"
    by (rule loop_follows [OF assms(1,2)]) (fact assms(3,4))+
  then have loop: "case r of Inl _ \<Rightarrow> lawful S (history c') | Inr _ \<Rightarrow> ring_in S c'"
    using assms(5) by (auto simp: wps_def split: sum.splits)
  then have "lawful S (history c')" by (auto simp: ring_in_lawful split: sum.splits)
  from drop_follows [OF assms(1) this] assms(6) show "lawful S (history c'')"
    by (auto simp: wps_def split: sum.splits)
  show "\<exists>l. layer_of (history c') = Some l \<and> length (executing l) \<le> MAX_FRAMES_IN_FLIGHT" if "r = Inr ()"
    using loop that by (auto simp: ring_in_def ring_def ringed_def dest: queued_bound)
qed

end

end
