(* ===== verification/FrameLoop.thy ===== *)
theory FrameLoop
  imports FrameProtocol StateMachine Swapchain
begin

text \<open>
  Both render contexts as clients of the frame protocol, from \<^verbatim>\<open>new\<close> to the drop: under which answers of the
  driver a window owner who draws what the ticks hand out breaks none of the protocol's rules on synchronisation; what
  more the rules on reuse take; and how the one on command buffers is broken, which belong to images and not to
  frames.
\<close>

section \<open>The context of state\_machine.rs\<close>

text \<open>The device can be waited for, and no acquire is suboptimal.\<close>

definition sm_usable :: "driver \<Rightarrow> bool" where
  "sm_usable d \<longleftrightarrow> (\<forall>h. d_wait_idle d h = Inr ()) \<and> (\<forall>h sc t s idx. d_acquire d h sc t s \<noteq> Inr (idx, True))"

text \<open>
  For the rules on reuse: the driver hands out its images in turn, as many as there are slots, and allocates
  distinct command buffers. The client's lemmas hold with \<open>S\<close> for such a driver, without it for any usable one.
\<close>

definition in_turn :: "driver \<Rightarrow> bool" where
  "in_turn d \<longleftrightarrow> distinct_buffers d \<and>
     (\<forall>h sc t s idx b. d_acquire d h sc t s = Inr (idx, b) \<longrightarrow> next_up idx (shown h))"

definition sm_served :: "bool \<Rightarrow> driver \<Rightarrow> bool" where
  "sm_served S d \<longleftrightarrow> sm_usable d \<and> (S \<longrightarrow> in_turn d)"

lemma sm_served_usable: "sm_served S d \<Longrightarrow> sm_usable d"
  by (simp add: sm_served_def)

lemma sm_build_ring:
  assumes "sm_served S d" "ring_in S c"
  shows "wps (sm_build_swapchain p d w h) (\<lambda>_ c'. ring_in S c' \<and> pending_resize c' = pending_resize c)
    (\<lambda>_ c'. lawful S (history c')) c"
proof -
  let ?rest = "sbind release_swapchain_resources (\<lambda>_.
      sbind (negotiate d sm_choose_present_mode (\<lambda>caps _. sm_image_count p caps) w h) (assemble d sm_attachment))"
  have "stable builds False ?rest" by (intro build.stable_sbind build_parts_build)
  moreover have "stable unmixed False ?rest" if S
    using assms(1) that by (intro buffers.stable_sbind build_parts_unmixed) (simp add: sm_served_def in_turn_def)
  ultimately show ?thesis
    using wps_waiting_build [OF _ _ _ assms(2), of d ?rest] assms(1)
    by (simp add: sm_served_def sm_usable_def sm_build_swapchain_def sm_destroy_swapchain_resources_def)
qed

lemma sm_rebuild_ring:
  assumes "sm_served S d" "ring_in S c"
  shows "wps (sm_rebuild p d w h) (\<lambda>out c'. out = Recreated \<and> ring_in S c' \<and> pending_resize c' = pending_resize c)
    (\<lambda>_ c'. lawful S (history c')) c"
proof -
  have "ring_in S (c\<lparr>state := Recreating\<rparr>)" using assms(2) by simp
  from sm_build_ring [OF assms(1) this, of p w h] show ?thesis
    by (auto simp: sm_rebuild_def rebuild_with_def elim!: wps_mono)
qed

lemma take_resize_clears: "take_resize m = (r, m') \<Longrightarrow> \<not> flag m'"
  by (auto simp: take_resize_def split: if_splits)

lemma sm_tick_ring:
  assumes "sm_served S d" "ring_in S c"
  shows "wps (sm_tick p d) (\<lambda>out c'. (case out of Recreated \<Rightarrow> ring_in S c' | Acquired a \<Rightarrow> armed_in S (aq_image_index a) c')
    \<and> \<not> flag (pending_resize c')) (\<lambda>_ c'. lawful S (history c')) c"
proof -
  let ?Q = "\<lambda>out c'. (case out of Recreated \<Rightarrow> ring_in S c' | Acquired a \<Rightarrow> armed_in S (aq_image_index a) c')
    \<and> \<not> flag (pending_resize c')"
  obtain r m where take: "take_resize (pending_resize c) = (r, m)" and m: "\<not> flag m"
    using take_resize_clears by force
  let ?c = "c\<lparr>pending_resize := m\<rparr>"
  have rebuild: "wps (sm_rebuild p d w h) ?Q (\<lambda>_ c'. lawful S (history c')) c'"
    if "ring_in S c'" "\<not> flag (pending_resize c')" for c' w h
    by (rule wps_mono [OF sm_rebuild_ring [OF assms(1) that(1)]]) (use that(2) in auto)
  show ?thesis
  proof (cases r)
    case (Some wh)
    then show ?thesis using take rebuild [of ?c] assms(2) m by (cases wh) (simp add: sm_tick_def)
  next
    case None
    have cur: "current_frame ?c < length (frames ?c)" using assms(2) by (auto simp: ring_in_def ring_def ringed_def)
    have "ring_in S ?c" using assms(2) by simp
    have frame: "wps (sbind (qmark VkError (wait_fence d (in_flight (the_frame c)) (- 1))) (\<lambda>_.
         sbind (sget swapchain) (\<lambda>sc.
         sbind (attempt (acquire_image d sc (- 1) (image_available (the_frame c)))) (\<lambda>acquire.
         case acquire of
           Inr (idx, False) \<Rightarrow>
             sbind (qmark VkError (reset_fence d (in_flight (the_frame c)))) (\<lambda>_. acquired_at idx)
         | Inr (_, True) \<Rightarrow>
             sbind (sget extent) (\<lambda>ext. sm_rebuild p d (ewidth ext) (eheight ext))
         | Inl ERROR_OUT_OF_DATE_KHR \<Rightarrow>
             sbind (sget extent) (\<lambda>ext. sm_rebuild p d (ewidth ext) (eheight ext))
         | Inl e \<Rightarrow> sfail (Error (VkError e)))))) ?Q (\<lambda>_ c'. lawful S (history c')) ?c"
    proof (rule wps_wait_acquire [OF \<open>ring_in S ?c\<close>], goal_cases)
      case 1
      show ?case by (simp add: the_frame_def)
    next
      case (2 h)
      then show ?case by simp
    next
      case (3 h idx b)
      with assms(1) show ?case unfolding sm_served_def in_turn_def by blast
    next
      case (4 h h' e)
      with ring_in_lawful [OF 4(1)] show ?case using m by (auto intro!: rebuild split: vk_result.split)
    next
      case (5 h h' idx b l)
      then have "\<not> b" using sm_served_usable [OF assms(1)] by (auto simp: sm_usable_def)
      moreover have "wps (sbind (qmark VkError (reset_fence d (in_flight (the_frame c)))) (\<lambda>_. acquired_at idx))
          ?Q (\<lambda>_ c'. lawful S (history c')) (?c\<lparr>history := h\<rparr>)"
        by (rule wps_reset_acquired [OF 5(1,2)]) (use m in \<open>simp_all add: the_frame_def\<close>)
      ultimately show ?case by simp
    qed
    have "wps (sm_tick p d) ?Q (\<lambda>_ c'. lawful S (history c')) c \<longleftrightarrow> wps current_sync (\<lambda>f. wps
       (sbind (qmark VkError (wait_fence d (in_flight f) (- 1))) (\<lambda>_.
         sbind (sget swapchain) (\<lambda>sc.
         sbind (attempt (acquire_image d sc (- 1) (image_available f))) (\<lambda>acquire.
         case acquire of
           Inr (idx, False) \<Rightarrow>
             sbind (qmark VkError (reset_fence d (in_flight f))) (\<lambda>_. acquired_at idx)
         | Inr (_, True) \<Rightarrow>
             sbind (sget extent) (\<lambda>ext. sm_rebuild p d (ewidth ext) (eheight ext))
         | Inl ERROR_OUT_OF_DATE_KHR \<Rightarrow>
             sbind (sget extent) (\<lambda>ext. sm_rebuild p d (ewidth ext) (eheight ext))
         | Inl e \<Rightarrow> sfail (Error (VkError e)))))) ?Q (\<lambda>_ c'. lawful S (history c'))) (\<lambda>_ c'. lawful S (history c')) ?c"
      by (simp add: sm_tick_def take None)
    moreover have "the_frame ?c = the_frame c" by (simp add: the_frame_def)
    ultimately show ?thesis using wps_current_sync [OF cur] frame by simp
  qed
qed

lemma sm_submit_ring:
  assumes "sm_served S d" "armed_in S idx c"
  shows "wps (sm_submit_and_present p d idx) (\<lambda>_ c'. ring_in S c' \<and> pending_resize c' = pending_resize c)
    (\<lambda>_ c'. lawful S (history c')) c"
  unfolding sm_submit_and_present_def by (intro wps_submit_present assms(2) sm_build_ring assms(1))

lemma release_extends: "stable (extends (steady_events \<union> A)) False release_swapchain_resources"
  unfolding release_swapchain_resources_def
  by (auto intro!: ext.stable_intros ext_intros split: prod.split)

lemma sm_drop_valid:
  assumes "sm_served S d" "lawful S (history c)"
  shows "wps (sm_drop d) (\<lambda>_ c'. lawful S (history c')) (\<lambda>_ c'. lawful S (history c')) c"
  unfolding sm_drop_def
proof (rule wps_waiting_drop)
  show "d_wait_idle d h = Inr ()" for h using assms(1) by (simp add: sm_served_def sm_usable_def)
  show "stable (extends (steady_events \<union> range (case_prod EDestroy))) False (sm_destroy_swapchain_resources d)"
    unfolding sm_destroy_swapchain_resources_def wait_idle_def
    by (auto intro!: ext.stable_intros ext_intros release_extends)
qed (fact assms(2))

interpretation sm_client: frame_client "sm_served S" True S "sm_tick p" "sm_submit_and_present p" sm_drop for S p
  by unfold_locales (auto intro: sm_tick_ring sm_submit_ring sm_drop_valid)

section \<open>The context of swapchain.rs\<close>

text \<open>
  This version rebuilds without waiting for the device, so the driver must not ask for a rebuild, and the
  owner must not resize.
\<close>

definition sc_usable :: "driver \<Rightarrow> bool" where
  "sc_usable d \<longleftrightarrow> (\<forall>h. d_wait_idle d h = Inr ()) \<and>
     (\<forall>h sc t s idx. d_acquire d h sc t s \<notin> {Inr (idx, True), Inl SUBOPTIMAL_KHR, Inl ERROR_OUT_OF_DATE_KHR}) \<and>
     (\<forall>h i. d_present d h i \<notin> {Inl SUBOPTIMAL_KHR, Inl ERROR_OUT_OF_DATE_KHR})"










section \<open>The ring after new\<close>

lemma initial_ctx_fields [simp]:
  "history (initial_ctx h sd surf w h') = h" "frames (initial_ctx h sd surf w h') = []"
  "pending_resize (initial_ctx h sd surf w h') = default_pending_resize"
  by (simp_all add: initial_ctx_def)

lemma ordered_state: "ordered (c\<lparr>state := st\<rparr>) = ordered c"
  by (simp add: order_defs)

lemma builds_ready:
  assumes "builds (c0\<lparr>history := h\<rparr>) c1" "layer_of h = Some l" "idle l" "frames c0 = []"
    and "good (c1\<lparr>state := Ready\<rparr>)" "distinct_sync (frames c1)" "pending_resize c0 = default_pending_resize"
  shows "(\<exists>l. ringed (c1\<lparr>state := Ready\<rparr>) l \<and> idle l) \<and> \<not> flag (pending_resize c1)"
    and "presents h = [] \<Longrightarrow> waiting h = [] \<Longrightarrow> reuses_ok h \<Longrightarrow> distinct (command_buffers c1) \<Longrightarrow> ordered c1"
proof -
  have "current_frame c1 < length (frames c1)" "length (frames c1) = MAX_FRAMES_IN_FLIGHT"
    using assms(5) by (simp_all add: good_def)
  with builds_ring(2) [OF assms(1)] assms(2-4,6) obtain l1 where l1: "ringed c1 l1" "idle l1" by auto
  have "pending_resize c1 = default_pending_resize" using assms(1,7) by (auto simp: builds_def)
  then show "(\<exists>l. ringed (c1\<lparr>state := Ready\<rparr>) l \<and> idle l) \<and> \<not> flag (pending_resize c1)"
    using l1 by (auto simp: default_pending_resize_def)
  assume quiet: "presents h = []" "waiting h = []" "reuses_ok h" "distinct (command_buffers c1)"
  obtain es where "history c1 = es @ h" "set es \<subseteq> steady_events" using assms(1) by (auto simp: builds_def)
  with steady_presents [OF this(2) quiet(1,2)] quiet(3,4) l1 show "ordered c1"
    by (intro idle_ordered [where l = l1]) (auto simp: ringed_def sound_def)
qed

lemma sm_new_ring:
  assumes drv: "nonnull_handles d" "exact_counts d" "sm_usable d" and hist: "holds (L + {#(KSurface, surf)#}) hist" "valid hist"
    and new: "sm_new p d hist sd surf w h = (Inr c, hist')" and dist: "distinct_sync (frames c)"
  shows "(\<exists>l. ringed c l \<and> idle l) \<and> \<not> flag (pending_resize c) \<and> good c"
    and "in_turn d \<Longrightarrow> reuses_ok hist \<Longrightarrow> ordered c"
proof -
  let ?c = "initial_ctx hist sd surf w h" and ?h = "EWaitIdle (Inr ()) # hist"
  let ?rest = "sbind release_swapchain_resources (\<lambda>_.
      sbind (negotiate d sm_choose_present_mode (\<lambda>caps _. sm_image_count p caps) w h) (assemble d sm_attachment))"
  have good: "good c" using sm.new_books [OF drv(1,2) hist(1) new [unfolded sm_new_def]] by simp
  obtain l where l: "layer_of hist = Some l" using hist(2) by (auto simp: valid_def)
  obtain u c1 where run: "sm_build_swapchain p d w h ?c = (Inr u, c1)" and c: "c = c1\<lparr>state := Ready\<rparr>"
    using new by (auto simp: sm_new_def new_with_def split: prod.splits sum.splits)
  have "d_wait_idle d hist = Inr ()" using drv(3) by (simp add: sm_usable_def)
  then have wait: "sbind (attempt (wait_idle d)) k ?c = k (Inr ()) (?c\<lparr>history := ?h\<rparr>)" for k :: "unit vkr \<Rightarrow> unit win"
    by (simp add: sbind_def attempt_def wait_idle_def vk_call_def)
  have "stable builds False ?rest" by (intro build.stable_sbind build_parts_build)
  moreover have rest: "?rest (?c\<lparr>history := ?h\<rparr>) = (Inr u, c1)"
    using run by (simp add: sm_build_swapchain_def sm_destroy_swapchain_resources_def wait run_sbind(5))
  ultimately have "builds (?c\<lparr>history := ?h\<rparr>) c1" by (rule stable_run(1))
  note ready = builds_ready [OF this, of "all_done l", simplified]
  from ready(1) l good dist c show "(\<exists>l. ringed c l \<and> idle l) \<and> \<not> flag (pending_resize c) \<and> good c" by simp
  assume "in_turn d" "reuses_ok hist"
  then have "stable unmixed False ?rest"
    by (intro buffers.stable_sbind build_parts_unmixed) (simp add: in_turn_def)
  then have "unmixed (?c\<lparr>history := ?h\<rparr>) c1" using rest by (rule stable_run(1))
  then have "distinct (command_buffers c1)" by (simp add: unmixed_def initial_ctx_def)
  with ready(2) l good dist c \<open>reuses_ok hist\<close> show "ordered c" by (simp add: ordered_state)
qed


section \<open>Contexts to run\<close>

text \<open>The semaphores and fences of the demonstration contexts, and the loops evaluated.\<close>

lemma steady_usable: "sm_usable steady_driver" "sc_usable steady_driver"
  by (simp_all add: sm_usable_def sc_usable_def steady_driver_def demo_driver_def)

lemma demo_start_layer: "layer_of demo_start = Some layer_init" "idle layer_init"
  by (simp_all add: demo_start_def idle_def layer_init_def)


section \<open>Command buffers\<close>

text \<open>
  Without images in turn: the command buffers belong to the images, the fences to the frames. A round
  that succeeds waits for the fence of one slot and queues one submission.
\<close>

lemma layer_of_round:
  assumes "layer_of (EPresent q pi b # ESubmit q' i f (Inr ()) # EResetFence f (Inr ()) # EAcquire sc t s a #
      EWaitFence f t' (Inr ()) # h) = Some l'" and "layer_of h = Some l"
  shows "executing l' = (i, f) # filter (\<lambda>e. snd e \<noteq> f) (executing l)"
  using assms by (auto simp: fence_done_def Option.bind_eq_Some_conv split: if_splits sum.splits)

text \<open>A driver that grants every frame call.\<close>

definition granting :: "driver \<Rightarrow> bool" where
  "granting d \<longleftrightarrow> (\<forall>h f t. d_wait_fence d h f t = Inr ()) \<and> (\<forall>h f. d_reset_fence d h f = Inr ()) \<and>
     (\<forall>h sc t s. \<exists>idx. d_acquire d h sc t s = Inr (idx, False)) \<and>
     (\<forall>h i. d_submit d h i = Inr ()) \<and> (\<forall>h i. \<exists>b. d_present d h i = Inr b)"

lemma sm_granted_round:
  assumes "granting d" "ringed c l" "\<not> flag (pending_resize c)"
    and "frame_round (sm_tick p d) (sm_submit_and_present p d) c = (Inr u, c')"
  shows "\<exists>idx h. c' = c\<lparr>history := h, current_frame := (current_frame c + 1) mod length (frames c)\<rparr> \<and>
    unat idx < length (command_buffers c) \<and> (\<forall>l'. layer_of h = Some l' \<longrightarrow>
      executing l' = (submit_info_at c idx, in_flight (the_frame c)) #
        filter (\<lambda>e. snd e \<noteq> in_flight (the_frame c)) (executing l))"
proof -
  have cur: "current_frame c < length (frames c)" and l: "layer_of (history c) = Some l"
    using assms(2) by (auto simp: ringed_def)
  let ?f = "the_frame c"
  let ?w = "EWaitFence (in_flight ?f) (- 1) (Inr ())"
  obtain idx where acq: "d_acquire d (?w # history c) (swapchain c) (- 1) (image_available ?f) = Inr (idx, False)"
    using assms(1) unfolding granting_def by blast
  define c1 where "c1 = c\<lparr>history := EResetFence (in_flight ?f) (Inr ()) #
    EAcquire (swapchain c) (- 1) (image_available ?f) (Inr (idx, False)) # ?w # history c\<rparr>"
  have same: "command_buffers c1 = command_buffers c" "frames c1 = frames c" "current_frame c1 = current_frame c"
      "shared c1 = shared c" "swapchain c1 = swapchain c" "the_frame c1 = ?f" "submit_info_at c1 = submit_info_at c"
    by (simp_all add: c1_def submit_info_at_def fun_eq_iff)
  have "sm_tick p d c = acquired_at idx c1"
    using assms(1) acq
    by (simp add: sm_tick_unfold [OF assms(3) cur] granting_def after_acquire_def sbind_def qmark_def
        reset_fence_def vk_call_def c1_def)
  then have idx: "unat idx < length (command_buffers c)"
    and tick: "frame_round (sm_tick p d) (sm_submit_and_present p d) c = sm_submit_and_present p d idx c1"
    using assms(4) by (auto simp: frame_round_def sbind_def acquired_at_run same split: if_splits)
  obtain b where present: "d_present d (ESubmit (sd_graphics_queue (shared c1)) (submit_info_at c1 idx)
      (in_flight (the_frame c1)) (Inr ()) # history c1) (present_info_at c1 idx) = Inr b"
    using assms(1) unfolding granting_def by blast
  have "sm_submit_and_present p d idx c1 = (Inr (),
      c1\<lparr>history := EPresent (sd_graphics_queue (shared c1)) (present_info_at c1 idx) (Inr b) #
          ESubmit (sd_graphics_queue (shared c1)) (submit_info_at c1 idx) (in_flight (the_frame c1)) (Inr ()) #
          history c1,
        current_frame := (current_frame c1 + 1) mod length (frames c1)\<rparr>)"
    using cur idx assms(1) present same(1-3)
    by (simp add: sm_submit_and_present_def submit_and_present_with_def current_sync_run run_sbind run_simps
        slift_def sbind_def qmark_def attempt_def queue_submit_def queue_present_def vk_call_def the_frame_def
        submit_info_at_def present_info_at_def granting_def)
  with tick assms(4) have c': "c' = c\<lparr>history := EPresent (sd_graphics_queue (shared c)) (present_info_at c1 idx) (Inr b) #
          ESubmit (sd_graphics_queue (shared c)) (submit_info_at c idx) (in_flight ?f) (Inr ()) # history c1,
        current_frame := (current_frame c + 1) mod length (frames c)\<rparr>"
    by (simp add: same) (simp add: c1_def)
  show ?thesis
    using idx layer_of_round [OF _ l] unfolding c' by (auto simp: c1_def intro!: exI [of _ idx])
qed

lemma slots_differ:
  assumes "i < k" "k < (n :: nat)"
  shows "(a + i) mod n \<noteq> (a + k) mod n"
proof
  assume "(a + i) mod n = (a + k) mod n"
  then have "n dvd (a + k) - (a + i)" using assms(1) by (metis mod_eq_dvd_iff_nat add_le_cancel_left less_imp_le)
  then show False using assms by (auto dest: dvd_imp_le)
qed

lemma frame_loop_snoc:
  assumes "frame_loop tick submit (rounds @ [None]) c = (Inr u, c')"
  shows "\<exists>c1. frame_loop tick submit rounds c = (Inr (), c1) \<and> frame_round tick submit c1 = (Inr (), c')"
  using assms
proof (induction rounds arbitrary: c)
  case Nil
  then show ?case by (auto simp: run_simps run_sbind sbind_def split: prod.splits sum.splits)
next
  case (Cons r rounds)
  then show ?case by (fastforce simp: sbind_def split: prod.splits sum.splits)
qed

text \<open>Up to as many rounds as there are slots, no submission is waited for: they pile up.\<close>

lemma sm_granted_loop:
  assumes "granting d" "sm_usable d" "ringed c l" "idle l" "\<not> flag (pending_resize c)"
    and "k \<le> length (frames c)"
    and "frame_loop (sm_tick p d) (sm_submit_and_present p d) (replicate k None) c = (Inr u, c')"
  shows "\<exists>l'. ringed c' l' \<and> \<not> flag (pending_resize c') \<and> length (executing l') = k \<and>
    frames c' = frames c \<and> command_buffers c' = command_buffers c \<and>
    current_frame c' = (current_frame c + k) mod length (frames c) \<and>
    (\<forall>e\<in>set (executing l'). si_command_buffer (fst e) \<in> set (command_buffers c) \<and>
       (\<exists>i<k. snd e = in_flight (frames c ! ((current_frame c + i) mod length (frames c)))))"
  using assms(6,7)
proof (induction k arbitrary: c' u)
  case 0
  then show ?case using assms(3-5) by (auto simp: run_simps ringed_def idle_def)
next
  case (Suc k)
  let ?n = "length (frames c)" and ?slot = "\<lambda>i. in_flight (frames c ! ((current_frame c + i) mod length (frames c)))"
  from Suc.prems(2) obtain c1 where
    loop: "frame_loop (sm_tick p d) (sm_submit_and_present p d) (replicate k None) c = (Inr (), c1)"
    and last: "frame_round (sm_tick p d) (sm_submit_and_present p d) c1 = (Inr (), c')"
    by (auto simp: replicate_append_same [symmetric] simp del: frame_loop.simps dest!: frame_loop_snoc)
  from Suc.IH [OF _ loop] Suc.prems(1) obtain l1 where l1: "ringed c1 l1" "\<not> flag (pending_resize c1)"
    "length (executing l1) = k" "frames c1 = frames c" "command_buffers c1 = command_buffers c"
    "current_frame c1 = (current_frame c + k) mod ?n"
    and queue: "\<And>e. e \<in> set (executing l1) \<Longrightarrow> si_command_buffer (fst e) \<in> set (command_buffers c) \<and>
      (\<exists>i<k. snd e = ?slot i)" by auto
  from sm_granted_round [OF assms(1) l1(1,2) last] obtain idx h where
    c': "c' = c1\<lparr>history := h, current_frame := (current_frame c1 + 1) mod length (frames c1)\<rparr>"
    and idx: "unat idx < length (command_buffers c1)"
    and exec: "\<And>l'. layer_of h = Some l' \<Longrightarrow> executing l' = (submit_info_at c1 idx, in_flight (the_frame c1)) #
        filter (\<lambda>e. snd e \<noteq> in_flight (the_frame c1)) (executing l1)" by blast
  have "ring c1" using l1(1) by (auto simp: ring_def)
  then have "ring_in False c1" by (simp add: ring_in_def)
  from wps_value [OF sm_client.round_follows [where S = False, OF _ this] last] assms(2)
  obtain l' where l': "ringed c' l'" "\<not> flag (pending_resize c')"
    using l1(2) by (auto simp: ring_in_def ring_def sm_served_def)
  have h: "layer_of h = Some l'" using l'(1) c' by (simp add: ringed_def)
  have len: "0 < ?n" using Suc.prems(1) by linarith
  have slot: "in_flight (the_frame c1) = ?slot k" using l1(4,6) by (simp add: the_frame_def)
  have inj: "distinct (map in_flight (frames c))" using assms(3) by (simp add: ringed_def distinct_sync_def)
  have "snd e \<noteq> in_flight (the_frame c1)" if e: "e \<in> set (executing l1)" for e
  proof -
    from queue [OF e] obtain i where i: "i < k" "snd e = ?slot i" by blast
    have "(current_frame c + i) mod ?n \<noteq> (current_frame c + k) mod ?n"
      using i(1) Suc.prems(1) by (intro slots_differ) simp_all
    then show ?thesis using i(2) slot inj len by (simp add: nth_eq_iff_index_eq distinct_conv_nth)
  qed
  then have all: "executing l' = (submit_info_at c1 idx, ?slot k) # executing l1"
    using exec [OF h] slot by (simp add: filter_id_conv)
  moreover have "si_command_buffer (submit_info_at c1 idx) \<in> set (command_buffers c)"
    using idx l1(5) by (simp add: submit_info_at_def)
  moreover have "current_frame c' = (current_frame c + Suc k) mod ?n"
    using c' l1(4,6) by (simp add: mod_Suc_eq)
  moreover have "si_command_buffer (fst e) \<in> set (command_buffers c) \<and> (\<exists>i<Suc k. snd e = ?slot i)"
    if "e \<in> set (executing l1)" for e using queue [OF that] less_SucI by blast
  ultimately show ?case
    using l' l1(3-5) c' by (intro exI [of _ l']) auto
qed

section \<open>Properties\<close>


















text \<open>
  C30: The command buffers are per image, the fences per frame. With fewer images than frames in flight, and a
  driver that grants every call, three rounds after \<^verbatim>\<open>new\<close> two submissions of the same command buffer are
  executing as far as anything the code waited for can tell: the second was handed out for recording, and
  submitted, without the first having been waited for.
\<close>

theorem sm_command_buffers_shared:
  assumes "nonnull_handles d" "exact_counts d" "sm_usable d" "granting d"
    and "holds (L + {#(KSurface, surf)#}) hist" "valid hist"
    and "sm_new p d hist sd surf w h = (Inr c, hist')" and "distinct_sync (frames c)"
    and "length (images c) < MAX_FRAMES_IN_FLIGHT"
    and "frame_loop (sm_tick p d) (sm_submit_and_present p d) (replicate MAX_FRAMES_IN_FLIGHT None) c = (Inr u, c')"
  shows "\<exists>l. layer_of (history c') = Some l \<and> \<not> distinct (map (si_command_buffer \<circ> fst) (executing l))"
proof -
  obtain l where l: "ringed c l" "idle l" "\<not> flag (pending_resize c)" "good c"
    using sm_new_ring(1) [OF assms(1-3,5-8)] by blast
  then have n: "length (frames c) = MAX_FRAMES_IN_FLIGHT" "length (command_buffers c) = length (images c)"
    by (auto simp: good_def complete_def)
  from sm_granted_loop [OF assms(4,3) l(1-3) _ assms(10)] n(1) obtain l' where
    l': "ringed c' l'" "length (executing l') = MAX_FRAMES_IN_FLIGHT"
    "\<forall>e\<in>set (executing l'). si_command_buffer (fst e) \<in> set (command_buffers c)" by auto
  let ?cbs = "map (si_command_buffer \<circ> fst) (executing l')"
  have "card (set ?cbs) \<le> card (set (command_buffers c))" using l'(3) by (intro card_mono) auto
  also have "\<dots> \<le> length (images c)" using n(2) card_length by metis
  also have "\<dots> < length ?cbs" using assms(9) l'(2) by simp
  finally have "\<not> distinct ?cbs" using distinct_card by fastforce
  with l'(1) show ?thesis by (auto simp: ringed_def)
qed

definition two_images :: driver where
  "two_images = steady_driver\<lparr>d_swapchain_images := (\<lambda>h sc. Inr [sc + 100, sc + 101])\<rparr>"

lemma two_images_conforms:
  "nonnull_handles two_images" "exact_counts two_images" "sm_usable two_images" "granting two_images"
  using steady_conforms steady_usable(1)
  by (auto simp: two_images_def nonnull_handles_def exact_counts_def sm_usable_def granting_def
      steady_driver_def demo_driver_def)

theorem sm_command_buffers_shared_witness:
  "\<exists>c hist' c' l. sm_new Dev two_images demo_start demo_device 10 640 480 = (Inr c, hist') \<and>
     frame_loop (sm_tick Dev two_images) (sm_submit_and_present Dev two_images) (replicate 3 None) c = (Inr (), c') \<and>
     layer_of (history c') = Some l \<and> \<not> distinct (map (si_command_buffer \<circ> fst) (executing l))"
proof -
  define c where "c = (case sm_new Dev two_images demo_start demo_device 10 640 480 of (Inr c, _) \<Rightarrow> c)"
  have new: "sm_new Dev two_images demo_start demo_device 10 640 480 = (Inr c, history c)"
    unfolding c_def by (simp add: context_eval sm_eval two_images_def cong: sbind_weak_cong)
  have c: "distinct_sync (frames c)" "length (images c) < MAX_FRAMES_IN_FLIGHT"
    unfolding c_def by (simp_all add: context_eval sm_eval two_images_def distinct_sync_def cong: sbind_weak_cong)
  have three: "replicate MAX_FRAMES_IN_FLIGHT None = [None, None, None :: (u32 \<times> u32) option]"
    by (simp add: MAX_FRAMES_IN_FLIGHT_def numeral_3_eq_3)
  have "\<exists>c'. frame_loop (sm_tick Dev two_images) (sm_submit_and_present Dev two_images)
      (replicate MAX_FRAMES_IN_FLIGHT None) c = (Inr (), c')"
    unfolding c_def frame_round_def three
    by (simp add: context_eval sm_eval two_images_def frame_round_def cong: sbind_weak_cong)
  then obtain c' where run: "frame_loop (sm_tick Dev two_images) (sm_submit_and_present Dev two_images)
      (replicate MAX_FRAMES_IN_FLIGHT None) c = (Inr (), c')" by blast
  from sm_command_buffers_shared [OF two_images_conforms demo_start_holds _ new c run] demo_start_layer(1)
  show ?thesis using new run by (auto simp: MAX_FRAMES_IN_FLIGHT_def)
qed

end
