(* ===== verification/GlSpec.thy ===== *)
theory GlSpec
  imports GlBuffers
begin

text \<open>
  The buffer objects of \<^verbatim>\<open>opengl_sys.rs\<close> as an application sees them: names with byte stores, two bindings and
  a counter, without Vulkan. The entry points refine this machine: what the driver's memory holds behind the
  table is, after any sequence of successful calls, what the machine says.
\<close>

section \<open>The abstract machine\<close>

text \<open>A generated name has no store until data is given; a store has a size and the bytes written so far.\<close>

type_synonym store = "u64 \<times> (nat \<Rightarrow> u8 option)"

record gl_spec =
  objects :: "u32 \<rightharpoonup> store option"
  array_binding :: u32
  element_binding :: u32
  fresh_name :: u32

definition spec_binding :: "u32 \<Rightarrow> gl_spec \<Rightarrow> u32 option" where
  "spec_binding target a =
     (if target = GL_ARRAY_BUFFER then Some (array_binding a)
      else if target = GL_ELEMENT_ARRAY_BUFFER then Some (element_binding a) else None)"

text \<open>The object an upload to a target works on.\<close>

definition spec_target :: "u32 \<Rightarrow> gl_spec \<Rightarrow> (u32 \<times> store option) option" where
  "spec_target target a =
     (case spec_binding target a of
        None \<Rightarrow> None
      | Some key \<Rightarrow> if key = 0 then None else map_option (Pair key) (objects a key))"

definition spec_gen :: "gl_spec \<Rightarrow> gl_spec" where
  "spec_gen a = a\<lparr>objects := (objects a)(fresh_name a \<mapsto> None), fresh_name := fresh_name a + 1\<rparr>"

definition overlay :: "nat \<Rightarrow> nat \<Rightarrow> (nat \<Rightarrow> u8) \<Rightarrow> (nat \<Rightarrow> u8 option) \<Rightarrow> nat \<Rightarrow> u8 option" where
  "overlay off len patch bytes i = (if off \<le> i \<and> i < off + len then Some (patch (i - off)) else bytes i)"

fun spec_step :: "gl_op \<Rightarrow> gl_spec \<Rightarrow> gl_spec" where
  "spec_step (GlGen n buffers_null) a =
     (if sint n \<le> 0 \<or> buffers_null then a else (spec_gen ^^ unat n) a)"
| "spec_step (GlBind target buffer) a =
     (if target = GL_ARRAY_BUFFER then a\<lparr>array_binding := buffer\<rparr>
      else if target = GL_ELEMENT_ARRAY_BUFFER then a\<lparr>element_binding := buffer\<rparr> else a)"
| "spec_step (GlData target len data usage) a =
     (if sint len \<le> 0 then a
      else (case spec_target target a of
        None \<Rightarrow> a
      | Some (key, _) \<Rightarrow> a\<lparr>objects := (objects a)(key \<mapsto> Some (len,
          case data of None \<Rightarrow> (\<lambda>_. None) | Some bytes \<Rightarrow> overlay 0 (unat len) bytes (\<lambda>_. None)))\<rparr>))"
| "spec_step (GlSubData target off len data) a =
     (case data of
        None \<Rightarrow> a
      | Some patch \<Rightarrow>
          if sint len \<le> 0 then a
          else (case spec_target target a of
            Some (key, Some (n, bytes)) \<Rightarrow>
              a\<lparr>objects := (objects a)(key \<mapsto> Some (n, overlay (unat off) (unat len) patch bytes))\<rparr>
          | _ \<Rightarrow> a))"
| "spec_step (GlDelete n buffers) a =
     (case buffers of
        None \<Rightarrow> a
      | Some ids \<Rightarrow> if sint n \<le> 0 then a else a\<lparr>objects := objects a |` (- ids ` {..<unat n})\<rparr>)"
| "spec_step (GlDraw mode n type_enum indices) a = a"

section \<open>Abstraction\<close>

definition store_of :: "history \<Rightarrow> gl_buffer \<Rightarrow> store option" where
  "store_of h b = (if gb_memory b = 0 then None else Some (gb_size b, contents h (gb_memory b)))"

definition stores :: "history \<Rightarrow> (u32 \<rightharpoonup> gl_buffer) \<Rightarrow> (u32 \<rightharpoonup> store option)" where
  "stores h m = (\<lambda>key. map_option (store_of h) (m key))"

definition gl_abs :: "gl_world \<Rightarrow> gl_spec" where
  "gl_abs s = \<lparr>objects = stores (history s) (gl_buffers (gl_ctx s)),
     array_binding = bound_array_buffer (gl_ctx s), element_binding = bound_element_buffer (gl_ctx s),
     fresh_name = next_id (gl_ctx s)\<rparr>"

text \<open>Only writes and allocations change a store.\<close>

lemma store_of_quiet [simp]:
  "store_of (ECommand q cmd # h) = store_of h" "store_of (EUnmap m # h) = store_of h" "store_of (EMap m off n r # h) = store_of h"
  "store_of (EDestroy k x # h) = store_of h" "store_of (EBind x y r # h) = store_of h" "store_of (EQuery # h) = store_of h"
  "store_of (ECreate (BufferInfo n us) r' # h) = store_of h"
  by (cases r'; simp add: store_of_def fun_eq_iff)+

lemma contents_map [simp]: "contents (EMap m off n r # h) = contents h"
  by (simp add: fun_eq_iff)

lemma store_of_write:
  "m \<noteq> gb_memory b \<Longrightarrow> store_of (EWrite m off bytes # h) b = store_of h b"
  "gb_memory b \<noteq> 0 \<Longrightarrow> store_of (EWrite (gb_memory b) off (map patch [0..<n]) # h) b =
     Some (gb_size b, overlay (unat off) n patch (contents h (gb_memory b)))"
  by (auto simp: store_of_def overlay_def fun_eq_iff)

lemma store_of_allocated:
  "x \<noteq> gb_memory b \<Longrightarrow> store_of (ECreate ci (Inr x) # h) b = store_of h b"
  "gb_memory b \<noteq> 0 \<Longrightarrow> store_of (ECreate (MemoryInfo mi) (Inr (gb_memory b)) # h) b = Some (gb_size b, \<lambda>_. None)"
  by (auto simp: store_of_def fun_eq_iff)

lemma stores_upd [simp]:
  "stores h (m(key \<mapsto> b)) = (stores h m)(key \<mapsto> store_of h b)" "stores h (m(key := None)) = (stores h m)(key := None)"
  "stores h (m |` A) = stores h m |` A"
  by (auto simp: stores_def restrict_map_def)

lemma stores_cong: "(\<And>k b. m k = Some b \<Longrightarrow> store_of h' b = store_of h b) \<Longrightarrow> stores h' m = stores h m"
  by (auto simp: stores_def fun_eq_iff intro!: map_option_cong)

text \<open>All stores but one.\<close>

lemma stores_set:
  assumes "\<And>k b'. m k = Some b' \<Longrightarrow> k \<noteq> key \<Longrightarrow> store_of h' b' = store_of h b'"
  shows "stores h' (m(key \<mapsto> b)) = (stores h m)(key \<mapsto> store_of h' b)"
proof -
  have "stores h' (m(key := None)) = stores h (m(key := None))"
    using assms by (intro stores_cong) (auto split: if_splits)
  then have "(stores h' (m(key := None)))(key \<mapsto> store_of h' b) = (stores h (m(key := None)))(key \<mapsto> store_of h' b)"
    by simp
  then show ?thesis by (simp add: fun_upd_upd)
qed

lemma stores_one:
  assumes "m key = Some b" and "\<And>k b'. m k = Some b' \<Longrightarrow> k \<noteq> key \<Longrightarrow> store_of h' b' = store_of h b'"
  shows "stores h' m = (stores h m)(key \<mapsto> store_of h' b)"
  using stores_set [of m key h' h b] assms by (simp add: map_upd_triv)

lemma stores_quiet [simp]:
  "stores (ECommand q cmd # h) = stores h" "stores (EUnmap m # h) = stores h" "stores (EMap m off n r # h) = stores h"
  "stores (EDestroy k x # h) = stores h" "stores (EBind x y r # h) = stores h" "stores (EQuery # h) = stores h"
  "stores (ECreate (BufferInfo n us) r' # h) = stores h"
  by (intro ext, simp add: stores_def)+

text \<open>No allocation returns the handle of memory that exists; then no two names share memory.\<close>

definition fresh_memory :: "driver \<Rightarrow> bool" where
  "fresh_memory d \<longleftrightarrow> (\<forall>h ci x. d_create d h ci = Inr x \<longrightarrow> kind_of ci = KMemory \<longrightarrow> (KMemory, x) \<notin># live h)"

definition separate :: "gl_context \<Rightarrow> bool" where
  "separate c \<longleftrightarrow> (\<forall>k k' b b'. gl_buffers c k = Some b \<longrightarrow> gl_buffers c k' = Some b' \<longrightarrow> k \<noteq> k' \<longrightarrow>
     gb_memory b \<noteq> 0 \<longrightarrow> gb_memory b \<noteq> gb_memory b')"

definition sim :: "ledger \<Rightarrow> gl_spec \<Rightarrow> gl_world \<Rightarrow> bool" where
  "sim own a s \<longleftrightarrow> gl_books own s \<and> separate (gl_ctx s) \<and> g_shared_device s \<noteq> None \<and> gl_abs s = a"

lemma sim_get: "sim own a s \<Longrightarrow> sim own a (s\<lparr>gl_global := Some (gl_ctx s)\<rparr>)"
  by (simp add: sim_def gl_books_def gl_abs_def)

lemma abs_binding: "gl_abs s = a \<Longrightarrow> current_id target (gl_ctx s) = spec_binding target a"
  by (auto simp: gl_abs_def current_id_def spec_binding_def)

lemma abs_target:
  assumes "gl_abs s = a" "gl_buffers (gl_ctx s) key = Some b" "current_id target (gl_ctx s) = Some key" "key \<noteq> 0"
  shows "spec_target target a = Some (key, store_of (history s) b)"
  using assms abs_binding [OF assms(1), of target] by (auto simp: spec_target_def gl_abs_def stores_def)

text \<open>The early returns of an upload are those of the machine.\<close>

lemma sim_with_bound:
  assumes "sim own a s" and "spec_target target a = None \<Longrightarrow> P (s\<lparr>gl_global := Some (gl_ctx s)\<rparr>)"
    and "\<And>key b. gl_buffers (gl_ctx s) key = Some b \<Longrightarrow> spec_target target a = Some (key, store_of (history s) b) \<Longrightarrow>
      wps (k key b) (\<lambda>_. P) (\<lambda>_ _. True) (s\<lparr>gl_global := Some (gl_ctx s)\<rparr>)"
  shows "wps (with_bound target k) (\<lambda>_. P) (\<lambda>_ _. True) s"
proof -
  have abs: "gl_abs s = a" "g_shared_device s \<noteq> None" using assms(1) by (simp_all add: sim_def)
  then have "spec_target target a = (case current_id target (gl_ctx s) of None \<Rightarrow> None | Some key \<Rightarrow>
      if key = 0 then None else map_option (\<lambda>b. (key, store_of (history s) b)) (gl_buffers (gl_ctx s) key))"
    using abs_binding [OF abs(1), of target]
    by (auto simp: spec_target_def gl_abs_def stores_def option.map_comp comp_def split: option.split)
  then show ?thesis
    using assms(2,3) abs(2) by (auto simp: with_bound_def split: option.splits if_splits)
qed

section \<open>The entry points refine the machine\<close>

definition linked :: "gl_spec \<Rightarrow> gl_world \<Rightarrow> bool" where
  "linked a s \<longleftrightarrow> separate (gl_ctx s) \<and> g_shared_device s \<noteq> None \<and> gl_abs s = a"

lemma sim_linked: "sim own a s \<longleftrightarrow> gl_books own s \<and> linked a s"
  by (simp add: sim_def linked_def)

text \<open>The books have been kept already; what is left is the link to the machine.\<close>

lemma sim_both:
  "wps m (\<lambda>_. gl_books own) (\<lambda>_ _. True) s \<Longrightarrow> wps m (\<lambda>_. linked a) (\<lambda>_ _. True) s \<Longrightarrow>
    wps m (\<lambda>_. sim own a) (\<lambda>_ _. True) s"
  by (auto simp: wps_def sim_linked split: prod.splits sum.splits)

lemma sim_gen_one:
  assumes "sim own a s"
  shows "wps (gen_one Dev) (\<lambda>_. sim own (spec_gen a)) (\<lambda>_ _. True) s"
proof (rule sim_both)
  show "wps (gen_one Dev) (\<lambda>_. gl_books own) (\<lambda>_ _. True) s"
    using assms by (intro books_gen_one) (simp add: sim_def)
  show "wps (gen_one Dev) (\<lambda>_. linked (spec_gen a)) (\<lambda>_ _. True) s"
    using assms
    by (auto simp: gen_one_def rust_add_def sim_def linked_def gl_abs_def spec_gen_def separate_def store_of_def)
qed

lemma sim_gen:
  assumes "sim own a s"
  shows "wps (glGenBuffers Dev n buffers_null) (\<lambda>_. sim own (spec_step (GlGen n buffers_null) a)) (\<lambda>_ _. True) s"
proof (cases "sint n \<le> 0 \<or> buffers_null")
  case False
  have "wps (scollect (\<lambda>_. gen_one Dev) [0..<unat n]) (\<lambda>_. sim own ((spec_gen ^^ unat n) a)) (\<lambda>_ _. True) s'"
    if "sim own a s'" for s'
  proof (rule wps_scollect [where I = "\<lambda>ys zs. sim own ((spec_gen ^^ length ys) a)"], goal_cases)
    case (2 ys x zs s)
    from sim_gen_one [OF 2(2)] show ?case by simp
  next
    case (3 ys s)
    then have "length ys = unat n" by (metis length_map length_upt minus_nat.diff_0)
    with 3 show ?case by simp
  qed (use that in simp)
  moreover have "g_shared_device s \<noteq> None" using assms by (simp add: sim_def)
  ultimately show ?thesis using False sim_get [OF assms] by (auto simp: glGenBuffers_def)
qed (use assms in \<open>auto simp: glGenBuffers_def\<close>)

lemma sim_bind:
  assumes "sim own a s"
  shows "wps (glBindBuffer target buffer) (\<lambda>_. sim own (spec_step (GlBind target buffer) a)) (\<lambda>_ _. True) s"
proof (rule sim_both)
  show "wps (glBindBuffer target buffer) (\<lambda>_. gl_books own) (\<lambda>_ _. True) s"
    using assms by (intro books_bind) (simp add: sim_def)
  show "wps (glBindBuffer target buffer) (\<lambda>_. linked (spec_step (GlBind target buffer) a)) (\<lambda>_ _. True) s"
    using assms by (auto simp: glBindBuffer_def sim_def linked_def gl_abs_def separate_def)
qed

lemma sim_draw:
  assumes "sim own a s"
  shows "wps (glDrawElements mode n type_enum indices) (\<lambda>_. sim own a) (\<lambda>_ _. True) s"
proof (rule sim_both)
  show "wps (glDrawElements mode n type_enum indices) (\<lambda>_. gl_books own) (\<lambda>_ _. True) s"
    using assms by (intro books_draw) (simp add: sim_def)
  show "wps (glDrawElements mode n type_enum indices) (\<lambda>_. linked a) (\<lambda>_ _. True) s"
    using assms by (auto simp: glDrawElements_def Let_def sim_def linked_def gl_abs_def separate_def split: option.split)
qed

text \<open>A write to the memory of one name is seen by no other.\<close>

lemma sim_sub_data:
  assumes "sim own a s"
  shows "wps (glBufferSubData d target off len data) (\<lambda>_. sim own (spec_step (GlSubData target off len data) a))
    (\<lambda>_ _. True) s"
proof (cases "data = None \<or> sint len \<le> 0")
  case False
  then obtain patch where data: "data = Some patch" and len: "0 < sint len" by auto
  let ?a = "spec_step (GlSubData target off len data) a"
  have "wps (if gb_memory b \<noteq> 0 then write_mapped d (gb_memory b) off len patch else sret ()) (\<lambda>_. sim own ?a)
      (\<lambda>_ _. True) (s\<lparr>gl_global := Some (gl_ctx s)\<rparr>)"
    if b: "gl_buffers (gl_ctx s) key = Some b" and target: "spec_target target a = Some (key, store_of (history s) b)" for key b
  proof (cases "gb_memory b = 0")
    case True
    then show ?thesis using sim_get [OF assms] target data len by (simp add: store_of_def)
  next
    case False
    have others: "gb_memory b \<noteq> gb_memory b'" if "gl_buffers (gl_ctx s) k = Some b'" "k \<noteq> key" for k b'
      using assms that b False unfolding sim_def separate_def by metis
    have "stores (EUnmap (gb_memory b) # EWrite (gb_memory b) off (map patch [0..<unat len]) #
          EMap (gb_memory b) off len (Inr ()) # history s) (gl_buffers (gl_ctx s)) =
        (stores (history s) (gl_buffers (gl_ctx s)))(key \<mapsto>
          Some (gb_size b, overlay (unat off) (unat len) patch (contents (history s) (gb_memory b))))"
      by (subst stores_one [where h = "history s" and m = "gl_buffers (gl_ctx s)", OF b]) (use others False in \<open>auto simp: store_of_write\<close>)
    then have "wps (write_mapped d (gb_memory b) off len patch) (\<lambda>_. linked ?a) (\<lambda>_ _. True) (s\<lparr>gl_global := Some (gl_ctx s)\<rparr>)"
      using assms target data len b False
      by (auto simp: write_mapped_def sim_def linked_def gl_abs_def store_of_def [of "history s" b] intro!: wps_vk_call)
    moreover have "wps (write_mapped d (gb_memory b) off len patch) (\<lambda>_. gl_books own) (\<lambda>_ _. True)
        (s\<lparr>gl_global := Some (gl_ctx s)\<rparr>)"
      using sim_get [OF assms] by (intro books_write_mapped) (simp add: sim_def)
    ultimately show ?thesis using False by (simp add: sim_both del: spec_step.simps)
  qed
  then show ?thesis
    using data len unfolding glBufferSubData_def
    by (auto intro!: sim_with_bound [OF assms] sim_get [OF assms])
qed (use assms in \<open>auto simp: glBufferSubData_def split: option.split\<close>)

text \<open>Fresh memory is not that of another name.\<close>

lemma table_ledger_member:
  "finite (dom m) \<Longrightarrow> m k = Some b \<Longrightarrow> gb_memory b \<noteq> 0 \<Longrightarrow> (KMemory, gb_memory b) \<in># table_ledger m"
  by (simp add: table_ledger_entry buffer_ledger_def)

lemma fresh_memory_other:
  assumes "gl_books own s" "fresh_memory d" "gl_buffers (gl_ctx s) key = Some b"
    and "d_create d (e1 # e2 # release_buffer_events b @ history s) (MemoryInfo mi) = Inr x"
    and "lost e1 = {#}" "lost e2 = {#}"
    and "gl_buffers (gl_ctx s) k = Some b'" "k \<noteq> key" "gb_memory b' \<noteq> 0"
  shows "x \<noteq> gb_memory b'"
proof -
  let ?m = "(gl_buffers (gl_ctx s))(key := None)"
  have "finite (dom ?m)" using assms(1) by (simp add: gl_books_def table_ok_def)
  from table_ledger_member [OF this, of k b'] assms(7-9) have "(KMemory, gb_memory b') \<in># table_ledger ?m" by simp
  then have "(KMemory, gb_memory b') \<in># live (e1 # e2 # release_buffer_events b @ history s)"
    using books_released [OF assms(1,3)] assms(5,6) by (auto simp: holds_def)
  moreover have "(KMemory, x) \<notin># live (e1 # e2 # release_buffer_events b @ history s)"
    using assms(2,4) by (auto simp: fresh_memory_def simp del: live.simps)
  ultimately show ?thesis by auto
qed

lemma stores_released [simp]: "store_of (release_buffer_events b @ h) = store_of h"
  by (simp add: release_buffer_events_def)

lemma sim_data:
  assumes "sim own a s" "nonnull_handles d" "fresh_memory d"
  shows "wps (glBufferData p d mem_props target len data usage)
    (\<lambda>_. sim own (spec_step (GlData target len data usage) a)) (\<lambda>_ _. True) s"
proof (cases "sint len \<le> 0")
  case False
  let ?a = "spec_step (GlData target len data usage) a" and ?c = "gl_ctx s" and ?m = "gl_buffers (gl_ctx s)"
  have books: "gl_books own s" and sep: "separate ?c" and shared: "g_shared_device s \<noteq> None" and abs: "gl_abs s = a"
    using assms(1) by (simp_all add: sim_def)
  have linked: "linked ?a (s'\<lparr>gl_global := Some (?c\<lparr>gl_buffers := ?m(key \<mapsto>
        \<lparr>gb_buffer = b', gb_memory = x, gb_size = len\<rparr>)\<rparr>)\<rparr>)"
    if b: "?m key = Some b" and target: "spec_target target a = Some (key, store_of (history s) b)"
      and alloc: "d_create d (EQuery # ECreate (BufferInfo len us) (Inr b') # release_buffer_events b @ history s) (MemoryInfo mi) = Inr x"
      and h: "history s' = es @ EBind b' x (Inr ()) # ECreate (MemoryInfo mi) (Inr x) # EQuery #
        ECreate (BufferInfo len us) (Inr b') # release_buffer_events b @ history s"
      and es: "es = (case data of None \<Rightarrow> [] | Some bytes \<Rightarrow>
        [EUnmap x, EWrite x 0 (map bytes [0..<unat len]), EMap x 0 len (Inr ())])"
      and s': "g_shared_device s' = g_shared_device s" for key b us b' mi x es s'
  proof -
    let ?b = "\<lparr>gb_buffer = b', gb_memory = x, gb_size = len\<rparr>"
    have x: "x \<noteq> 0" using alloc nonnullD [OF assms(2)] by auto
    have other: "x \<noteq> gb_memory b''" if "?m k = Some b''" "k \<noteq> key" for k b''
      using fresh_memory_other [OF books assms(3) b alloc _ _ that] x by (cases "gb_memory b'' = 0") simp_all
    have "stores (history s') (?m(key \<mapsto> ?b)) = (stores (history s) ?m)(key \<mapsto> store_of (history s') ?b)"
      using other by (intro stores_set) (auto simp: h es store_of_write(1) store_of_allocated(1) split: option.split)
    moreover have "store_of (history s') ?b = Some (len, case data of None \<Rightarrow> (\<lambda>_. None)
        | Some bytes \<Rightarrow> overlay 0 (unat len) bytes (\<lambda>_. None))"
      using x by (auto simp: h es store_of_def overlay_def fun_eq_iff split: option.split)
    moreover have "separate (?c\<lparr>gl_buffers := ?m(key \<mapsto> ?b)\<rparr>)"
      using sep other unfolding separate_def by (simp, metis)
    ultimately show ?thesis
      using abs shared s' target False by (auto simp: linked_def gl_abs_def)
  qed
  show ?thesis
  proof (rule sim_both)
    show "wps (glBufferData p d mem_props target len data usage) (\<lambda>_. gl_books own) (\<lambda>_ _. True) s"
      by (rule books_data [OF books assms(2)])
    show "wps (glBufferData p d mem_props target len data usage) (\<lambda>_. linked ?a) (\<lambda>_ _. True) s"
      using False linked sim_get [OF assms(1)]
      by (auto simp: glBufferData_def write_mapped_def sim_linked split: sum.split option.split prod.split
          intro!: sim_with_bound [OF assms(1)] wps_create wps_vk_call)
  qed
qed (use assms in \<open>auto simp: glBufferData_def\<close>)

lemma sim_delete_one:
  assumes "sim own a s"
  shows "wps (delete_one key) (\<lambda>_. sim own (a\<lparr>objects := (objects a)(key := None)\<rparr>)) (\<lambda>_ _. True) s"
proof (rule sim_both)
  have "wps (delete_one key) (\<lambda>_ s'. gl_books own s' \<and> gl_buffers (gl_ctx s') = (gl_buffers (gl_ctx s))(key := None))
      (\<lambda>_ _. True) s"
    using assms by (intro books_delete_one) (simp add: sim_def)
  then show "wps (delete_one key) (\<lambda>_. gl_books own) (\<lambda>_ _. True) s" by (rule wps_mono) simp_all
  have "stores (release_buffer_events b @ history s) m = stores (history s) m" for b m
    by (rule stores_cong) simp
  then show "wps (delete_one key) (\<lambda>_. linked (a\<lparr>objects := (objects a)(key := None)\<rparr>)) (\<lambda>_ _. True) s"
    using assms by (auto simp: delete_one_def sim_def linked_def gl_abs_def separate_def stores_def fun_eq_iff
        split: option.split)
qed

lemma sim_delete_all:
  assumes "sim own a s"
  shows "wps (seach (\<lambda>i. delete_one (ids i)) is) (\<lambda>_. sim own (a\<lparr>objects := objects a |` (- ids ` set is)\<rparr>)) (\<lambda>_ _. True) s"
  using assms
proof (induction "is" arbitrary: a s)
  case (Cons i "is")
  have "(objects a)(ids i := None) |` (- ids ` set is) = objects a |` (- ids ` set (i # is))"
    by (auto simp: restrict_map_def fun_eq_iff)
  with Cons.IH show ?case
    unfolding seach.simps wps_sbind
    by (intro wps_mono [OF sim_delete_one [OF Cons.prems]]) fastforce+
qed (simp add: restrict_map_def)

lemma sim_delete:
  assumes "sim own a s"
  shows "wps (glDeleteBuffers n buffers) (\<lambda>_. sim own (spec_step (GlDelete n buffers) a)) (\<lambda>_ _. True) s"
proof -
  have "wps (seach (\<lambda>i. delete_one (ids i)) [0..<unat n]) (\<lambda>_. sim own (a\<lparr>objects := objects a |` (- ids ` {..<unat n})\<rparr>))
      (\<lambda>_ _. True) (s\<lparr>gl_global := Some (gl_ctx s)\<rparr>)" for ids
    using sim_delete_all [OF sim_get [OF assms], of ids "[0..<unat n]"] by (simp add: atLeast0LessThan)
  then show ?thesis using assms by (auto simp: glDeleteBuffers_def sim_def split: option.split)
qed

lemma sim_step:
  assumes "sim own a s" "nonnull_handles d" "fresh_memory d"
  shows "wps (gl_step Dev d mem_props act) (\<lambda>_. sim own (spec_step act a)) (\<lambda>_ _. True) s"
proof (cases act)
  case (GlGen n null)
  with sim_gen [OF assms(1)] show ?thesis by (simp del: spec_step.simps)
next
  case (GlDraw mode n ty ix)
  with sim_draw [OF assms(1)] show ?thesis by simp
qed (use sim_bind sim_data sim_sub_data sim_delete assms in \<open>simp_all del: spec_step.simps\<close>)

lemma sim_run:
  assumes "nonnull_handles d" "fresh_memory d"
  shows "sim own a s \<Longrightarrow> seach (gl_step Dev d mem_props) acts s = (Inr u, s') \<Longrightarrow> sim own (fold spec_step acts a) s'"
proof (induction acts arbitrary: a s)
  case Nil
  then show ?case by (simp add: run_simps)
next
  case (Cons act acts)
  from Cons.prems(2) obtain u1 s1 where step: "gl_step Dev d mem_props act s = (Inr u1, s1)"
    and rest: "seach (gl_step Dev d mem_props) acts s1 = (Inr u, s')"
    by (auto simp: sbind_def split: prod.splits sum.splits)
  from wps_value [OF sim_step [OF Cons.prems(1) assms] step] have "sim own (spec_step act a) s1" .
  from Cons.IH [OF this rest] show ?case by simp
qed

section \<open>Properties\<close>

text \<open>
  C4: The entry points refine byte stores behind names. Whatever an application calls, if the calls succeed,
  then every name has the size and the bytes that the machine says, where it has been written, and nothing
  that was written through another name; the bindings and the name counter agree. It takes a driver whose
  allocations do not return the handle of memory that is in use, and the checked profile, where the counter
  cannot wrap.
\<close>

theorem gl_refines:
  assumes "nonnull_handles d" "fresh_memory d"
    and "gl_global s = None" "g_shared_device s \<noteq> None" "holds own (history s)"
    and "seach (gl_step Dev d mem_props) acts s = (Inr u, s')"
  shows "gl_abs s' = fold spec_step acts \<lparr>objects = Map.empty, array_binding = 0, element_binding = 0, fresh_name = 1\<rparr>"
proof -
  have "sim own \<lparr>objects = Map.empty, array_binding = 0, element_binding = 0, fresh_name = 1\<rparr> s"
    using assms(3-5) by (simp add: sim_def gl_books_def table_ok_def separate_def gl_abs_def stores_def gl_ctx_def
        new_gl_context_def)
  from sim_run [OF assms(1,2) this assms(6)] show ?thesis by (simp add: sim_def)
qed

text \<open>A driver that never hands out a handle twice, and fails when its counter has wrapped.\<close>

definition fresh_driver :: driver where
  "fresh_driver = steady_driver\<lparr>d_create := (\<lambda>h ci.
     if list_ex (\<lambda>ev. demo_handle h \<in> snd ` set_mset (gained ev)) h then Inl (OtherResult 0) else Inr (demo_handle h))\<rparr>"

lemma live_gained: "e \<in># live h \<Longrightarrow> \<exists>ev\<in>set h. e \<in># gained ev"
  by (induction h) (fastforce dest: in_diffD)+

lemma fresh_driver_conforms: "nonnull_handles fresh_driver" "fresh_memory fresh_driver"
proof -
  have "nonnull_handles steady_driver" by (rule steady_conforms)
  then have "demo_handle h \<noteq> 0" for h
    by (auto simp: nonnull_handles_def steady_driver_def demo_driver_def)
  then show "nonnull_handles fresh_driver" by (auto simp: nonnull_handles_def fresh_driver_def split: if_splits)
  show "fresh_memory fresh_driver"
    unfolding fresh_memory_def fresh_driver_def
    by (auto simp: list_ex_iff image_iff split: if_splits dest!: live_gained) force
qed

definition refine_demo :: "gl_op list" where
  "refine_demo = [GlGen 1 False, GlGen 1 False, GlBind GL_ARRAY_BUFFER 1,
     GlData GL_ARRAY_BUFFER 4 (Some of_nat) 0, GlBind GL_ARRAY_BUFFER 2, GlData GL_ARRAY_BUFFER 4 None 0, GlSubData GL_ARRAY_BUFFER 1 2 (Some (\<lambda>_. 9)),
     GlDelete 1 (Some (\<lambda>_. 1))]"

theorem gl_refines_witness:
  "\<exists>s'. seach (gl_step Dev fresh_driver demo_memory) refine_demo gl_start = (Inr (), s') \<and>
     objects (gl_abs s') 1 = None \<and> map_option (\<lambda>(n, bytes). (n, map bytes [0..<4])) (the (objects (gl_abs s') 2))
       = Some (4, [None, Some 9, Some 9, None])"
proof -
  have "\<exists>s'. seach (gl_step Dev fresh_driver demo_memory) refine_demo gl_start = (Inr (), s')"
    unfolding refine_demo_def gl_start_def
    by (simp add: fresh_driver_def context_eval gl_eval demo_memory_def cong: sbind_weak_cong)
  then obtain s' where run: "seach (gl_step Dev fresh_driver demo_memory) refine_demo gl_start = (Inr (), s')" by blast
  have start: "gl_global gl_start = None" "g_shared_device gl_start \<noteq> None" "holds {#} (history gl_start)"
    by (simp_all add: gl_start_def holds_def)
  from gl_refines [OF fresh_driver_conforms start run]
  have abs: "gl_abs s' = fold spec_step refine_demo \<lparr>objects = Map.empty, array_binding = 0, element_binding = 0, fresh_name = 1\<rparr>" .
  have "objects (gl_abs s') 1 = None \<and> map_option (\<lambda>(n, bytes). (n, map bytes [0..<4])) (the (objects (gl_abs s') 2))
       = Some (4, [None, Some 9, Some 9, None])"
    unfolding abs refine_demo_def
    by (simp add: spec_target_def spec_binding_def spec_gen_def overlay_def GL_ARRAY_BUFFER_def
        upt_rec restrict_map_def lessThan_Suc)
  with run show ?thesis by blast
qed

end
