(* ===== verification/MethodTypes.thy ===== *)
theory MethodTypes
  imports Swizzle
begin

text \<open>
  The type encodings of \<^verbatim>\<open>install\<close> against the functions they describe. The runtime is told of every method a
  selector, a C function and a string that encodes the function's type; nothing in the Rust code relates the three.
\<close>

section \<open>Signatures\<close>

text \<open>The C types in the signatures of the installed functions. \<^verbatim>\<open>NSRect\<close> is the structure \<^verbatim>\<open>CGRect\<close>.\<close>

datatype c_type = CVoid | CId | CClass | CSel | CI8 | CU64 | CF64 | CStruct string "c_type list"

abbreviation CRect :: c_type where
  "CRect \<equiv> CStruct ''CGRect'' [CStruct ''CGPoint'' [CF64, CF64], CStruct ''CGSize'' [CF64, CF64]]"

text \<open>Result and parameters of each \<^verbatim>\<open>extern "C" fn\<close> of \<^verbatim>\<open>swizzle.rs\<close>, receiver and selector included.\<close>

fun imp_signature :: "imp \<Rightarrow> c_type \<times> c_type list" where
  "imp_signature SharedApplicationImpl = (CId, [CClass, CSel])"
| "imp_signature RunImpl = (CVoid, [CId, CSel])"
| "imp_signature ApplicationTerminate = (CVoid, [CId, CSel, CId])"
| "imp_signature WindowInit = (CId, [CId, CSel, CRect, CU64, CU64, CI8])"
| "imp_signature WindowSetTitle = (CVoid, [CId, CSel, CId])"
| "imp_signature WindowSetDelegate = (CVoid, [CId, CSel, CId])"
| "imp_signature WindowMakeKeyAndOrderFront = (CVoid, [CId, CSel, CId])"
| "imp_signature WindowFrame = (CRect, [CId, CSel])"
| "imp_signature WindowSetFrameDisplay = (CVoid, [CId, CSel, CRect, CI8])"
| "imp_signature WindowOrderOut = (CVoid, [CId, CSel, CId])"
| "imp_signature WindowClose = (CVoid, [CId, CSel])"
| "imp_signature WindowContentView = (CId, [CId, CSel])"
| "imp_signature WindowCenter = (CVoid, [CId, CSel])"
| "imp_signature WindowStyleMask = (CU64, [CId, CSel])"
| "imp_signature ViewSetWantsLayer = (CVoid, [CId, CSel, CI8])"
| "imp_signature ViewWantsLayer = (CI8, [CId, CSel])"
| "imp_signature ViewLayer = (CId, [CId, CSel])"
| "imp_signature ViewSetLayer = (CVoid, [CId, CSel, CId])"
| "imp_signature ViewFrame = (CRect, [CId, CSel])"
| "imp_signature ViewBounds = (CRect, [CId, CSel])"
| "imp_signature ViewWindow = (CId, [CId, CSel])"
| "imp_signature ScreensFunc = (CId, [CClass, CSel])"
| "imp_signature MainScreenFunc = (CId, [CClass, CSel])"
| "imp_signature ScreenFrame = (CRect, [CId, CSel])"
| "imp_signature ScreenBackingScaleFactor = (CF64, [CId, CSel])"

section \<open>Encodings\<close>

text \<open>
  Objective-C's encoding of a type, as \<^verbatim>\<open>@encode\<close> gives it on a 64-bit system: \<^verbatim>\<open>c\<close> for a signed byte, \<^verbatim>\<open>Q\<close> for an
  unsigned integer of 64 bits, and a structure with its name and fields. (\<^verbatim>\<open>B\<close> is a C \<^verbatim>\<open>bool\<close> and \<^verbatim>\<open>L\<close> an
  unsigned integer of 32 bits.)
\<close>

primrec encode_type :: "c_type \<Rightarrow> string" where
  "encode_type CVoid = ''v''"
| "encode_type CId = ''@''"
| "encode_type CClass = ''#''"
| "encode_type CSel = '':''"
| "encode_type CI8 = ''c''"
| "encode_type CU64 = ''Q''"
| "encode_type CF64 = ''d''"
| "encode_type (CStruct name members) = ''{'' @ name @ ''='' @ concat (map encode_type members) @ ''}''"

text \<open>The encoding of a method has the result, then the parameters. The receiver is an object, in a class method too.\<close>

definition encoding_of :: "imp \<Rightarrow> string" where
  "encoding_of imp = (case imp_signature imp of (result, params) \<Rightarrow>
     encode_type result @ ''@'' @ concat (map encode_type (tl params)))"

text \<open>A selector takes one argument per colon; the function takes the receiver and the selector besides.\<close>

definition colons :: "string \<Rightarrow> nat" where
  "colons sel_name = length (filter (\<lambda>c. c = CHR '':'') sel_name)"

text \<open>The tables are right where the function has neither a byte nor a 64-bit integer, and wrong where it has one.\<close>

definition describes :: "string \<Rightarrow> imp \<Rightarrow> string \<Rightarrow> bool" where
  "describes sel_name imp types \<longleftrightarrow> (case imp_signature imp of (result, params) \<Rightarrow>
     length params = 2 + colons sel_name \<and> hd params \<in> {CId, CClass} \<and> params ! 1 = CSel \<and>
     (types = encoding_of imp \<longleftrightarrow> {CI8, CU64} \<inter> set (result # params) = {}))"

text \<open>A class method is installed in the metaclass, and takes a class.\<close>

definition well_typed :: "method_entry \<Rightarrow> bool" where
  "well_typed = (\<lambda>(on_meta, sel_name, imp, types).
     describes sel_name imp types \<and> (hd (snd (imp_signature imp)) = CClass \<longleftrightarrow> on_meta))"

lemma tables_typed:
  "list_all well_typed nsapplication_methods" "list_all well_typed nswindow_methods"
  "list_all well_typed nsview_methods" "list_all well_typed nsscreen_methods"
  by (simp_all add: nsapplication_methods_def nswindow_methods_def nsview_methods_def nsscreen_methods_def
      well_typed_def describes_def encoding_of_def colons_def)

section \<open>What the runtime is told\<close>

definition typed_event :: "objc_event \<Rightarrow> bool" where
  "typed_event ev = (case ev of
     AddMethod cls sel_name imp types ok \<Rightarrow> describes sel_name imp types
   | ReplaceMethod cls sel_name imp types \<Rightarrow> describes sel_name imp types
   | _ \<Rightarrow> True)"

lemma typed_event_simps [simp]:
  "typed_event (GetClass name cls)" "typed_event (AllocateClass super_cls name cls)" "typed_event (RegisterClass cls)"
  "typed_event (MetaClass cls meta)"
  "typed_event (AddMethod cls sel_name imp types ok) \<longleftrightarrow> describes sel_name imp types"
  "typed_event (ReplaceMethod cls sel_name imp types) \<longleftrightarrow> describes sel_name imp types"
  by (simp_all add: typed_event_def)

definition tells :: "'s host_world_scheme \<Rightarrow> 's host_world_scheme \<Rightarrow> bool" where
  "tells s s' \<longleftrightarrow> (\<exists>l. objc_log s' = l @ objc_log s \<and> list_all typed_event l)"

interpretation typed: preorder_on_states tells
  by unfold_locales (auto simp: tells_def)

lemma tells_event: "typed_event ev \<Longrightarrow> tells s (s\<lparr>objc_log := ev # objc_log s\<rparr>)"
  unfolding tells_def by (intro exI [of _ "[ev]"]) simp

lemma typed_calls:
  "(\<And>r. typed_event (ev r)) \<Longrightarrow> stable tells np (objc_call reply ev)"
  "typed_event ev' \<Longrightarrow> stable tells np (supd (\<lambda>s. s\<lparr>objc_log := ev' # objc_log s\<rparr>))"
  by (simp_all add: stable_def tells_event)

lemma typed_parts:
  "stable tells False (ensure_class rt name super_name)" "stable tells False (object_get_class rt cls)"
  "describes sel_name imp types \<Longrightarrow> stable tells False (add_or_replace rt cls sel_name imp types fresh)"
  unfolding ensure_class_def class_named_def object_get_class_def add_or_replace_def
  by (auto intro!: typed.stable_intros typed.stable_if typed_calls)

lemma typed_methods:
  "list_all well_typed entries \<Longrightarrow> stable tells False (install_methods rt cls meta fresh entries)"
proof -
  assume "list_all well_typed entries"
  then have "stable tells False (seach (\<lambda>(on_meta, sel_name, imp, types).
      add_or_replace rt (if on_meta then meta else cls) sel_name imp types fresh) entries)"
    by (induction entries) (auto simp: well_typed_def intro!: typed.stable_intros typed_parts)
  then show ?thesis
    unfolding install_methods_def register_class_def
    by (auto intro!: typed.stable_sbind typed.stable_if typed.stable_pure typed_calls)
qed

lemma typed_install: "stable tells False (install rt)"
  unfolding install_def install_nsapplication_def install_nswindow_def install_nsview_def install_nsscreen_def
  by (auto intro!: typed.stable_sbind typed_parts typed_methods tables_typed split: prod.split)

section \<open>Properties\<close>

text \<open>
  C25: Of every method the runtime is given, by an installation that succeeds or fails, the function takes the
  receiver, the selector and one more argument for each colon of the selector; and the type encoding it is given with
  is the function's own except for the functions that take or return a 64-bit integer or a byte, whose encoding is
  always wrong (the tables have \<^verbatim>\<open>L\<close> for the one and \<^verbatim>\<open>B\<close> for the other).
\<close>

theorem install_types:
  "\<exists>l. objc_log (snd (install rt s)) = l @ objc_log s \<and> list_all typed_event l"
  using stable_run(1) [OF typed_install, of rt s "fst (install rt s)" "snd (install rt s)"] by (simp add: tells_def)

text \<open>The functions it is wrong for.\<close>

lemma mistyped_functions:
  "{imp. {CI8, CU64} \<inter> set (fst (imp_signature imp) # snd (imp_signature imp)) \<noteq> {}} =
    {WindowInit, WindowSetFrameDisplay, WindowStyleMask, ViewSetWantsLayer, ViewWantsLayer}"
proof -
  have "{CI8, CU64} \<inter> set (fst (imp_signature imp) # snd (imp_signature imp)) \<noteq> {} \<longleftrightarrow>
      imp \<in> {WindowInit, WindowSetFrameDisplay, WindowStyleMask, ViewSetWantsLayer, ViewWantsLayer}" for imp
    by (cases imp) simp_all
  then show ?thesis by blast
qed

end
