(* ===== verification/Lifecycle.thy ===== *)
theory Lifecycle
  imports FrameProtocol StateMachine Swapchain Windows
begin

text \<open>
  What a window owner can see of a render context: the accessors of both versions, and what the state they
  report says of the context behind it.
\<close>

section \<open>Accessors\<close>

text \<open>
  A \<^verbatim>\<open>MonitorProvider\<close> is its one method. The \<^verbatim>\<open>monitor\<close> a context is made with is
  never replaced, so it is an argument here and no field of the record; a single is the double of its value.
\<close>

type_synonym monitor_provider = "f64 \<Rightarrow> f64 \<Rightarrow> f64 \<Rightarrow> f64 \<Rightarrow> f64"

definition sm_state :: "window_ctx \<Rightarrow> window_render_state" where
  "sm_state c = state c"

definition sm_extent :: "window_ctx \<Rightarrow> extent2d" where
  "sm_extent c = extent c"

definition sm_refresh_rate :: "monitor_provider option \<Rightarrow> f64 \<Rightarrow> f64 \<Rightarrow> f64 \<Rightarrow> f64 \<Rightarrow> f64" where
  "sm_refresh_rate monitor x y w h = (case map_option (\<lambda>m. m x y w h) monitor of Some r \<Rightarrow> r | None \<Rightarrow> Finite 60)"

definition sc_state :: "window_ctx \<Rightarrow> window_render_state" where
  "sc_state c = state c"

definition sc_extent :: "window_ctx \<Rightarrow> extent2d" where
  "sc_extent c = extent c"

definition sc_refresh_rate :: "monitor_provider option \<Rightarrow> f64 \<Rightarrow> f64 \<Rightarrow> f64 \<Rightarrow> f64 \<Rightarrow> f64" where
  "sc_refresh_rate monitor x y w h = (case map_option (\<lambda>m. m x y w h) monitor of Some r \<Rightarrow> r | None \<Rightarrow> Finite 60)"

section \<open>The reported state\<close>

text \<open>The parts of a build and the frame calls change neither the frames, nor the state, nor the command buffers.\<close>

definition untouched :: "window_ctx \<Rightarrow> window_ctx \<Rightarrow> bool" where
  "untouched c c' \<longleftrightarrow> frames c' = frames c \<and> state c' = state c \<and> command_buffers c' = command_buffers c"

interpretation part: preorder_on_states untouched
  by unfold_locales (auto simp: untouched_def)

lemma untouched_calls:
  "stable untouched np (vk_call reply ev)" "stable untouched np (vk_do ev')"
  "(\<And>c. untouched c (g c)) \<Longrightarrow> stable untouched np (supd g)"
  by (auto simp: stable_def untouched_def intro!: wps_vk_call)

lemma untouched_parts:
  "stable untouched False (negotiate d pick counts w h)"
  "stable untouched False (replace_swapchain d caps chosen mode ext n)" "stable untouched False (create_views d)"
  "stable untouched False (create_render_pass d att)" "stable untouched False (create_framebuffers d ext)"
  "stable untouched False (wait_fence d f t)" "stable untouched False (reset_fence d f)"
  "stable untouched False (fence_status d f)" "stable untouched False (acquire_image d sc t s)"
  "stable untouched False (queue_submit d q i f)" "stable untouched False (queue_present d q info)"
  "stable untouched False current_sync" "stable untouched False (acquired_at idx)"
  unfolding negotiate_def replace_swapchain_def create_views_def create_render_pass_def create_framebuffers_def
    create_def query_def wait_fence_def reset_fence_def fence_status_def acquire_image_def queue_submit_def
    queue_present_def current_sync_def acquired_at_def
  by (auto intro!: part.stable_intros part.stable_if untouched_calls simp: untouched_def split: prod.split)

lemma wps_untouched:
  assumes "stable untouched np m" and "\<And>x c'. untouched c c' \<Longrightarrow> Q x c'" and "\<And>e c'. untouched c c' \<Longrightarrow> E e c'"
  shows "wps m Q E c"
proof -
  have "wps m (\<lambda>_. untouched c) (\<lambda>e s'. untouched c s' \<and> (np \<longrightarrow> \<not> is_panic e)) c"
    using assms(1) by (simp add: stable_def)
  then show ?thesis by (rule wps_mono) (use assms(2,3) in auto)
qed

text \<open>
  \<open>told c\<close>: the state is ready or recreating, and recreating only if there is no command buffer, so that the
  context cannot be drawn with. \<open>good_state\<close> is what the operations keep.
\<close>

definition told :: "window_ctx \<Rightarrow> bool" where
  "told c \<longleftrightarrow> frames c \<noteq> [] \<and> (state c = Ready \<or> state c = Recreating \<and> command_buffers c = [])"

definition clears :: "unit win \<Rightarrow> bool" where
  "clears destroy \<longleftrightarrow> (\<forall>c Q E. (\<forall>h. Q () ((released c)\<lparr>history := h\<rparr>)) \<longrightarrow> wps destroy Q E c)"

lemma clears_release: "clears release_swapchain_resources" "clears (sm_destroy_swapchain_resources d)"
  by (auto simp: clears_def wps_def release_run sm_destroy_swapchain_resources_def sbind_def attempt_def wait_idle_def
      vk_call_def split: sum.split)

text \<open>A build leaves the state alone, and no command buffer when it fails.\<close>

lemma wps_build_state:
  assumes "clears destroy" and "frames c \<noteq> []"
    and Q: "\<And>c'. state c' = state c \<Longrightarrow> frames c' = frames c \<Longrightarrow> Q () c'"
    and E: "\<And>e c'. state c' = state c \<Longrightarrow> frames c' = frames c \<Longrightarrow> command_buffers c' = [] \<Longrightarrow> E e c'"
  shows "wps (sbind destroy (\<lambda>_. sbind (negotiate d pick counts w h) (assemble d att))) Q E c"
proof -
  have asm: "wps (assemble d att x) Q E c1" if "untouched ((released c)\<lparr>history := h\<rparr>) c1" for x c1 h
  proof -
    obtain caps chosen mode ext n where x: "x = (caps, chosen, mode, ext, n)" by (cases x) auto
    have start: "state c1 = state c" "frames c1 = frames c" "command_buffers c1 = []"
      using that by (auto simp: untouched_def released_def)
    note step = wps_untouched [OF untouched_parts(2)] wps_untouched [OF untouched_parts(3)]
      wps_untouched [OF untouched_parts(4)] wps_untouched [OF untouched_parts(5)]
    show ?thesis
      unfolding assemble_def x prod.case wps_sbind
      by (intro step) (use start assms(2) in \<open>auto simp: untouched_def allocate_commands_def alloc_command_buffers_def
        ensure_frames_def intro!: wps_vk_call Q E\<close>)
  qed
  show ?thesis
    unfolding wps_sbind
    by (rule assms(1) [unfolded clears_def, rule_format], rule wps_untouched [OF untouched_parts(1)])
      (use asm in \<open>auto simp: untouched_def released_def intro!: E\<close>)
qed

text \<open>Operations that keep a property of the context, also when they fail.\<close>

definition preserves :: "(window_ctx \<Rightarrow> bool) \<Rightarrow> 'a win \<Rightarrow> bool" where
  "preserves P m \<longleftrightarrow> (\<forall>c. P c \<longrightarrow> wps m (\<lambda>_. P) (\<lambda>_. P) c)"

definition drawable :: "window_ctx \<Rightarrow> bool" where
  "drawable c \<longleftrightarrow> frames c \<noteq> [] \<and> state c = Ready"

lemma preserves_sbind: "preserves P m \<Longrightarrow> (\<And>x. preserves P (k x)) \<Longrightarrow> preserves P (sbind m k)"
  unfolding preserves_def wps_sbind by (blast intro: wps_mono)

lemma preserves_pure:
  "preserves P (sret x)" "preserves P (sget f)" "preserves P (sfail e)" "preserves P (slift r)"
  "(\<And>c. P c \<Longrightarrow> P (g c)) \<Longrightarrow> preserves P (supd g)"
  by (auto simp: preserves_def split: sum.split)

lemma preserves_untouched:
  assumes "\<And>c c'. untouched c c' \<Longrightarrow> P c \<Longrightarrow> P c'"
  shows "stable untouched False m \<Longrightarrow> preserves P (qmark g m)" "stable untouched False m \<Longrightarrow> preserves P (attempt m)"
    "preserves P current_sync" "preserves P (acquired_at idx)"
  using untouched_parts(12,13)
  by (auto simp: preserves_def split: fault.split intro!: wps_untouched dest: assms)

lemma told_untouched: "untouched c c' \<Longrightarrow> told c \<Longrightarrow> told c'"
  by (auto simp: untouched_def told_def)

lemma drawable_untouched: "untouched c c' \<Longrightarrow> drawable c \<Longrightarrow> drawable c'"
  by (auto simp: untouched_def drawable_def)

lemma told_updates [simp]:
  "told (c\<lparr>pending_resize := m\<rparr>) = told c" "told (c\<lparr>current_frame := i\<rparr>) = told c"
  "drawable (c\<lparr>current_frame := i\<rparr>) = drawable c"
  by (simp_all add: told_def drawable_def)

lemmas preserves_calls = preserves_untouched [OF told_untouched] preserves_untouched [OF drawable_untouched]

lemma preserves_build:
  assumes "clears destroy"
  shows "preserves drawable (sbind destroy (\<lambda>_. sbind (negotiate d pick counts w h) (assemble d att)))"
  unfolding preserves_def drawable_def
  by (intro allI impI wps_build_state [OF assms]) auto

lemma preserves_rebuild:
  assumes "clears destroy" and "\<And>w h. build w h = sbind destroy (\<lambda>_. sbind (negotiate d pick counts w h) (assemble d att))"
  shows "preserves told (rebuild_with build w h)"
  unfolding preserves_def rebuild_with_def assms(2)
  by (auto simp: told_def simp del: wps_sbind simp: wps_sbind [of "supd _"] wps_sbind [of "sbind _ _" "\<lambda>_. supd _"]
      intro!: wps_build_state [OF assms(1)])

text \<open>A context that is recreating has no command buffer to submit; one that is ready stays so.\<close>

lemma preserves_submit:
  assumes "clears destroy" and "\<And>w h. build w h = sbind destroy (\<lambda>_. sbind (negotiate d pick counts w h) (assemble d att))"
  shows "preserves told (submit_and_present_with build d idx)"
  unfolding preserves_def
proof (intro allI impI)
  fix c assume c: "told c"
  show "wps (submit_and_present_with build d idx) (\<lambda>_. told) (\<lambda>_. told) c"
  proof (cases "state c = Ready")
    case True
    have build: "preserves drawable (build w h)" for w h
      unfolding assms(2) by (rule preserves_build [OF assms(1)])
    have "preserves drawable (submit_and_present_with build d idx)"
      unfolding submit_and_present_with_def
      by (auto intro!: preserves_sbind preserves_pure preserves_calls untouched_parts build
          split: sum.split vk_result.split)
    moreover have "drawable c" using c True by (simp add: told_def drawable_def)
    ultimately have "wps (submit_and_present_with build d idx) (\<lambda>_. drawable) (\<lambda>_. drawable) c"
      by (simp add: preserves_def)
    then show ?thesis by (rule wps_mono) (auto simp: told_def drawable_def)
  next
    case False
    with c have "command_buffers c = []" by (simp add: told_def)
    then show ?thesis
      unfolding submit_and_present_with_def wps_sbind [of current_sync]
      by (intro wps_untouched [OF untouched_parts(12)])
        (use c in \<open>auto simp: untouched_def told_def index_def\<close>)
  qed
qed

lemma sm_preserves_tick: "preserves told (sm_tick p d)"
proof -
  have "preserves told (sm_rebuild p d w h)" for w h
    unfolding sm_rebuild_def
    by (intro preserves_sbind preserves_pure preserves_rebuild [OF clears_release(2) sm_build_swapchain_def])
  then show ?thesis
    unfolding sm_tick_def
    by (auto intro!: preserves_sbind preserves_pure preserves_calls untouched_parts
        split: prod.split option.split sum.split vk_result.split bool.split)
qed

lemma sc_preserves_tick: "preserves told (sc_tick fuel p d)"
proof (induction fuel)
  case 0
  then show ?case by (simp add: preserves_pure)
next
  case (Suc fuel)
  have rebuild: "preserves told (sc_rebuild p d w h)" for w h
    unfolding sc_rebuild_def
    by (rule preserves_rebuild [OF clears_release(1)])
      (simp add: sc_build_swapchain_def sc_destroy_swapchain_resources_def)
  have next_frame: "preserves told (sc_next_frame d)"
    unfolding sc_next_frame_def Let_def
    by (auto intro!: preserves_sbind preserves_pure preserves_calls untouched_parts)
  show ?case
    unfolding sc_tick.simps(2)
    by (auto intro!: preserves_sbind preserves_pure preserves_calls untouched_parts rebuild next_frame Suc
        split: prod.split option.split sum.split vk_result.split bool.split)
qed

lemma run_ops_fault:
  "run_op tick submit act c = (Inl (Error e), c') \<Longrightarrow>
    run_ops tick submit (act # acts) c = (False, snd (run_ops tick submit acts c'))"
  by simp

lemma run_ops_told:
  assumes "preserves told tick" and "\<And>idx. preserves told (submit idx)"
  shows "told c \<Longrightarrow> run_ops tick submit acts c = (ok, c') \<Longrightarrow> told c'"
proof (induction acts arbitrary: c ok)
  case (Cons act acts)
  have "preserves told (run_op tick submit act)"
    by (cases act) (auto simp: run_op_def intro!: preserves_sbind preserves_pure assms)
  then have step: "wps (run_op tick submit act) (\<lambda>_. told) (\<lambda>_. told) c" using Cons.prems(1) by (simp add: preserves_def)
  obtain r c1 where run: "run_op tick submit act c = (r, c1)" by force
  with step have "told c1" by (auto simp: wps_def split: sum.splits)
  with Cons.IH [of c1] Cons.prems(2) run show ?case
    by (cases "run_ops tick submit acts c1") (auto split: sum.splits if_splits)
qed simp

lemma told_good: "good c \<Longrightarrow> state c = Ready \<Longrightarrow> told c"
  by (auto simp: good_def complete_def told_def)

section \<open>Properties\<close>

text \<open>
  C27: What \<^verbatim>\<open>state\<close> reports, in both versions. After \<^verbatim>\<open>new\<close> and any operations, successful or not,
  it is \<^verbatim>\<open>Ready\<close> or \<^verbatim>\<open>Recreating\<close>, never \<^verbatim>\<open>Lost\<close> or \<^verbatim>\<open>Uninitialized\<close>; and \<^verbatim>\<open>Recreating\<close> means that
  the last rebuild failed, since there is no command buffer to draw with.
\<close>

theorem reported_state:
  assumes "nonnull_handles d" "exact_counts d" and "holds (L + {#(KSurface, surf)#}) hist"
    and "sm_new p d hist sd surf w h = (Inr c, hist1)"
    and "run_ops (sm_tick p d) (sm_submit_and_present p d) acts c = (ok, c1)"
    and "sc_new p d hist sd surf w h = (Inr k, hist2)"
    and "run_ops (sc_tick fuel p d) (sc_submit_and_present p d) acts k = (ok', k1)"
  shows "(sm_state c1 = Ready \<or> sm_state c1 = Recreating \<and> command_buffers c1 = []) \<and>
    (sc_state k1 = Ready \<or> sc_state k1 = Recreating \<and> command_buffers k1 = [])"
proof -
  have "told c" using sm.new_books [OF assms(1-3) assms(4) [unfolded sm_new_def]] by (simp add: told_good)
  moreover have "preserves told (sm_submit_and_present p d idx)" for idx
    unfolding sm_submit_and_present_def by (rule preserves_submit [OF clears_release(2) sm_build_swapchain_def])
  ultimately have "told c1" using run_ops_told [OF sm_preserves_tick _ _ assms(5)] by blast
  moreover have "told k" using sc.new_books [OF assms(1-3) assms(6) [unfolded sc_new_def]] by (simp add: told_good)
  moreover have "preserves told (sc_submit_and_present p d idx)" for idx
    unfolding sc_submit_and_present_def
    by (rule preserves_submit [OF clears_release(1)])
      (simp add: sc_build_swapchain_def sc_destroy_swapchain_resources_def)
  ultimately have "told c1" "told k1" using run_ops_told [OF sc_preserves_tick _ _ assms(7)] by blast+
  then show ?thesis by (simp add: told_def sm_state_def sc_state_def)
qed

text \<open>A window that is minimised once it has a swapchain.\<close>

definition shrinking_driver :: driver where
  "shrinking_driver = steady_driver\<lparr>d_surface_caps := (\<lambda>h surf.
     Inr (if list_ex (\<lambda>ev. case ev of ECreate ci _ \<Rightarrow> kind_of ci = KSwapchain | _ \<Rightarrow> False) h
          then demo_caps 0 0 else demo_caps 640 480))\<rparr>"

lemma shrinking_conforms: "nonnull_handles shrinking_driver" "exact_counts shrinking_driver"
  using steady_conforms by (simp_all add: shrinking_driver_def nonnull_handles_def exact_counts_def)

theorem reported_state_witness:
  "\<exists>c hist1. sm_new Dev shrinking_driver demo_start demo_device 10 640 480 = (Inr c, hist1) \<and>
     (\<exists>c1. run_ops (sm_tick Dev shrinking_driver) (sm_submit_and_present Dev shrinking_driver)
        [OpTick, OpResize 800 600, OpTick] c = (False, c1) \<and> sm_state c1 = Recreating \<and> command_buffers c1 = [])"
proof -
  let ?d = shrinking_driver and ?acts = "[OpTick, OpResize 800 600, OpTick]"
  define c where "c = (case sm_new Dev ?d demo_start demo_device 10 640 480 of (Inr c, _) \<Rightarrow> c)"
  define k where "k = (case sc_new Dev ?d demo_start demo_device 10 640 480 of (Inr c, _) \<Rightarrow> c)"
  have new: "sm_new Dev ?d demo_start demo_device 10 640 480 = (Inr c, history c)"
    "sc_new Dev ?d demo_start demo_device 10 640 480 = (Inr k, history k)"
    unfolding c_def k_def by (simp_all add: context_eval sm_eval sc_eval shrinking_driver_def cong: sbind_weak_cong)
  have "\<exists>c1. run_ops (sm_tick Dev ?d) (sm_submit_and_present Dev ?d) ?acts c = (False, c1) \<and> sm_state c1 = Recreating"
    unfolding c_def
    by (simp add: context_eval sm_eval shrinking_driver_def sm_state_def run_ops_fault
        cong: sbind_weak_cong del: run_ops.simps(2))
  then obtain c1 where run: "run_ops (sm_tick Dev ?d) (sm_submit_and_present Dev ?d) ?acts c = (False, c1)"
    and st: "sm_state c1 = Recreating" by blast
  obtain ok k1 where "run_ops (sc_tick 1 Dev ?d) (sc_submit_and_present Dev ?d) ?acts k = (ok, k1)" by force
  from reported_state [OF shrinking_conforms demo_start_holds new(1) run new(2) this] new(1) run st show ?thesis by simp
qed

text \<open>
  The state does not tell everything: when a presentation finds the swapchain out of date and the build that
  \<^verbatim>\<open>submit_and_present\<close> calls for it fails, the state stays \<^verbatim>\<open>Ready\<close> while the context has no command buffer
  any more, and the next tick that acquires an image panics.
\<close>

theorem stale_ready:
  assumes "good c" "state c = Ready" "\<not> flag (pending_resize c)" and "unat idx < length (command_buffers c)"
    and "\<And>h i. d_submit d h i = Inr ()" "\<And>h i. d_present d h i = Inl ERROR_OUT_OF_DATE_KHR"
    and "\<And>h f t. d_wait_fence d h f t = Inr ()" "\<And>h sc t s. d_acquire d h sc t s = Inr (idx', False)"
    and "\<And>h f. d_reset_fence d h f = Inr ()"
    and "sm_submit_and_present p d idx c = (Inl e, c1)"
  shows "sm_state c1 = Ready \<and> command_buffers c1 = [] \<and> fst (sm_tick p d c1) = Inl (Panic IndexOutOfBounds)"
proof -
  let ?f = "the_frame c" and ?q = "sd_graphics_queue (shared c)"
  have cur: "current_frame c < length (frames c)" using assms(1) by (simp add: good_def)
  let ?c = "c\<lparr>history := EPresent ?q (present_info_at c idx) (Inl ERROR_OUT_OF_DATE_KHR) #
      ESubmit ?q (submit_info_at c idx) (in_flight ?f) (Inr ()) # history c,
    current_frame := (current_frame c + 1) mod length (frames c)\<rparr>"
  have "sm_submit_and_present p d idx c = sm_build_swapchain p d (ewidth (extent c)) (eheight (extent c)) ?c"
    using cur assms(4-6)
    by (simp add: sm_submit_and_present_def submit_and_present_with_def current_sync_run run_sbind run_simps
        slift_def sbind_def qmark_def attempt_def queue_submit_def queue_present_def vk_call_def the_frame_def
        submit_info_at_def present_info_at_def)
  with assms(10) have run: "sm_build_swapchain p d (ewidth (extent c)) (eheight (extent c)) ?c = (Inl e, c1)" by simp
  have frames: "frames ?c \<noteq> []" using cur by auto
  have "wps (sm_build_swapchain p d (ewidth (extent c)) (eheight (extent c))) (\<lambda>_ _. True)
      (\<lambda>_ c'. state c' = state ?c \<and> frames c' = frames ?c \<and> command_buffers c' = []) ?c"
    unfolding sm_build_swapchain_def by (intro wps_build_state [OF clears_release(2) frames]) simp_all
  from wps_faultD [OF this run] assms(2) have c1: "state c1 = Ready" "frames c1 = frames c" "command_buffers c1 = []"
    by simp_all
  have "stable builds False (sm_build_swapchain p d w h)" for w h
    unfolding sm_build_swapchain_def sm_destroy_swapchain_resources_def wait_idle_def
    by (intro build.stable_sbind build_parts_build stable_attempt builds_calls) simp_all
  from stable_run(1) [OF this run] have "current_frame c1 = (current_frame c + 1) mod length (frames c)"
    "pending_resize c1 = pending_resize c" by (auto simp: builds_def)
  moreover have "0 < length (frames c)" using cur by linarith
  ultimately have "\<not> flag (pending_resize c1)" "current_frame c1 < length (frames c1)" using assms(3) c1 by simp_all
  from sm_tick_no_buffers [OF this c1(3) assms(7-9)] c1 show ?thesis by (simp add: sm_state_def)
qed

theorem stale_ready_witness:
  "\<exists>c1. sm_submit_and_present Dev (demo_driver (Inr (demo_caps 0 0)) (Inr (1, False)) (Inr ()) (Inl ERROR_OUT_OF_DATE_KHR)) 1 sm_demo
     = (Inl (Error ZeroExtent), c1) \<and> sm_state c1 = Ready \<and> command_buffers c1 = []"
proof -
  let ?d = "demo_driver (Inr (demo_caps 0 0)) (Inr (1, False)) (Inr ()) (Inl ERROR_OUT_OF_DATE_KHR)"
  have c: "\<not> flag (pending_resize sm_demo)" "unat 1 < length (command_buffers sm_demo)"
    unfolding sm_demo_def by (simp_all add: context_eval sm_eval cong: sbind_weak_cong)
  have "fst (sm_submit_and_present Dev ?d 1 sm_demo) = Inl (Error ZeroExtent)"
    unfolding sm_demo_def by (simp add: context_eval sm_eval cong: sbind_weak_cong)
  then obtain c1 where run: "sm_submit_and_present Dev ?d 1 sm_demo = (Inl (Error ZeroExtent), c1)"
    by (metis prod.collapse)
  from stale_ready [OF sm_demo_ready(2,3) c _ _ _ _ _ run, of 1] run show ?thesis
    by (simp add: demo_driver_def)
qed

end
