(* ===== verification/Spec2Isabelle.thy ===== *)
theory Spec2Isabelle
  imports ShaderPipeline AirSafety Truncation StateMachine Swapchain Resource DeviceSelect Application
    MetalLayer GlBuffers Swizzle Windows CompositorBridge FrameLoop GlSpec MethodTypes Lifecycle
begin

text \<open>
  A model of the Rust crate under \<^verbatim>\<open>src/src/\<close>, a compositor backend that runs Cocoa applications
  on Vulkan. The definitions are translated from the code; the properties are theorems about them.

  \<^bold>\<open>The program.\<close> An application calls Objective-C classes, Metal, QuartzCore and OpenGL functions that the
  crate implements. \<^verbatim>\<open>bridge/swizzle.rs\<close> installs the methods of windows, views and screens into the
  runtime; they work on the tables of \<^verbatim>\<open>frameworks/appkit.rs\<close> and tell a compositor what is shown.
  The layer of \<^verbatim>\<open>frameworks/quartz_core.rs\<close> hands out drawables from the window render context of
  \<^verbatim>\<open>vulkan_backend/swapchain.rs\<close> (of which \<^verbatim>\<open>vulkan_backend/state_machine.rs\<close> has
  a second version); \<^verbatim>\<open>frameworks/metal_sys.rs\<close> and \<^verbatim>\<open>frameworks/opengl_sys.rs\<close>
  record onto the shared Vulkan device, which \<^verbatim>\<open>vulkan_backend/mod.rs\<close> selects and creates.
  \<^verbatim>\<open>vulkan_backend/resource.rs\<close> makes and imports images. \<^verbatim>\<open>shader_jit\<close> parses AIR, the LLVM
  bitcode of Metal shaders, and collects the bindings of its functions. \<^verbatim>\<open>bridge/compositor.rs\<close> is the
  server side, over a native core.

  \<^bold>\<open>Which theory models what.\<close>
  \<^item> \<open>Prelude\<close>: outcomes (a value, an \<^verbatim>\<open>Err\<close>, a panic, no fuel left), machine arithmetic in the two build
    profiles, indexing. \<open>Monad\<close>: methods on \<^verbatim>\<open>&mut self\<close> as state passing, weakest preconditions
    (\<open>wps\<close>), and the locale \<open>preorder_on_states\<close> for what every part of a computation respects.
  \<^item> \<open>BitReader\<close>, \<open>AirParser\<close>, \<open>AirTags\<close>: \<^verbatim>\<open>shader_jit/air_parser.rs\<close>. \<open>Bitfields\<close> and \<open>AirFormat\<close>
    state the format by a writer, and what a well-formed document is (\<open>check_module\<close>, which keeps track of the
    abbreviations in force), and prove that the parser reads it back, but for characters of six bits, whose numbers
    (\<open>CHAR6\<close>, \<open>seen\<close>) it takes for the characters; \<open>AirSafety\<close> says when the parser panics, and
    \<open>Truncation\<close> that it does on every module cut within the padding of its last block.
  \<^item> \<open>Transforms\<close>: \<^verbatim>\<open>shader_jit/transforms.rs\<close> and \<^verbatim>\<open>shader_jit/mod.rs\<close>. \<open>ShaderPipeline\<close>: from the
    bytes of a document to its bindings.
  \<^item> \<open>Vk\<close>: the Vulkan calls of the backend. \<open>PendingResize\<close>, \<open>RenderContext\<close>, \<open>StateMachine\<close>:
    \<^verbatim>\<open>vulkan_backend/state_machine.rs\<close>; \<open>Swapchain\<close>: \<^verbatim>\<open>vulkan_backend/swapchain.rs\<close>. What the two
    versions share is in \<open>RenderContext\<close>, with the locale \<open>render_backend\<close>, which both interpret. \<open>DemoDriver\<close>
    is a driver to run the model on. \<open>FrameProtocol\<close> states Vulkan's rules for fences, semaphores, images and
    releases as a machine that reads a history, as a validation layer does (\<open>layer_step\<close>), the rules on the reuse of
    command buffers and of presentation semaphores as \<open>reuses_ok\<close>, and the locale \<open>frame_client\<close>, a render context
    with the owner of its window; \<open>FrameLoop\<close> interprets it for both versions. \<open>Lifecycle\<close>: the accessors, and what they report.
  \<^item> \<open>Resource\<close>: \<^verbatim>\<open>vulkan_backend/resource.rs\<close>, with the locale \<open>image_source\<close> for the three ways to an image.
    \<open>DeviceSelect\<close>: \<^verbatim>\<open>vulkan_backend/mod.rs\<close>. \<open>Application\<close>: device, window and drop in one run.
  \<^item> \<open>Objc\<close>: the runtime helpers of \<^verbatim>\<open>frameworks/appkit.rs\<close>. \<open>Swizzle\<close>: the installation of the methods.
    \<open>MethodTypes\<close>: the type encodings they are installed with, against Objective-C's. \<open>Windows\<close>: the methods, and the tables of
    \<^verbatim>\<open>frameworks/appkit.rs\<close> they use.
  \<^item> \<open>MetalLayer\<close>: \<^verbatim>\<open>frameworks/metal_sys.rs\<close> and \<^verbatim>\<open>frameworks/quartz_core.rs\<close>;
    \<open>GlBuffers\<close>: \<^verbatim>\<open>frameworks/opengl_sys.rs\<close>, and \<open>GlSpec\<close> the buffer objects it implements, names with byte
    stores and no Vulkan; \<open>CompositorBridge\<close>: \<^verbatim>\<open>bridge/compositor.rs\<close> and \<^verbatim>\<open>lib.rs\<close>.

  \<^bold>\<open>State.\<close> A struct is a record with the fields of the code, a method a function from the state to an outcome and
  the state reached, also when it fails, since nothing rolls back on an early return. A global is a field of
  the record of the process (\<open>framework_world\<close>, \<open>gl_world\<close>, \<open>app_world\<close>). Machine integers are words of
  their width; arithmetic panics on overflow in the profile \<open>Dev\<close> and wraps in \<open>Release\<close>. A double is finite
  (a rational), infinite or NaN. The locks only order the calls; a panic in an \<^verbatim>\<open>extern "C"\<close> function ends the
  process. The atomics of \<^verbatim>\<open>PendingResize\<close> are single steps of two threads, sequentially consistent.

  \<^bold>\<open>What is not code of the crate\<close> is a parameter: the driver and the Vulkan instance (\<open>driver\<close>,
  \<open>instance_api\<close>), IOSurface, the Objective-C runtime (\<open>objc_runtime\<close>), and the native core (\<open>native_core\<close>,
  whose C sources lie beside the crate). Their answers may depend on the whole history of calls, which the state
  keeps newest first. What is asked of them is documented behaviour: successful creations return handles that are
  not null (\<open>nonnull_handles\<close>), as many command buffers as were asked for (\<open>exact_counts\<close>),
  \<^verbatim>\<open>NSValue\<close> gives back its pointer (\<open>boxes_pointers\<close>), \<^verbatim>\<open>init\<close> returns its receiver.

  \<^bold>\<open>What the lemmas show.\<close> Books: \<open>holds own h\<close> says of a history that only what existed was released and
  that exactly \<open>own\<close> is left. The invariants of the backend (\<open>books\<close>, \<open>gl_books\<close>, \<open>layer_books\<close>,
  \<open>native_held\<close>) tie this to the handles in the state, and give the life cycles from creation to drop, with
  what error paths lose. Safety: what panics, hangs, waits for nothing or is used after its release, and what does
  not. Frames: under which answers of the driver a window owner breaks none of the rules of \<open>layer_step\<close> from
  \<^verbatim>\<open>new\<close> to the drop (\<open>sm_usable\<close>, \<open>sc_usable\<close>), the ring of fences and semaphores (\<open>ring\<close>) being the
  invariant, and under which none on reuse either (\<open>in_turn\<close>, with the order of slots and images, \<open>ordered\<close>); that the
  one on command buffers is broken with fewer images than frames; what the states \<^verbatim>\<open>Ready\<close> and \<^verbatim>\<open>Recreating\<close> tell, after failures too. Format: round trips, the refinement of the bit stream, the equivalence of the wrapped and the raw module.
  Functional descriptions: the metadata pass, the choice of device, queue families and memory types, the contents
  of a buffer, the installed methods and their types, what the compositor knows. Refinement: the GL entry points
  compute, over any sequence of calls, what the machine of \<open>GlSpec\<close> does (\<open>gl_abs\<close> is the abstraction).

  \<^bold>\<open>Fuel.\<close> \<open>parse\<close> starts with as much fuel as its input can use, which \<open>parse_terminates\<close> proves; the rounds
  of \<open>sc_tick\<close> are an argument, since \<^verbatim>\<open>tick\<close> of \<^verbatim>\<open>swapchain.rs\<close> calls itself without a bound:
  \<open>sc_tick_returns\<close> says when a number of rounds is enough and \<open>sc_tick_never_returns\<close> when none is.

  \<^bold>\<open>Not modelled:\<close> the implementations of the trait \<^verbatim>\<open>MonitorProvider\<close>, of which the crate has none (the accessor
  \<^verbatim>\<open>refresh_rate\<close> takes the provider as a parameter); log lines; \<^verbatim>\<open>run\<close> and \<^verbatim>\<open>terminate:\<close> (\<^verbatim>\<open>CFRunLoopRun\<close> and \<^verbatim>\<open>exit\<close>); methods with empty
  bodies; \<^verbatim>\<open>QmvInputEvent\<close> and the extern functions that nothing calls; the C, Objective-C and
  Python files beside the crate. Memory and stack are unbounded, and the names that \<^verbatim>\<open>swapchain.rs\<close> uses without
  declaring (its render pass) are left open.
\<close>

end
